theory Spec2Isabelle
  imports Main "HOL-Library.Word" "HOL-Library.FSet"
begin

unbundle bit_operations_syntax

section \<open>The logging core of loadgen/logging.cc\<close>

text \<open>
  A shallow embedding of \<^verbatim>\<open>src/loadgen/logging.cc\<close>: the thread-local logger
  \<^verbatim>\<open>TlsLogger\<close> with its two entry buffers, and the central \<^verbatim>\<open>Logger\<close> with the ring
  of swap-request slots, the registry, the orphanage and the I/O thread.

  Conventions.
  \<^item> \<^verbatim>\<open>size_t\<close> and \<^verbatim>\<open>uintptr_t\<close> are 64-bit words; arithmetic on them wraps.
  \<^item> An atomic operation is one function on the value of the cell it works on.
  \<^item> \<^verbatim>\<open>GlobalLogger().LogErrorSync(...); assert(cond)\<close> with a false condition ends
    the call: the function returns \<open>Inl\<close> of the failure (assertions are compiled in).
\<close>

type_synonym size_t = "64 word"
type_synonym uintptr_t = "64 word"

subsection \<open>Atomic cells\<close>

text \<open>
  \<^verbatim>\<open>cell.compare_exchange_strong(expected, desired)\<close>: the first component is the
  call's result, the second the cell's value afterwards. (On failure the source's
  \<^verbatim>\<open>expected\<close> receives the value found; every caller below either resets or drops it.)
\<close>

definition compare_exchange_strong :: "'v \<Rightarrow> 'v \<Rightarrow> 'v \<Rightarrow> bool \<times> 'v" where
  "compare_exchange_strong cell expected desired =
     (if cell = expected then (True, desired) else (False, cell))"

subsection \<open>TlsLogger\<close>

datatype EntryState = Unlocked | ReadLock | WriteLock

datatype failure =
    AssertFailed string nat  \<comment> \<open>the message given to LogErrorSync, and the source line\<close>
  | DanglingPointer uintptr_t  \<comment> \<open>a TlsLogger* that names no live object\<close>
  | NoSlots  \<comment> \<open>\<^verbatim>\<open>id % thread_swap_request_slots_.size()\<close> with no slot at all\<close>

text \<open>
  The fields of \<^verbatim>\<open>class TlsLogger\<close>, in the order of the source. The two arrays of
  length two are lists; they are indexed by \<^verbatim>\<open>i_read_\<close>, \<^verbatim>\<open>i_write_\<close> and the local
  \<^verbatim>\<open>i_write\<close> only, each of which is 0 or 1 (\<open>tls_wf\<close> below).
\<close>

record 'e TlsLogger =
  i_read :: size_t
  entries :: "'e list list"
  entry_states :: "EntryState list"
  i_write :: size_t
  log_cas_fail_count :: size_t
  swap_buffers_slot_retry_count :: size_t
  unread_swaps :: size_t
  i_write_prev :: size_t
  trace_pid_tid :: string
  tid_as_string :: string

text \<open>The member initialisers and the constructor; the two strings come from the thread.\<close>

definition TlsLogger_new :: "string \<Rightarrow> string \<Rightarrow> 'e TlsLogger" where
  "TlsLogger_new pid_tid tid =
     \<lparr> i_read = 0, entries = [[], []], entry_states = [ReadLock, Unlocked], i_write = 1,
       log_cas_fail_count = 0, swap_buffers_slot_retry_count = 0,
       unread_swaps = 0, i_write_prev = 0,
       trace_pid_tid = pid_tid, tid_as_string = tid \<rparr>"

definition tls_wf :: "'e TlsLogger \<Rightarrow> bool" where
  "tls_wf t \<longleftrightarrow>
     length (entries t) = 2 \<and> length (entry_states t) = 2 \<and>
     i_read t < 2 \<and> i_write t < 2 \<and> i_write_prev t < 2"

text \<open>\<^verbatim>\<open>TlsLogger::SwapBuffers\<close> (lines 477-491).\<close>

definition SwapBuffers :: "'e TlsLogger \<Rightarrow> failure + 'e TlsLogger" where
  "SwapBuffers t =
     (case compare_exchange_strong (entry_states t ! unat (i_read t)) ReadLock Unlocked of
        (False, _) \<Rightarrow> Inl (AssertFailed ''CAS failed.'' 484)
      | (True, v) \<Rightarrow>
          Inr (t\<lparr> entry_states := (entry_states t)[unat (i_read t) := v],
                  i_write := i_read t,
                  i_read := i_read t XOR 1,
                  unread_swaps := unread_swaps t + 1 \<rparr>))"

text \<open>
  \<^verbatim>\<open>TlsLogger::StartReadingEntries\<close> (lines 494-502): \<open>None\<close> is the source's
  \<^verbatim>\<open>nullptr\<close>; otherwise the logger with the read buffer locked, and the buffer's entries.
\<close>

definition StartReadingEntries :: "'e TlsLogger \<Rightarrow> ('e TlsLogger \<times> 'e list) option" where
  "StartReadingEntries t =
     (case compare_exchange_strong (entry_states t ! unat (i_read t)) Unlocked ReadLock of
        (True, v) \<Rightarrow>
          Some (t\<lparr> entry_states := (entry_states t)[unat (i_read t) := v] \<rparr>,
                entries t ! unat (i_read t))
      | (False, _) \<Rightarrow> None)"

text \<open>\<^verbatim>\<open>TlsLogger::FinishReadingEntries\<close> (lines 504-507); the decrement wraps at 0.\<close>

definition FinishReadingEntries :: "'e TlsLogger \<Rightarrow> 'e TlsLogger" where
  "FinishReadingEntries t =
     t\<lparr> entries := (entries t)[unat (i_read t) := []],
        unread_swaps := unread_swaps t - 1 \<rparr>"

definition ReadBufferHasBeenConsumed :: "'e TlsLogger \<Rightarrow> bool" where
  "ReadBufferHasBeenConsumed t \<longleftrightarrow> unread_swaps t = 0"

definition RequestSwapBuffersSlotRetried :: "'e TlsLogger \<Rightarrow> 'e TlsLogger" where
  "RequestSwapBuffersSlotRetried t =
     t\<lparr> swap_buffers_slot_retry_count := swap_buffers_slot_retry_count t + 1 \<rparr>"

text \<open>
  \<^verbatim>\<open>ReportLogCasFailCount\<close> and \<^verbatim>\<open>ReportSwapBuffersSlotRetryCount\<close>: the value read,
  and the logger with that much taken off the counter.
\<close>

definition ReportLogCasFailCount :: "'e TlsLogger \<Rightarrow> size_t \<times> 'e TlsLogger" where
  "ReportLogCasFailCount t =
     (let c = log_cas_fail_count t
      in (c, t\<lparr> log_cas_fail_count := log_cas_fail_count t - c \<rparr>))"

definition ReportSwapBuffersSlotRetryCount :: "'e TlsLogger \<Rightarrow> size_t \<times> 'e TlsLogger" where
  "ReportSwapBuffersSlotRetryCount t =
     (let c = swap_buffers_slot_retry_count t
      in (c, t\<lparr> swap_buffers_slot_retry_count := swap_buffers_slot_retry_count t - c \<rparr>))"

subsection \<open>Deferred actions and the AsyncLog\<close>

text \<open>
  An \<^verbatim>\<open>AsyncLogEntry\<close> is a \<^verbatim>\<open>std::function<void(AsyncLog&)>\<close>. The closures this file
  itself builds are the last three constructors; \<open>UserEntry x\<close> is a closure handed to
  \<^verbatim>\<open>Log\<close> from outside, which does its work \<open>x\<close> on the AsyncLog it is given.
\<close>

datatype 'a AsyncLogEntry =
    UserEntry 'a
  | OrphanEntry uintptr_t  \<comment> \<open>built by UnRegisterTlsLogger, lines 183-186; captures the orphan\<close>
  | ContentionEntry  \<comment> \<open>built by StopLogging, lines 222-250\<close>
  | FlushedEntry nat  \<comment> \<open>\<^verbatim>\<open>io_thread_flushed_this_thread.set_value()\<close>, for the promise named\<close>

datatype ostream = Nullptr | Cerr | Stream nat

text \<open>
  Modelled from the spec: \<^verbatim>\<open>class AsyncLog\<close> is declared in logging.h, which is not part
  of this file. As in the spec's end-to-end scenarios it is a recording stub: the list of
  the calls made on it, oldest first. \<open>LogDetail c label\<close> stands for
  \<^verbatim>\<open>log.LogDetail(std::to_string(c) + label)\<close>, and \<open>LogDetail 0 text\<close> with an empty
  number for the heading line.
\<close>

datatype 'a AsyncLog_call =
    SetLogFiles ostream ostream nat
  | StartNewTrace_call ostream nat
  | SetCurrentTracePidTidString string
  | LogDetail size_t string
  | Flush
  | Invoked 'a

subsection \<open>Logger\<close>

record SlotRetry =
  slot :: size_t
  next_id :: size_t

text \<open>
  The members of \<^verbatim>\<open>class Logger\<close> that this file uses (the class is declared in
  logging.h), and after them the memory around it: the TlsLogger objects by address,
  what \<^verbatim>\<open>LogErrorSync\<close> has written, and the promises that have been given a value.
  \<^verbatim>\<open>poll_period_\<close>, the mutexes and the condition variable have no field.
\<close>

record 'a Logger =
  max_threads_to_log :: size_t
  thread_swap_request_slots :: "uintptr_t list"
  swap_request_id :: size_t
  swap_request_id_read :: size_t
  swap_request_slots_to_retry :: "SlotRetry list"
  threads_to_swap_deferred :: "uintptr_t list"
  threads_to_read :: "uintptr_t list"
  orphans_to_destroy :: "uintptr_t list"
  tls_loggers_registerd :: "uintptr_t fset"
  tls_logger_orphans :: "uintptr_t list"
  swap_request_slots_retry_count :: size_t
  swap_request_slots_retry_retry_count :: size_t
  swap_request_slots_retry_reencounter_count :: size_t
  start_reading_entries_retry_count :: size_t
  tls_total_log_cas_fail_count :: size_t
  tls_total_swap_buffers_slot_retry_count :: size_t
  keep_io_thread_alive :: bool
  async_logger :: "'a AsyncLog_call list"
  tls :: "uintptr_t \<rightharpoonup> 'a AsyncLogEntry TlsLogger"
  sync_errors :: "string list"
  promises :: "nat set"

text \<open>Lines 34-45.\<close>

definition SwapRequestSlotIsWritableValue :: "size_t \<Rightarrow> uintptr_t" where
  "SwapRequestSlotIsWritableValue i = push_bit 1 i OR 1"

definition SwapRequestSlotIsReadable :: "uintptr_t \<Rightarrow> bool" where
  "SwapRequestSlotIsReadable v \<longleftrightarrow> v AND 1 \<noteq> 1"

text \<open>\<^verbatim>\<open>thread_swap_request_slots_.size()\<close>, a \<^verbatim>\<open>size_t\<close>.\<close>

definition slot_count :: "'a Logger \<Rightarrow> size_t" where
  "slot_count lg = of_nat (length (thread_swap_request_slots lg))"

text \<open>The constructor, lines 114-124.\<close>

definition Logger_new :: "size_t \<Rightarrow> 'a Logger" where
  "Logger_new m =
     \<lparr> max_threads_to_log = m,
       thread_swap_request_slots =
         map (\<lambda>i. SwapRequestSlotIsWritableValue (of_nat i)) [0 ..< unat (m * 2)],
       swap_request_id = 0,
       swap_request_id_read = 0,
       swap_request_slots_to_retry = [],
       threads_to_swap_deferred = [],
       threads_to_read = [],
       orphans_to_destroy = [],
       tls_loggers_registerd = {||},
       tls_logger_orphans = [],
       swap_request_slots_retry_count = 0,
       swap_request_slots_retry_retry_count = 0,
       swap_request_slots_retry_reencounter_count = 0,
       start_reading_entries_retry_count = 0,
       tls_total_log_cas_fail_count = 0,
       tls_total_swap_buffers_slot_retry_count = 0,
       keep_io_thread_alive = False,
       async_logger = [],
       tls = Map.empty,
       sync_errors = [],
       promises = {} \<rparr>"

definition LogErrorSync :: "string \<Rightarrow> 'a Logger \<Rightarrow> 'a Logger" where
  "LogErrorSync msg lg = lg\<lparr> sync_errors := sync_errors lg @ [msg] \<rparr>"

text \<open>
  \<^verbatim>\<open>Logger::RequestSwapBuffers\<close> (lines 128-150). The loop runs until a CAS succeeds,
  which may be never: \<open>None\<close> is the call that does not return. \<open>req_id\<close> is the
  source's \<^verbatim>\<open>id\<close>, what the last \<^verbatim>\<open>fetch_add\<close> returned.
\<close>

partial_function (option) RequestSwapBuffers_loop ::
  "'a Logger \<Rightarrow> uintptr_t \<Rightarrow> size_t \<Rightarrow> (failure + 'a Logger) option" where
  "RequestSwapBuffers_loop lg tls_logger req_id =
     (if thread_swap_request_slots lg = [] then Some (Inl NoSlots)
      else if fst (compare_exchange_strong
                     (thread_swap_request_slots lg ! unat (req_id mod slot_count lg))
                     (SwapRequestSlotIsWritableValue req_id) tls_logger)
      then Some (Inr (lg\<lparr> thread_swap_request_slots :=
                          (thread_swap_request_slots lg)
                            [unat (req_id mod slot_count lg) :=
                               snd (compare_exchange_strong
                                      (thread_swap_request_slots lg
                                         ! unat (req_id mod slot_count lg))
                                      (SwapRequestSlotIsWritableValue req_id) tls_logger)] \<rparr>))
      else
        (case tls lg tls_logger of
           None \<Rightarrow> Some (Inl (DanglingPointer tls_logger))
         | Some t \<Rightarrow>
             RequestSwapBuffers_loop
               (lg\<lparr> swap_request_id := swap_request_id lg + 1,
                    tls := (tls lg)(tls_logger \<mapsto> RequestSwapBuffersSlotRetried t) \<rparr>)
               tls_logger (swap_request_id lg)))"

definition RequestSwapBuffers ::
  "'a Logger \<Rightarrow> uintptr_t \<Rightarrow> (failure + 'a Logger) option" where
  "RequestSwapBuffers lg tls_logger =
     (if \<not> SwapRequestSlotIsReadable tls_logger
      then Some (Inl (AssertFailed ''SwapRequestSlotIsReadable(tls_logger_as_uint)'' 130))
      else RequestSwapBuffers_loop (lg\<lparr> swap_request_id := swap_request_id lg + 1 \<rparr>)
             tls_logger (swap_request_id lg))"

text \<open>\<^verbatim>\<open>Logger::RegisterTlsLogger\<close> (lines 152-160).\<close>

definition RegisterTlsLogger :: "'a Logger \<Rightarrow> uintptr_t \<Rightarrow> 'a Logger" where
  "RegisterTlsLogger lg tls_logger =
     (let lg1 =
        (if max_threads_to_log lg \<le> of_nat (fcard (tls_loggers_registerd lg))
         then LogErrorSync
                ''Warning: More TLS loggers registerd than can be active simultaneously.\<newline>'' lg
         else lg)
      in lg1\<lparr> tls_loggers_registerd := finsert tls_logger (tls_loggers_registerd lg1) \<rparr>)"

text \<open>\<^verbatim>\<open>Logger::CollectTlsLoggerStats\<close> (lines 189-193).\<close>

definition CollectTlsLoggerStats :: "'a Logger \<Rightarrow> uintptr_t \<Rightarrow> failure + 'a Logger" where
  "CollectTlsLoggerStats lg tls_logger =
     (case tls lg tls_logger of
        None \<Rightarrow> Inl (DanglingPointer tls_logger)
      | Some t \<Rightarrow>
          (case ReportLogCasFailCount t of (c1, t1) \<Rightarrow>
           case ReportSwapBuffersSlotRetryCount t1 of (c2, t2) \<Rightarrow>
             Inr (lg\<lparr> tls_total_log_cas_fail_count := tls_total_log_cas_fail_count lg + c1,
                       tls_total_swap_buffers_slot_retry_count :=
                         tls_total_swap_buffers_slot_retry_count lg + c2,
                       tls := (tls lg)(tls_logger \<mapsto> t2) \<rparr>)))"

text \<open>
  \<^verbatim>\<open>Logger::StartLogging\<close> (lines 212-214) and \<^verbatim>\<open>Logger::StartNewTrace\<close> (lines
  258-261): each is one call on the AsyncLog, made by the calling thread itself. \<open>now\<close>
  is what \<^verbatim>\<open>PerfClock::now()\<close> returns.
\<close>

definition StartLogging :: "'a Logger \<Rightarrow> ostream \<Rightarrow> ostream \<Rightarrow> nat \<Rightarrow> 'a Logger" where
  "StartLogging lg summary detail now =
     lg\<lparr> async_logger := async_logger lg @ [SetLogFiles summary detail now] \<rparr>"

definition StartNewTrace :: "'a Logger \<Rightarrow> ostream \<Rightarrow> nat \<Rightarrow> 'a Logger" where
  "StartNewTrace lg trace_out origin =
     lg\<lparr> async_logger := async_logger lg @ [StartNewTrace_call trace_out origin] \<rparr>"


text \<open>
  \<^verbatim>\<open>TlsLogger::Log\<close>, the loop of lines 442-457: \<open>i_w\<close> is the local \<^verbatim>\<open>i_write\<close>.
  The result is the logger with the buffer locked for writing, and that buffer's index.
\<close>

function Log_lock :: "'e TlsLogger \<Rightarrow> size_t \<Rightarrow> nat \<Rightarrow> failure + ('e TlsLogger \<times> size_t)" where
  "Log_lock t i_w cas_fail_count =
     (if fst (compare_exchange_strong (entry_states t ! unat i_w) Unlocked WriteLock)
      then Inr (t\<lparr> entry_states := (entry_states t)
                       [unat i_w := snd (compare_exchange_strong
                                           (entry_states t ! unat i_w) Unlocked WriteLock)] \<rparr>,
                i_w)
      else if 3 \<le> cas_fail_count + 1 then Inl (AssertFailed ''CAS failed.'' 453)
      else Log_lock (t\<lparr> log_cas_fail_count := log_cas_fail_count t + 1 \<rparr>)
             (i_w XOR 1) (cas_fail_count + 1))"
  by pat_completeness auto
termination
  by (relation "measure (\<lambda>(t, i_w, cas_fail_count). 3 - cas_fail_count)") auto

declare Log_lock.simps [simp del]

text \<open>
  \<^verbatim>\<open>TlsLogger::Log\<close> (lines 438-475), on the TlsLogger at the address \<open>this\<close>.
  \<open>None\<close> when \<open>RequestSwapBuffers\<close> does not return.
\<close>

definition TlsLogger_Log ::
  "'a Logger \<Rightarrow> uintptr_t \<Rightarrow> 'a AsyncLogEntry \<Rightarrow> (failure + 'a Logger) option" where
  "TlsLogger_Log lg this entry =
     (case tls lg this of
        None \<Rightarrow> Some (Inl (DanglingPointer this))
      | Some t \<Rightarrow>
          (case Log_lock t (i_write t) 0 of
             Inl f \<Rightarrow> Some (Inl f)
           | Inr (t1, i_w) \<Rightarrow>
               (let t2 = t1\<lparr> entries := (entries t1)[unat i_w := entries t1 ! unat i_w @ [entry]] \<rparr>
                in case compare_exchange_strong (entry_states t2 ! unat i_w) WriteLock Unlocked of
                     (False, _) \<Rightarrow> Some (Inl (AssertFailed ''CAS failed.'' 466))
                   | (True, v) \<Rightarrow>
                       (let t3 = t2\<lparr> entry_states := (entry_states t2)[unat i_w := v] \<rparr>;
                            lg3 = lg\<lparr> tls := (tls lg)(this \<mapsto> t3) \<rparr>
                        in if i_write_prev t3 \<noteq> i_w
                           then (case RequestSwapBuffers lg3 this of
                                   None \<Rightarrow> None
                                 | Some (Inl f) \<Rightarrow> Some (Inl f)
                                 | Some (Inr lg4) \<Rightarrow>
                                     (case tls lg4 this of
                                        None \<Rightarrow> Some (Inl (DanglingPointer this))
                                      | Some t4 \<Rightarrow>
                                          Some (Inr (lg4\<lparr> tls := (tls lg4)
                                                      (this \<mapsto> t4\<lparr> i_write_prev := i_w \<rparr>) \<rparr>))))
                           else Some (Inr lg3)))))"

text \<open>
  The thread-local \<^verbatim>\<open>TlsLoggerWrapper\<close> and the free function \<^verbatim>\<open>Log\<close> (lines 526-541).
  A thread is the address of its TlsLogger and its two identity strings; the wrapper has
  been constructed when there is an object at that address.
\<close>

record thread =
  tls_logger_of :: uintptr_t
  pid_tid_of :: string
  tid_of :: string

definition TlsLoggerWrapper_new :: "'a Logger \<Rightarrow> thread \<Rightarrow> 'a Logger" where
  "TlsLoggerWrapper_new lg thr =
     RegisterTlsLogger
       (lg\<lparr> tls := (tls lg)(tls_logger_of thr \<mapsto> TlsLogger_new (pid_tid_of thr) (tid_of thr)) \<rparr>)
       (tls_logger_of thr)"

definition Log :: "'a Logger \<Rightarrow> thread \<Rightarrow> 'a AsyncLogEntry \<Rightarrow> (failure + 'a Logger) option" where
  "Log lg thr entry =
     TlsLogger_Log
       (if tls lg (tls_logger_of thr) = None then TlsLoggerWrapper_new lg thr else lg)
       (tls_logger_of thr) entry"

text \<open>
  \<^verbatim>\<open>Logger::UnRegisterTlsLogger\<close> (lines 165-187), block by block: the orphan is named
  by the address of its TlsLogger; each of the first two blocks holds its mutex.
\<close>

definition UnRegister_adopt :: "'a Logger \<Rightarrow> uintptr_t \<Rightarrow> 'a Logger" where
  "UnRegister_adopt lg tls_logger =
     lg\<lparr> tls_logger_orphans := tls_logger # tls_logger_orphans lg \<rparr>"

definition UnRegister_erase :: "'a Logger \<Rightarrow> uintptr_t \<Rightarrow> 'a Logger" where
  "UnRegister_erase lg orphan =
     lg\<lparr> tls_loggers_registerd := tls_loggers_registerd lg |-| {|orphan|} \<rparr>"

definition UnRegisterTlsLogger ::
  "'a Logger \<Rightarrow> uintptr_t \<Rightarrow> (failure + 'a Logger) option" where
  "UnRegisterTlsLogger lg tls_logger =
     TlsLogger_Log (UnRegister_erase (UnRegister_adopt lg tls_logger) tls_logger)
       tls_logger (OrphanEntry tls_logger)"

text \<open>
  Running an entry on the I/O thread, \<^verbatim>\<open>entry(async_logger_)\<close>: the bodies of the
  closures of lines 183-186, 222-250, 253 and 266.
\<close>

fun CollectAll :: "uintptr_t list \<Rightarrow> 'a Logger \<Rightarrow> failure + 'a Logger" where
  "CollectAll [] lg = Inr lg"
| "CollectAll (p # ps) lg =
     (case CollectTlsLoggerStats lg p of Inl f \<Rightarrow> Inl f | Inr lg1 \<Rightarrow> CollectAll ps lg1)"

definition log_contention_counters :: "'a Logger \<Rightarrow> 'a Logger" where
  "log_contention_counters lg =
     lg\<lparr> async_logger := async_logger lg @
          [ LogDetail 0 ''Log Contention Counters:'',
            LogDetail (swap_request_slots_retry_count lg) '' : swap_request_slots_retry_count'',
            LogDetail (swap_request_slots_retry_retry_count lg)
              '' : swap_request_slots_retry_retry_count'',
            LogDetail (swap_request_slots_retry_reencounter_count lg)
              '' : swap_request_slots_retry_reencounter_count'',
            LogDetail (start_reading_entries_retry_count lg)
              '' : start_reading_entries_retry_count'',
            LogDetail (tls_total_log_cas_fail_count lg) '' : tls_total_log_cas_fail_count'',
            LogDetail (tls_total_swap_buffers_slot_retry_count lg)
              '' : tls_total_swap_buffers_slot_retry_count'' ] \<rparr>"

fun run_entry :: "'a AsyncLogEntry \<Rightarrow> 'a Logger \<Rightarrow> failure + 'a Logger" where
  "run_entry (UserEntry x) lg = Inr (lg\<lparr> async_logger := async_logger lg @ [Invoked x] \<rparr>)"
| "run_entry (OrphanEntry orphan) lg =
     (case CollectTlsLoggerStats lg orphan of
        Inl f \<Rightarrow> Inl f
      | Inr lg1 \<Rightarrow> Inr (lg1\<lparr> orphans_to_destroy := orphans_to_destroy lg1 @ [orphan] \<rparr>))"
| "run_entry ContentionEntry lg =
     (case CollectAll (sorted_list_of_fset (tls_loggers_registerd lg)) lg of
        Inl f \<Rightarrow> Inl f
      | Inr lg1 \<Rightarrow>
          (case CollectAll (tls_logger_orphans lg1) lg1 of
             Inl f \<Rightarrow> Inl f
           | Inr lg2 \<Rightarrow> Inr (log_contention_counters lg2)))"
| "run_entry (FlushedEntry k) lg = Inr (lg\<lparr> promises := insert k (promises lg) \<rparr>)"

fun run_entries :: "'a AsyncLogEntry list \<Rightarrow> 'a Logger \<Rightarrow> failure + 'a Logger" where
  "run_entries [] lg = Inr lg"
| "run_entries (e # es) lg =
     (case run_entry e lg of Inl f \<Rightarrow> Inl f | Inr lg1 \<Rightarrow> run_entries es lg1)"

text \<open>
  \<^verbatim>\<open>Logger::GetTlsLoggerThatRequestedSwap\<close> (lines 280-294): the pointer returned is a
  word, 0 for \<^verbatim>\<open>nullptr\<close>.
\<close>

definition GetTlsLoggerThatRequestedSwap ::
  "'a Logger \<Rightarrow> size_t \<Rightarrow> size_t \<Rightarrow> failure + ('a Logger \<times> uintptr_t)" where
  "GetTlsLoggerThatRequestedSwap lg slot' next_id' =
     (let slot_value = thread_swap_request_slots lg ! unat slot'
      in if SwapRequestSlotIsReadable slot_value
         then (case compare_exchange_strong (thread_swap_request_slots lg ! unat slot')
                      slot_value (SwapRequestSlotIsWritableValue next_id') of
                 (False, _) \<Rightarrow> Inl (AssertFailed ''CAS failed.'' 288)
               | (True, v) \<Rightarrow>
                   Inr (lg\<lparr> thread_swap_request_slots :=
                              (thread_swap_request_slots lg)[unat slot' := v] \<rparr>,
                        slot_value))
         else Inr (lg, 0))"

text \<open>
  \<^verbatim>\<open>Logger::GatherRetrySwapRequests\<close> (lines 296-313). The vector the source fills
  through a pointer, \<^verbatim>\<open>threads_to_swap\<close>, is passed and returned.
\<close>

fun GatherRetry_loop ::
  "SlotRetry list \<Rightarrow> 'a Logger \<Rightarrow> uintptr_t list \<Rightarrow> failure + ('a Logger \<times> uintptr_t list)" where
  "GatherRetry_loop [] lg threads_to_swap = Inr (lg, threads_to_swap)"
| "GatherRetry_loop (slot_retry # retry_slots) lg threads_to_swap =
     (case GetTlsLoggerThatRequestedSwap lg (slot slot_retry) (next_id slot_retry) of
        Inl f \<Rightarrow> Inl f
      | Inr (lg1, tls_logger) \<Rightarrow>
          if tls_logger \<noteq> 0
          then GatherRetry_loop retry_slots lg1 (threads_to_swap @ [tls_logger])
          else GatherRetry_loop retry_slots
                 (lg1\<lparr> swap_request_slots_to_retry := swap_request_slots_to_retry lg1 @ [slot_retry],
                       swap_request_slots_retry_retry_count :=
                         swap_request_slots_retry_retry_count lg1 + 1 \<rparr>)
                 threads_to_swap)"

definition GatherRetrySwapRequests ::
  "'a Logger \<Rightarrow> uintptr_t list \<Rightarrow> failure + ('a Logger \<times> uintptr_t list)" where
  "GatherRetrySwapRequests lg threads_to_swap =
     (if swap_request_slots_to_retry lg = [] then Inr (lg, threads_to_swap)
      else GatherRetry_loop (swap_request_slots_to_retry lg)
             (lg\<lparr> swap_request_slots_to_retry := [] \<rparr>) threads_to_swap)"

text \<open>
  \<^verbatim>\<open>Logger::GatherNewSwapRequests\<close> (lines 315-341). \<open>retry_later\<close> is the \<^verbatim>\<open>else\<close>
  branch of lines 323-339, with \<open>set_next_id\<close> for \<^verbatim>\<open>find_if\<close> and the assignment
  through the iterator it returns; \<open>GatherNew_body\<close> is the body of the loop, up to and
  including the increment of \<^verbatim>\<open>swap_request_id_read_\<close>.
\<close>

fun set_next_id :: "size_t \<Rightarrow> size_t \<Rightarrow> SlotRetry list \<Rightarrow> SlotRetry list" where
  "set_next_id slot' next_id' [] = []"
| "set_next_id slot' next_id' (s # ss) =
     (if slot s = slot' then s\<lparr> next_id := next_id' \<rparr> # ss
      else s # set_next_id slot' next_id' ss)"

definition retry_later :: "'a Logger \<Rightarrow> size_t \<Rightarrow> size_t \<Rightarrow> 'a Logger" where
  "retry_later lg slot' next_id' =
     (let lg1 = lg\<lparr> swap_request_slots_retry_count := swap_request_slots_retry_count lg + 1 \<rparr>
      in if find (\<lambda>s. slot s = slot') (swap_request_slots_to_retry lg1) = None
         then lg1\<lparr> swap_request_slots_to_retry :=
                     swap_request_slots_to_retry lg1 @ [\<lparr> slot = slot', next_id = next_id' \<rparr>] \<rparr>
         else lg1\<lparr> swap_request_slots_to_retry :=
                     set_next_id slot' next_id' (swap_request_slots_to_retry lg1),
                   swap_request_slots_retry_reencounter_count :=
                     swap_request_slots_retry_reencounter_count lg1 + 1 \<rparr>)"

definition GatherNew_body ::
  "'a Logger \<Rightarrow> uintptr_t list \<Rightarrow> failure + ('a Logger \<times> uintptr_t list)" where
  "GatherNew_body lg threads_to_swap =
     (if thread_swap_request_slots lg = [] then Inl NoSlots
      else
        let slot' = swap_request_id_read lg mod slot_count lg;
            next_id' = swap_request_id_read lg + slot_count lg
        in case GetTlsLoggerThatRequestedSwap lg slot' next_id' of
             Inl f \<Rightarrow> Inl f
           | Inr (lg1, tls_logger) \<Rightarrow>
               (let (lg2, threads_to_swap2) =
                      (if tls_logger \<noteq> 0 then (lg1, threads_to_swap @ [tls_logger])
                       else (retry_later lg1 slot' next_id', threads_to_swap))
                in Inr (lg2\<lparr> swap_request_id_read := swap_request_id_read lg2 + 1 \<rparr>,
                        threads_to_swap2)))"

text \<open>
  The loop of lines 317-340. It ends because each pass of the body adds one to
  \<open>swap_request_id_read\<close>, which is below \<open>swap_request_end\<close> when the body runs.
\<close>

lemma GetTlsLoggerThatRequestedSwap_id_read:
  assumes "GetTlsLoggerThatRequestedSwap lg s n = Inr (lg1, p)"
  shows "swap_request_id_read lg1 = swap_request_id_read lg"
  using assms
  by (auto simp: GetTlsLoggerThatRequestedSwap_def Let_def compare_exchange_strong_def
      split: if_splits)

lemma retry_later_id_read:
  "swap_request_id_read (retry_later lg s n) = swap_request_id_read lg"
  by (simp add: retry_later_def Let_def)

lemma GatherNew_body_id_read:
  assumes "GatherNew_body lg threads_to_swap = Inr (lg1, threads_to_swap1)"
  shows "swap_request_id_read lg1 = swap_request_id_read lg + 1"
  using assms
  by (auto simp: GatherNew_body_def Let_def retry_later_id_read
      dest: GetTlsLoggerThatRequestedSwap_id_read split: if_splits sum.splits prod.splits)

lemma unat_succ_below:
  fixes i e :: size_t
  assumes "i < e"
  shows "unat (i + 1) = Suc (unat i)"
proof -
  from assms have "unat i < unat e"
    by (simp add: word_less_nat_alt)
  moreover have "unat e < 2 ^ 64"
    using unsigned_less [of e] by simp
  ultimately have "unat i + unat (1::size_t) < 2 ^ LENGTH(64)"
    by simp
  then have "unat (i + 1) = unat i + unat (1::size_t)"
    by (simp only: unat_add_lem)
  then show ?thesis by simp
qed

function GatherNew_loop ::
  "size_t \<Rightarrow> 'a Logger \<Rightarrow> uintptr_t list \<Rightarrow> failure + ('a Logger \<times> uintptr_t list)" where
  "GatherNew_loop swap_request_end lg threads_to_swap =
     (if swap_request_id_read lg < swap_request_end
      then (case GatherNew_body lg threads_to_swap of
              Inl f \<Rightarrow> Inl f
            | Inr (lg1, threads_to_swap1) \<Rightarrow> GatherNew_loop swap_request_end lg1 threads_to_swap1)
      else Inr (lg, threads_to_swap))"
  by pat_completeness auto
termination
proof (relation "measure (\<lambda>(e, lg, ts). unat e - unat (swap_request_id_read lg))")
  show "wf (measure (\<lambda>(e, lg, ts). unat e - unat (swap_request_id_read lg)))"
    by simp
next
  fix swap_request_end :: size_t and lg :: "'a Logger" and threads_to_swap x2 x1 x2a
  assume below: "swap_request_id_read lg < swap_request_end"
    and body: "GatherNew_body lg threads_to_swap = Inr x2" "(x1, x2a) = x2"
  from body have "swap_request_id_read x1 = swap_request_id_read lg + 1"
    by (auto dest: GatherNew_body_id_read)
  moreover from below have "unat (swap_request_id_read lg) < unat swap_request_end"
    by (simp add: word_less_nat_alt)
  ultimately show "((swap_request_end, x1, x2a), swap_request_end, lg, threads_to_swap)
      \<in> measure (\<lambda>(e, lg, ts). unat e - unat (swap_request_id_read lg))"
    using unat_succ_below [OF below] by simp
qed

declare GatherNew_loop.simps [simp del]

definition GatherNewSwapRequests ::
  "'a Logger \<Rightarrow> uintptr_t list \<Rightarrow> failure + ('a Logger \<times> uintptr_t list)" where
  "GatherNewSwapRequests lg threads_to_swap =
     (let swap_request_end = swap_request_id lg
      in GatherNew_loop swap_request_end lg threads_to_swap)"

subsection \<open>The I/O thread\<close>

text \<open>
  One pass through the body of the loop of \<^verbatim>\<open>Logger::IOThread\<close> (lines 343-423), phase
  by phase. The wait on the condition variable and the tracers (\<^verbatim>\<open>MakeScopedTracer\<close>, of
  logging.h) have no counterpart here.

  The loop of lines 362-372 over the local vector \<^verbatim>\<open>threads_to_swap\<close>.
\<close>

fun swap_loop :: "uintptr_t list \<Rightarrow> 'a Logger \<Rightarrow> failure + 'a Logger" where
  "swap_loop [] lg = Inr lg"
| "swap_loop (thread # threads_to_swap) lg =
     (case tls lg thread of
        None \<Rightarrow> Inl (DanglingPointer thread)
      | Some t \<Rightarrow>
          if ReadBufferHasBeenConsumed t
          then (case SwapBuffers t of
                  Inl f \<Rightarrow> Inl f
                | Inr t1 \<Rightarrow>
                    swap_loop threads_to_swap
                      (lg\<lparr> tls := (tls lg)(thread \<mapsto> t1),
                           threads_to_read := threads_to_read lg @ [thread] \<rparr>))
          else swap_loop threads_to_swap
                 (lg\<lparr> threads_to_swap_deferred := threads_to_swap_deferred lg @ [thread] \<rparr>))"

definition IOThread_gather :: "'a Logger \<Rightarrow> failure + 'a Logger" where
  "IOThread_gather lg =
     (case GatherRetrySwapRequests (lg\<lparr> threads_to_swap_deferred := [] \<rparr>)
             (threads_to_swap_deferred lg) of
        Inl f \<Rightarrow> Inl f
      | Inr (lg1, threads_to_swap1) \<Rightarrow>
          (case GatherNewSwapRequests lg1 threads_to_swap1 of
             Inl f \<Rightarrow> Inl f
           | Inr (lg2, threads_to_swap2) \<Rightarrow> swap_loop threads_to_swap2 lg2))"

text \<open>
  The loop of lines 379-400: \<open>k\<close> is the position of the iterator \<^verbatim>\<open>thread\<close> in
  \<^verbatim>\<open>threads_to_read_\<close>. No entry changes that vector, which is why the loop ends.
\<close>

lemma CollectTlsLoggerStats_threads_to_read:
  "CollectTlsLoggerStats lg p = Inr lg1 \<Longrightarrow> threads_to_read lg1 = threads_to_read lg"
  by (auto simp: CollectTlsLoggerStats_def split: option.splits prod.splits)

lemma CollectAll_threads_to_read:
  "CollectAll ps lg = Inr lg1 \<Longrightarrow> threads_to_read lg1 = threads_to_read lg"
  by (induction ps arbitrary: lg)
     (auto split: sum.splits dest: CollectTlsLoggerStats_threads_to_read)

lemma run_entry_threads_to_read:
  assumes "run_entry e lg = Inr lg1"
  shows "threads_to_read lg1 = threads_to_read lg"
proof (cases e)
  case ContentionEntry
  with assms obtain la lb
    where a: "CollectAll (sorted_list_of_fset (tls_loggers_registerd lg)) lg = Inr la"
      and b: "CollectAll (tls_logger_orphans la) la = Inr lb"
      and c: "lg1 = log_contention_counters lb"
    by (auto split: sum.splits)
  from c have "threads_to_read lg1 = threads_to_read lb"
    by (simp add: log_contention_counters_def)
  with CollectAll_threads_to_read [OF a] CollectAll_threads_to_read [OF b]
  show ?thesis by simp
qed (use assms in \<open>auto split: sum.splits dest: CollectTlsLoggerStats_threads_to_read\<close>)

lemma run_entries_threads_to_read:
  "run_entries es lg = Inr lg1 \<Longrightarrow> threads_to_read lg1 = threads_to_read lg"
  by (induction es arbitrary: lg) (auto split: sum.splits dest: run_entry_threads_to_read)

function process_loop :: "nat \<Rightarrow> 'a Logger \<Rightarrow> failure + 'a Logger" where
  "process_loop k lg =
     (if k < length (threads_to_read lg)
      then (case tls lg (threads_to_read lg ! k) of
              None \<Rightarrow> Inl (DanglingPointer (threads_to_read lg ! k))
            | Some t \<Rightarrow>
                (case StartReadingEntries t of
                   None \<Rightarrow>
                     process_loop (Suc k)
                       (lg\<lparr> start_reading_entries_retry_count :=
                              start_reading_entries_retry_count lg + 1 \<rparr>)
                 | Some (t1, es) \<Rightarrow>
                     (case run_entries es
                             (lg\<lparr> tls := (tls lg)(threads_to_read lg ! k \<mapsto> t1),
                                  async_logger := async_logger lg @
                                    [SetCurrentTracePidTidString (trace_pid_tid t1)] \<rparr>) of
                        Inl f \<Rightarrow> Inl f
                      | Inr lg2 \<Rightarrow>
                          (case tls lg2 (threads_to_read lg2 ! k) of
                             None \<Rightarrow> Inl (DanglingPointer (threads_to_read lg2 ! k))
                           | Some t2 \<Rightarrow>
                               process_loop (Suc k)
                                 (lg2\<lparr> tls := (tls lg2)
                                         (threads_to_read lg2 ! k \<mapsto> FinishReadingEntries t2),
                                       threads_to_read := (threads_to_read lg2)[k := 0] \<rparr>)))))
      else Inr lg)"
  by pat_completeness auto
termination
  by (relation "measure (\<lambda>(k, lg). length (threads_to_read lg) - k)")
     (auto dest!: run_entries_threads_to_read)

declare process_loop.simps [simp del]

text \<open>
  Modelled from the spec: \<^verbatim>\<open>RemoveValue\<close> is declared in utils.h, which is not part of
  this file; from its use (line 404, and the comment above it) it removes every element
  equal to the value given.
\<close>

definition RemoveValue :: "'v list \<Rightarrow> 'v \<Rightarrow> 'v list" where
  "RemoveValue xs v = filter (\<lambda>x. x \<noteq> v) xs"

definition IOThread_process :: "'a Logger \<Rightarrow> failure + 'a Logger" where
  "IOThread_process lg =
     (case process_loop 0 lg of
        Inl f \<Rightarrow> Inl f
      | Inr lg1 \<Rightarrow> Inr (lg1\<lparr> threads_to_read := RemoveValue (threads_to_read lg1) 0 \<rparr>))"

definition IOThread_flush :: "'a Logger \<Rightarrow> 'a Logger" where
  "IOThread_flush lg = lg\<lparr> async_logger := async_logger lg @ [Flush] \<rparr>"

text \<open>
  Lines 413-421. Erasing a node of \<^verbatim>\<open>tls_logger_orphans_\<close> destroys the
  \<^verbatim>\<open>unique_ptr\<close> in it, and with it the TlsLogger.
\<close>

fun erase_orphans :: "uintptr_t list \<Rightarrow> 'a Logger \<Rightarrow> 'a Logger" where
  "erase_orphans [] lg = lg"
| "erase_orphans (orphan # orphans) lg =
     erase_orphans orphans
       (lg\<lparr> tls_logger_orphans := remove1 orphan (tls_logger_orphans lg),
            tls := (tls lg)(orphan := None) \<rparr>)"

definition IOThread_retire :: "'a Logger \<Rightarrow> 'a Logger" where
  "IOThread_retire lg =
     (if orphans_to_destroy lg \<noteq> []
      then (erase_orphans (orphans_to_destroy lg) lg)\<lparr> orphans_to_destroy := [] \<rparr>
      else lg)"

definition IOThread_iteration :: "'a Logger \<Rightarrow> failure + 'a Logger" where
  "IOThread_iteration lg =
     (case IOThread_gather lg of
        Inl f \<Rightarrow> Inl f
      | Inr lg1 \<Rightarrow>
          (case IOThread_process lg1 of
             Inl f \<Rightarrow> Inl f
           | Inr lg2 \<Rightarrow> Inr (IOThread_retire (IOThread_flush lg2))))"

section \<open>The threads, step by step\<close>

text \<open>
  The functions above run one call from start to end with nothing in between. The
  threads of the program interleave, so the same code is given once more as steps: a
  step is one access to shared memory (an atomic operation, a block under a mutex, or an
  access to an entry buffer, which the buffer's lock protects) together with the private
  computation that follows it. A thread's program counter says where in which function
  it stands, and holds the locals that are live there. Steps are taken one at a time,
  each on the memory as the steps before it have left it: what the memory orders of the
  source that are weaker than sequential consistency (\<^verbatim>\<open>relaxed\<close>,
  \<^verbatim>\<open>acquire\<close>, \<^verbatim>\<open>release\<close>) would allow beyond the interleavings of
  these steps is not part of the model.
\<close>

subsection \<open>Log-producing threads\<close>

text \<open>What a thread does when \<^verbatim>\<open>TlsLogger::Log\<close> returns: the rest of the caller.\<close>

datatype cont =
    Ret  \<comment> \<open>the caller was the free function \<^verbatim>\<open>Log\<close>, called from outside\<close>
  | Then_flush nat  \<comment> \<open>StopLogging, line 251: \<^verbatim>\<open>LogDetail\<close> has returned\<close>
  | Then_wait_logging nat  \<comment> \<open>StopLogging, line 254\<close>
  | Then_wait_tracing nat  \<comment> \<open>StopTracing, line 267\<close>
  | Then_exit  \<comment> \<open>UnRegisterTlsLogger, line 187, at the end of the thread\<close>

datatype 'a pc =
    NotStarted  \<comment> \<open>the thread has not used its \<^verbatim>\<open>thread_local\<close> wrapper yet\<close>
  | Idle  \<comment> \<open>outside the logger\<close>
  | Log_load "'a AsyncLogEntry" cont  \<comment> \<open>line 441\<close>
  | Log_cas "'a AsyncLogEntry" size_t nat cont  \<comment> \<open>line 442, with \<^verbatim>\<open>i_write\<close>, \<^verbatim>\<open>cas_fail_count\<close>\<close>
  | Log_append "'a AsyncLogEntry" size_t cont  \<comment> \<open>line 458\<close>
  | Log_unlock size_t cont  \<comment> \<open>line 463\<close>
  | Req_fetch size_t cont  \<comment> \<open>lines 140 and 145\<close>
  | Req_cas size_t size_t cont  \<comment> \<open>line 143, with \<^verbatim>\<open>i_write\<close> of Log and \<^verbatim>\<open>id\<close>\<close>
  | Unreg_erase  \<comment> \<open>line 175\<close>
  | Wait_logging nat  \<comment> \<open>line 254, \<^verbatim>\<open>get_future().wait()\<close>\<close>
  | Wait_tracing nat  \<comment> \<open>line 267\<close>
  | Exited

fun Log_return :: "cont \<Rightarrow> 'a pc" where
  "Log_return Ret = Idle"
| "Log_return (Then_flush k) = Log_load (FlushedEntry k) (Then_wait_logging k)"
| "Log_return (Then_wait_logging k) = Wait_logging k"
| "Log_return (Then_wait_tracing k) = Wait_tracing k"
| "Log_return Then_exit = Exited"

text \<open>
  One step of the thread whose TlsLogger is at \<open>this\<close>. \<open>None\<close>: the thread cannot move
  (it is outside the logger, or blocked in \<^verbatim>\<open>wait()\<close> on a promise without a value).
  \<open>now\<close> is what \<^verbatim>\<open>PerfClock::now()\<close> would return. The store to
  \<^verbatim>\<open>i_write_prev_\<close> (line 473), a field that only this thread uses, belongs to the
  step of the successful CAS of line 143.
\<close>

definition with_tls ::
  "'a Logger \<Rightarrow> uintptr_t \<Rightarrow> ('a AsyncLogEntry TlsLogger \<Rightarrow> failure + 'b) \<Rightarrow> (failure + 'b) option" where
  "with_tls lg this f =
     (case tls lg this of None \<Rightarrow> Some (Inl (DanglingPointer this)) | Some t \<Rightarrow> Some (f t))"

definition set_tls ::
  "'a Logger \<Rightarrow> uintptr_t \<Rightarrow> 'a AsyncLogEntry TlsLogger \<Rightarrow> 'a Logger" where
  "set_tls lg this t = lg\<lparr> tls := (tls lg)(this \<mapsto> t) \<rparr>"

fun thread_step ::
  "nat \<Rightarrow> 'a Logger \<Rightarrow> uintptr_t \<Rightarrow> 'a pc \<Rightarrow> (failure + 'a Logger \<times> 'a pc) option" where
  "thread_step now lg this (Log_load entry c) =
     with_tls lg this (\<lambda>t. Inr (lg, Log_cas entry (i_write t) 0 c))"
| "thread_step now lg this (Log_cas entry i_w cas_fail_count c) =
     with_tls lg this (\<lambda>t.
       if fst (compare_exchange_strong (entry_states t ! unat i_w) Unlocked WriteLock)
       then Inr (set_tls lg this
                   (t\<lparr> entry_states := (entry_states t)
                         [unat i_w := snd (compare_exchange_strong
                                             (entry_states t ! unat i_w) Unlocked WriteLock)] \<rparr>),
                 Log_append entry i_w c)
       else if 3 \<le> cas_fail_count + 1 then Inl (AssertFailed ''CAS failed.'' 453)
       else Inr (set_tls lg this (t\<lparr> log_cas_fail_count := log_cas_fail_count t + 1 \<rparr>),
                 Log_cas entry (i_w XOR 1) (cas_fail_count + 1) c))"
| "thread_step now lg this (Log_append entry i_w c) =
     with_tls lg this (\<lambda>t.
       Inr (set_tls lg this
              (t\<lparr> entries := (entries t)[unat i_w := entries t ! unat i_w @ [entry]] \<rparr>),
            Log_unlock i_w c))"
| "thread_step now lg this (Log_unlock i_w c) =
     with_tls lg this (\<lambda>t.
       case compare_exchange_strong (entry_states t ! unat i_w) WriteLock Unlocked of
         (False, _) \<Rightarrow> Inl (AssertFailed ''CAS failed.'' 466)
       | (True, v) \<Rightarrow>
           if i_write_prev t \<noteq> i_w
           then if \<not> SwapRequestSlotIsReadable this
                then Inl (AssertFailed ''SwapRequestSlotIsReadable(tls_logger_as_uint)'' 130)
                else Inr (set_tls lg this (t\<lparr> entry_states := (entry_states t)[unat i_w := v] \<rparr>),
                          Req_fetch i_w c)
           else Inr (set_tls lg this (t\<lparr> entry_states := (entry_states t)[unat i_w := v] \<rparr>),
                     Log_return c))"
| "thread_step now lg this (Req_fetch i_w c) =
     Some (Inr (lg\<lparr> swap_request_id := swap_request_id lg + 1 \<rparr>,
                Req_cas i_w (swap_request_id lg) c))"
| "thread_step now lg this (Req_cas i_w req_id c) =
     (if thread_swap_request_slots lg = [] then Some (Inl NoSlots)
      else
        case compare_exchange_strong
               (thread_swap_request_slots lg ! unat (req_id mod slot_count lg))
               (SwapRequestSlotIsWritableValue req_id) this of
          (True, v) \<Rightarrow>
            with_tls lg this (\<lambda>t.
              Inr (set_tls
                     (lg\<lparr> thread_swap_request_slots :=
                            (thread_swap_request_slots lg)[unat (req_id mod slot_count lg) := v] \<rparr>)
                     this (t\<lparr> i_write_prev := i_w \<rparr>),
                   Log_return c))
        | (False, _) \<Rightarrow>
            with_tls lg this (\<lambda>t.
              Inr (set_tls lg this (RequestSwapBuffersSlotRetried t), Req_fetch i_w c)))"
| "thread_step now lg this Unreg_erase =
     Some (Inr (UnRegister_erase lg this, Log_load (OrphanEntry this) Then_exit))"
| "thread_step now lg this (Wait_logging k) =
     (if k \<in> promises lg
      then Some (Inr (lg\<lparr> async_logger := async_logger lg @ [SetLogFiles Cerr Cerr now] \<rparr>, Idle))
      else None)"
| "thread_step now lg this (Wait_tracing k) =
     (if k \<in> promises lg
      then Some (Inr (lg\<lparr> async_logger := async_logger lg @ [StartNewTrace_call Nullptr now] \<rparr>,
                      Idle))
      else None)"
| "thread_step now lg this NotStarted = None"
| "thread_step now lg this Idle = None"
| "thread_step now lg this Exited = None"

subsection \<open>The I/O thread\<close>

datatype 'a io_pc =
    IO_not_started
  | IO_top  \<comment> \<open>line 344\<close>
  | IO_gather_retry "uintptr_t list" "SlotRetry list"
      \<comment> \<open>line 303, with \<^verbatim>\<open>threads_to_swap\<close> and what is left of \<^verbatim>\<open>retry_slots\<close>\<close>
  | IO_gather_retry_cas "uintptr_t list" SlotRetry "SlotRetry list" uintptr_t
      \<comment> \<open>line 285 for \<^verbatim>\<open>slot_retry\<close>, with the \<^verbatim>\<open>slot_value\<close> loaded\<close>
  | IO_gather_new_load "uintptr_t list"  \<comment> \<open>line 316\<close>
  | IO_gather_new "uintptr_t list" size_t  \<comment> \<open>line 317, with \<^verbatim>\<open>swap_request_end\<close>\<close>
  | IO_gather_new_cas "uintptr_t list" size_t uintptr_t  \<comment> \<open>line 285, from line 320\<close>
  | IO_swap "uintptr_t list"  \<comment> \<open>line 362, with what is left of \<^verbatim>\<open>threads_to_swap\<close>\<close>
  | IO_swap_publish uintptr_t "uintptr_t list"  \<comment> \<open>line 488, in \<^verbatim>\<open>thread->SwapBuffers()\<close>\<close>
  | IO_process nat  \<comment> \<open>line 379, with the position of \<^verbatim>\<open>thread\<close>\<close>
  | IO_run nat "'a AsyncLogEntry list"  \<comment> \<open>line 393, with the entries still to run\<close>
  | IO_flush  \<comment> \<open>line 410\<close>
  | IO_retire  \<comment> \<open>line 413\<close>
  | IO_stopped

text \<open>
  The result of \<^verbatim>\<open>GetTlsLoggerThatRequestedSwap\<close> as its two callers use it (lines
  306-311 and 321-339), and the increment of line 317.
\<close>

definition retry_got ::
  "'a Logger \<Rightarrow> uintptr_t list \<Rightarrow> SlotRetry \<Rightarrow> uintptr_t \<Rightarrow> 'a Logger \<times> uintptr_t list" where
  "retry_got lg threads_to_swap slot_retry tls_logger =
     (if tls_logger \<noteq> 0 then (lg, threads_to_swap @ [tls_logger])
      else (lg\<lparr> swap_request_slots_to_retry := swap_request_slots_to_retry lg @ [slot_retry],
                swap_request_slots_retry_retry_count :=
                  swap_request_slots_retry_retry_count lg + 1 \<rparr>,
            threads_to_swap))"

definition new_got ::
  "'a Logger \<Rightarrow> uintptr_t list \<Rightarrow> uintptr_t \<Rightarrow> 'a Logger \<times> uintptr_t list" where
  "new_got lg threads_to_swap tls_logger =
     (let slot' = swap_request_id_read lg mod slot_count lg;
          next_id' = swap_request_id_read lg + slot_count lg;
          (lg2, threads_to_swap2) =
            (if tls_logger \<noteq> 0 then (lg, threads_to_swap @ [tls_logger])
             else (retry_later lg slot' next_id', threads_to_swap))
      in (lg2\<lparr> swap_request_id_read := swap_request_id_read lg2 + 1 \<rparr>, threads_to_swap2))"

fun io_step ::
  "'a Logger \<Rightarrow> 'a io_pc \<Rightarrow>
     (failure + 'a Logger \<times> 'a io_pc \<times> (uintptr_t \<times> 'a AsyncLogEntry) list) option" where
  "io_step lg IO_top =
     (if keep_io_thread_alive lg
      then if swap_request_slots_to_retry lg = []
           then Some (Inr (lg\<lparr> threads_to_swap_deferred := [] \<rparr>,
                           IO_gather_new_load (threads_to_swap_deferred lg), []))
           else Some (Inr (lg\<lparr> threads_to_swap_deferred := [], swap_request_slots_to_retry := [] \<rparr>,
                           IO_gather_retry (threads_to_swap_deferred lg)
                             (swap_request_slots_to_retry lg), []))
      else Some (Inr (lg, IO_stopped, [])))"
| "io_step lg (IO_gather_retry threads_to_swap []) =
     Some (Inr (lg, IO_gather_new_load threads_to_swap, []))"
| "io_step lg (IO_gather_retry threads_to_swap (slot_retry # retry_slots)) =
     (let slot_value = thread_swap_request_slots lg ! unat (slot slot_retry)
      in if SwapRequestSlotIsReadable slot_value
         then Some (Inr (lg, IO_gather_retry_cas threads_to_swap slot_retry retry_slots slot_value,
                         []))
         else (case retry_got lg threads_to_swap slot_retry 0 of
                 (lg1, threads_to_swap1) \<Rightarrow>
                   Some (Inr (lg1, IO_gather_retry threads_to_swap1 retry_slots, []))))"
| "io_step lg (IO_gather_retry_cas threads_to_swap slot_retry retry_slots slot_value) =
     (case compare_exchange_strong (thread_swap_request_slots lg ! unat (slot slot_retry))
             slot_value (SwapRequestSlotIsWritableValue (next_id slot_retry)) of
        (False, _) \<Rightarrow> Some (Inl (AssertFailed ''CAS failed.'' 288))
      | (True, v) \<Rightarrow>
          (case retry_got
                  (lg\<lparr> thread_swap_request_slots :=
                         (thread_swap_request_slots lg)[unat (slot slot_retry) := v] \<rparr>)
                  threads_to_swap slot_retry slot_value of
             (lg1, threads_to_swap1) \<Rightarrow>
               Some (Inr (lg1, IO_gather_retry threads_to_swap1 retry_slots, []))))"
| "io_step lg (IO_gather_new_load threads_to_swap) =
     Some (Inr (lg, IO_gather_new threads_to_swap (swap_request_id lg), []))"
| "io_step lg (IO_gather_new threads_to_swap swap_request_end) =
     (if swap_request_id_read lg < swap_request_end
      then if thread_swap_request_slots lg = [] then Some (Inl NoSlots)
           else
             let slot_value = thread_swap_request_slots lg
                                ! unat (swap_request_id_read lg mod slot_count lg)
             in if SwapRequestSlotIsReadable slot_value
                then Some (Inr (lg, IO_gather_new_cas threads_to_swap swap_request_end slot_value,
                                []))
                else (case new_got lg threads_to_swap 0 of
                        (lg1, threads_to_swap1) \<Rightarrow>
                          Some (Inr (lg1, IO_gather_new threads_to_swap1 swap_request_end, [])))
      else Some (Inr (lg, IO_swap threads_to_swap, [])))"
| "io_step lg (IO_gather_new_cas threads_to_swap swap_request_end slot_value) =
     (case compare_exchange_strong
             (thread_swap_request_slots lg ! unat (swap_request_id_read lg mod slot_count lg))
             slot_value
             (SwapRequestSlotIsWritableValue (swap_request_id_read lg + slot_count lg)) of
        (False, _) \<Rightarrow> Some (Inl (AssertFailed ''CAS failed.'' 288))
      | (True, v) \<Rightarrow>
          (case new_got
                  (lg\<lparr> thread_swap_request_slots :=
                         (thread_swap_request_slots lg)
                           [unat (swap_request_id_read lg mod slot_count lg) := v] \<rparr>)
                  threads_to_swap slot_value of
             (lg1, threads_to_swap1) \<Rightarrow>
               Some (Inr (lg1, IO_gather_new threads_to_swap1 swap_request_end, []))))"
| "io_step lg (IO_swap []) = Some (Inr (lg, IO_process 0, []))"
| "io_step lg (IO_swap (thread # threads_to_swap)) =
     with_tls lg thread (\<lambda>t.
       if ReadBufferHasBeenConsumed t
       then (case compare_exchange_strong (entry_states t ! unat (i_read t)) ReadLock Unlocked of
               (False, _) \<Rightarrow> Inl (AssertFailed ''CAS failed.'' 484)
             | (True, v) \<Rightarrow>
                 Inr (set_tls lg thread
                        (t\<lparr> entry_states := (entry_states t)[unat (i_read t) := v] \<rparr>),
                      IO_swap_publish thread threads_to_swap, []))
       else Inr (lg\<lparr> threads_to_swap_deferred := threads_to_swap_deferred lg @ [thread] \<rparr>,
                 IO_swap threads_to_swap, []))"
| "io_step lg (IO_swap_publish thread threads_to_swap) =
     with_tls lg thread (\<lambda>t.
       Inr ((set_tls lg thread
               (t\<lparr> i_write := i_read t, i_read := i_read t XOR 1,
                    unread_swaps := unread_swaps t + 1 \<rparr>))
              \<lparr> threads_to_read := threads_to_read lg @ [thread] \<rparr>,
            IO_swap threads_to_swap, []))"
| "io_step lg (IO_process k) =
     (if k < length (threads_to_read lg)
      then with_tls lg (threads_to_read lg ! k) (\<lambda>t.
             case StartReadingEntries t of
               None \<Rightarrow>
                 Inr (lg\<lparr> start_reading_entries_retry_count :=
                            start_reading_entries_retry_count lg + 1 \<rparr>,
                      IO_process (Suc k), [])
             | Some (t1, es) \<Rightarrow>
                 Inr ((set_tls lg (threads_to_read lg ! k) t1)
                        \<lparr> async_logger := async_logger lg @
                             [SetCurrentTracePidTidString (trace_pid_tid t1)] \<rparr>,
                      IO_run k es, []))
      else Some (Inr (lg\<lparr> threads_to_read := RemoveValue (threads_to_read lg) 0 \<rparr>, IO_flush, [])))"
| "io_step lg (IO_run k (entry # es)) =
     (case run_entry entry lg of
        Inl f \<Rightarrow> Some (Inl f)
      | Inr lg1 \<Rightarrow> Some (Inr (lg1, IO_run k es, [(threads_to_read lg ! k, entry)])))"
| "io_step lg (IO_run k []) =
     with_tls lg (threads_to_read lg ! k) (\<lambda>t.
       Inr ((set_tls lg (threads_to_read lg ! k) (FinishReadingEntries t))
              \<lparr> threads_to_read := (threads_to_read lg)[k := 0] \<rparr>,
            IO_process (Suc k), []))"
| "io_step lg IO_flush = Some (Inr (IOThread_flush lg, IO_retire, []))"
| "io_step lg IO_retire = Some (Inr (IOThread_retire lg, IO_top, []))"
| "io_step lg IO_not_started = None"
| "io_step lg IO_stopped = None"

subsection \<open>The whole program\<close>

text \<open>
  The logger with the memory around it, where each producing thread stands (threads are
  named by the address of their TlsLogger), where the I/O thread stands, and two
  histories that the program does not keep: for each thread the entries it has handed
  to \<^verbatim>\<open>Log\<close>, in the order of the calls, and the entries the I/O thread has run, each
  with the TlsLogger it was read from. \<open>next_promise\<close> names the next
  \<^verbatim>\<open>std::promise\<close> to be constructed.
\<close>

record 'a system =
  logger :: "'a Logger"
  threads :: "uintptr_t \<Rightarrow> 'a pc"
  io :: "'a io_pc"
  submitted :: "uintptr_t \<Rightarrow> 'a AsyncLogEntry list"
  executed :: "(uintptr_t \<times> 'a AsyncLogEntry) list"
  next_promise :: nat

definition init :: "size_t \<Rightarrow> 'a system" where
  "init m =
     \<lparr> logger = Logger_new m, threads = (\<lambda>_. NotStarted), io = IO_not_started,
       submitted = (\<lambda>_. []), executed = [], next_promise = 0 \<rparr>"

text \<open>A thread that enters \<^verbatim>\<open>TlsLogger::Log\<close> with an entry has submitted it.\<close>

fun entering :: "'a pc \<Rightarrow> 'a AsyncLogEntry list" where
  "entering (Log_load entry c) = [entry]"
| "entering _ = []"

definition goto :: "'a system \<Rightarrow> uintptr_t \<Rightarrow> 'a Logger \<Rightarrow> 'a pc \<Rightarrow> 'a system" where
  "goto s this lg pc' =
     s\<lparr> logger := lg, threads := (threads s)(this := pc'),
        submitted := (submitted s)(this := submitted s this @ entering pc') \<rparr>"

text \<open>
  The steps of the program. A thread inside the logger takes its next step, and so does
  the I/O thread; a thread outside the logger makes its next call, or ends.
  \<^item> \<open>first_use\<close>: the thread's first use of its \<^verbatim>\<open>thread_local TlsLoggerWrapper\<close>
    (line 538) constructs and registers its TlsLogger, at an address that is not null
    and is aligned.
  \<^item> \<open>call_Log\<close>: the free function \<^verbatim>\<open>Log\<close> with a closure of the caller's.
  \<^item> \<open>call_StopLogging\<close> (not from the I/O thread), \<open>call_StopTracing\<close>,
    \<open>call_StartNewTrace\<close>, \<open>call_StartLogging\<close>.
  \<^item> \<open>thread_exit\<close>: the wrapper's destructor runs \<^verbatim>\<open>UnRegisterTlsLogger\<close>.
  \<^item> \<open>StartIOThread\<close>, \<open>StopIOThread\<close> (up to its \<^verbatim>\<open>join\<close>).

  The tracers (\<^verbatim>\<open>MakeScopedTracer\<close>, and \<^verbatim>\<open>TraceCounters\<close> in line 531; of
  logging.h) have no counterpart here, as in the functions above.
\<close>

inductive step :: "'a system \<Rightarrow> 'a system \<Rightarrow> bool" where
  thread:
    "thread_step now (logger s) this (threads s this) = Some (Inr (lg', pc'))
     \<Longrightarrow> step s (goto s this lg' pc')"
| io_thread:
    "io_step (logger s) (io s) = Some (Inr (lg', io', evs))
     \<Longrightarrow> step s (s\<lparr> logger := lg', io := io', executed := executed s @ evs \<rparr>)"
| first_use:
    "threads s this = NotStarted \<Longrightarrow> this \<noteq> 0 \<Longrightarrow> SwapRequestSlotIsReadable this
     \<Longrightarrow> tls_logger_of thr = this
     \<Longrightarrow> step s (goto s this (TlsLoggerWrapper_new (logger s) thr) Idle)"
| call_Log:
    "threads s this = Idle
     \<Longrightarrow> step s (goto s this (logger s) (Log_load (UserEntry x) Ret))"
| call_StopLogging:
    "threads s this = Idle
     \<Longrightarrow> step s ((goto s this (logger s) (Log_load ContentionEntry (Then_flush (next_promise s))))
                  \<lparr> next_promise := Suc (next_promise s) \<rparr>)"
| call_StopTracing:
    "threads s this = Idle
     \<Longrightarrow> step s ((goto s this (logger s)
                    (Log_load (FlushedEntry (next_promise s)) (Then_wait_tracing (next_promise s))))
                  \<lparr> next_promise := Suc (next_promise s) \<rparr>)"
| call_StartNewTrace:
    "threads s this = Idle \<or> threads s this = NotStarted
     \<Longrightarrow> step s (s\<lparr> logger := StartNewTrace (logger s) out origin \<rparr>)"
| call_StartLogging:
    "threads s this = Idle \<or> threads s this = NotStarted
     \<Longrightarrow> step s (s\<lparr> logger := StartLogging (logger s) summary detail now \<rparr>)"
| thread_exit:
    "threads s this = Idle
     \<Longrightarrow> step s (goto s this (UnRegister_adopt (logger s) this) Unreg_erase)"
| StartIOThread:
    "io s = IO_not_started
     \<Longrightarrow> step s (s\<lparr> logger := (logger s)\<lparr> keep_io_thread_alive := True \<rparr>, io := IO_top \<rparr>)"
| StopIOThread:
    "step s (s\<lparr> logger := (logger s)\<lparr> keep_io_thread_alive := False \<rparr> \<rparr>)"

inductive reachable :: "size_t \<Rightarrow> 'a system \<Rightarrow> bool" for m where
  init: "reachable m (init m)"
| step: "reachable m s \<Longrightarrow> step s s' \<Longrightarrow> reachable m s'"

subsection \<open>Vocabulary of the properties\<close>

text \<open>
  A swap request for \<open>tls_logger\<close> has been announced on the ring between \<open>lg\<close> and
  \<open>lg'\<close>: one slot, which did not hold the pointer before, holds it now, and the other
  slots are as they were.
\<close>

definition swap_requested :: "'a Logger \<Rightarrow> 'a Logger \<Rightarrow> uintptr_t \<Rightarrow> bool" where
  "swap_requested lg lg' tls_logger \<longleftrightarrow>
     (\<exists>k<length (thread_swap_request_slots lg).
        thread_swap_request_slots lg ! k \<noteq> tls_logger
        \<and> thread_swap_request_slots lg' = (thread_swap_request_slots lg)[k := tls_logger])"

text \<open>
  What the phases of the I/O thread before the last one leave alone: the orphanage, and
  which TlsLogger objects exist. And what \<open>TlsLogger::Log\<close> leaves alone: the registry,
  the orphanage and the list of orphans to destroy.
\<close>

definition keeps_orphans :: "'a Logger \<Rightarrow> 'a Logger \<Rightarrow> bool" where
  "keeps_orphans lg lg' \<longleftrightarrow>
     tls_logger_orphans lg' = tls_logger_orphans lg
     \<and> (\<forall>p. tls lg' p = None \<longleftrightarrow> tls lg p = None)"

definition same_registry :: "'a Logger \<Rightarrow> 'a Logger \<Rightarrow> bool" where
  "same_registry lg lg' \<longleftrightarrow>
     tls_logger_orphans lg' = tls_logger_orphans lg
     \<and> tls_loggers_registerd lg' = tls_loggers_registerd lg
     \<and> orphans_to_destroy lg' = orphans_to_destroy lg"

text \<open>
  A small configuration for concrete runs: \<open>max_threads_to_log = 1\<close>, hence two slots,
  and one thread whose TlsLogger lives at address 8.
\<close>

definition ex_tls :: "nat AsyncLogEntry TlsLogger" where
  "ex_tls = TlsLogger_new ''pid 1 tid 1'' ''1''"

definition ex_logger :: "nat Logger" where
  "ex_logger = (Logger_new 1)\<lparr> tls := [8 \<mapsto> ex_tls] \<rparr>"


section \<open>Vocabulary of the running program\<close>

text \<open>
  The properties of the program as a whole (several threads and the I/O thread, taking
  steps in any order) are stated with the definitions of this section: a view of one
  TlsLogger by the roles of its two buffers, the invariant that this view satisfies at
  every step, and the invariants of the whole program that are built on it.
\<close>

subsection \<open>One TlsLogger between its thread and the I/O thread\<close>

text \<open>
  Where a thread stands inside \<^verbatim>\<open>TlsLogger::Log\<close>, relative to its TlsLogger: outside
  of it; with an entry, about to load \<open>i_write\<close>; about to try the CAS of line 442
  (on what is now the write buffer or on the other one; after a failed CAS or not);
  about to append; about to unlock; about to request the swap.
\<close>

datatype 'a apc =
    AOut
  | ALoad "'a AsyncLogEntry"
  | ACas "'a AsyncLogEntry" bool bool
  | AApp "'a AsyncLogEntry" bool
  | AUnl bool
  | AReq bool

text \<open>
  The entry the thread has submitted and not yet appended to a buffer; the buffer
  (\<open>True\<close> for the write buffer) that the thread holds in \<open>WriteLock\<close>; whether the
  thread has appended in this call; the same place after the I/O thread has exchanged
  the roles of the two buffers; and the places at which no buffer has been chosen.
\<close>

fun in_flight :: "'a apc \<Rightarrow> 'a AsyncLogEntry list" where
  "in_flight (ALoad entry) = [entry]"
| "in_flight (ACas entry b r) = [entry]"
| "in_flight (AApp entry b) = [entry]"
| "in_flight _ = []"

fun writing :: "'a apc \<Rightarrow> bool \<Rightarrow> bool" where
  "writing (AApp entry b) b' \<longleftrightarrow> b = b'"
| "writing (AUnl b) b' \<longleftrightarrow> b = b'"
| "writing _ b' \<longleftrightarrow> False"

fun appended :: "'a apc \<Rightarrow> bool" where
  "appended (AUnl b) \<longleftrightarrow> b"
| "appended (AReq b) \<longleftrightarrow> b"
| "appended _ \<longleftrightarrow> False"

fun flip_pc :: "'a apc \<Rightarrow> 'a apc" where
  "flip_pc (ACas entry b r) = ACas entry (\<not> b) r"
| "flip_pc (AApp entry b) = AApp entry (\<not> b)"
| "flip_pc (AUnl b) = AUnl (\<not> b)"
| "flip_pc (AReq b) = AReq (\<not> b)"
| "flip_pc pc = pc"

fun entered :: "'a apc \<Rightarrow> bool" where
  "entered AOut = True"
| "entered (ALoad entry) = True"
| "entered _ = False"

text \<open>
  What the I/O thread is doing to a TlsLogger: nothing; \<^verbatim>\<open>SwapBuffers\<close> between the
  release of the read buffer (line 482) and the stores of lines 488-490; or running the
  entries of its read buffer (lines 386-394), of which those in \<open>Reading\<close> are still
  to run.
\<close>

datatype 'a io_rel = Neutral | Midswap | Reading "'a AsyncLogEntry list"

fun reading :: "'a io_rel \<Rightarrow> bool" where
  "reading (Reading es) = True"
| "reading _ = False"

fun unread_part :: "'a io_rel \<Rightarrow> 'a AsyncLogEntry list \<Rightarrow> 'a AsyncLogEntry list" where
  "unread_part (Reading es) buf = es"
| "unread_part _ buf = buf"

text \<open>
  A TlsLogger by roles: the states and the contents of its read buffer and of its write
  buffer, whether the last completed append went to what is now the read buffer, and
  \<open>unread_swaps\<close>.
\<close>

record 'a aq =
  read_state :: EntryState
  write_state :: EntryState
  read_buf :: "'a AsyncLogEntry list"
  write_buf :: "'a AsyncLogEntry list"
  last_in_read :: bool
  unread_n :: size_t

text \<open>
  The buffer a thread inside \<^verbatim>\<open>Log\<close> may be aiming at. It aims at the read buffer
  only if the I/O thread swapped after the thread loaded \<open>i_write\<close>, and then the
  thread's last append was to that buffer.
\<close>

fun position_ok :: "'a aq \<Rightarrow> 'a io_rel \<Rightarrow> 'a apc \<Rightarrow> bool" where
  "position_ok q rel (ACas entry b r) \<longleftrightarrow>
     (r \<longrightarrow> b \<and> last_in_read q \<and> rel \<noteq> Midswap)
     \<and> (\<not> r \<longrightarrow> b \<or> (last_in_read q \<and> rel \<noteq> Midswap))"
| "position_ok q rel (AApp entry b) \<longleftrightarrow> b \<or> (last_in_read q \<and> rel \<noteq> Midswap)"
| "position_ok q rel (AUnl b) \<longleftrightarrow> b \<or> (last_in_read q \<and> rel \<noteq> Midswap)"
| "position_ok q rel (AReq b) \<longleftrightarrow> b \<and> last_in_read q \<and> rel \<noteq> Midswap"
| "position_ok q rel _ \<longleftrightarrow> True"

text \<open>
  The invariant of one TlsLogger \<open>q\<close> with its thread at \<open>pc\<close>, the I/O thread doing
  \<open>rel\<close> to it, \<open>pd\<close> swap requests for it under way, \<open>nt\<close> occurrences of it in
  \<open>threads_to_read\<close>, the entries \<open>dlv\<close> run from it and the entries \<open>sub\<close>
  submitted to it:
  \<^item> \<open>unread_swaps\<close> is 0 or 1, and is the number of its occurrences in
    \<open>threads_to_read\<close>; it is 0 in the middle of a swap and 1 while its entries run;
  \<^item> a buffer is in \<open>WriteLock\<close> exactly when the thread holds it; the write buffer
    is never in \<open>ReadLock\<close>; the read buffer is in \<open>ReadLock\<close> exactly when it
    has been consumed and no swap is in its middle, or its entries are being run;
  \<^item> a swap request is under way exactly when the last append went to the write
    buffer;
  \<^item> a consumed read buffer is empty, and so is a write buffer to which nothing has
    been appended since the swap;
  \<^item> what has been run, then the unread rest of the read buffer, then the write
    buffer, then the entry in the thread's hand, is what has been submitted.
\<close>

definition ainv ::
  "'a aq \<Rightarrow> 'a apc \<Rightarrow> 'a io_rel \<Rightarrow> nat \<Rightarrow> nat \<Rightarrow>
     'a AsyncLogEntry list \<Rightarrow> 'a AsyncLogEntry list \<Rightarrow> bool" where
  "ainv q pc rel pd nt dlv sub \<longleftrightarrow>
     (unread_n q = 0 \<or> unread_n q = 1) \<and> nt = unat (unread_n q)
     \<and> (rel = Midswap \<longrightarrow> unread_n q = 0)
     \<and> (reading rel \<longrightarrow> unread_n q = 1)
     \<and> (write_state q = WriteLock \<longleftrightarrow> writing pc True)
     \<and> (read_state q = WriteLock \<longleftrightarrow> writing pc False)
     \<and> write_state q \<noteq> ReadLock
     \<and> (read_state q = ReadLock \<longleftrightarrow> (unread_n q = 0 \<and> rel \<noteq> Midswap) \<or> reading rel)
     \<and> (rel \<noteq> Midswap \<longrightarrow> (last_in_read q \<and> pd = 0) \<or> (\<not> last_in_read q \<and> pd = 1))
     \<and> (rel = Midswap \<longrightarrow> \<not> last_in_read q \<and> pd = 0)
     \<and> position_ok q rel pc
     \<and> (unread_n q = 0 \<longrightarrow> read_buf q = [])
     \<and> (last_in_read q \<and> \<not> appended pc \<longrightarrow> write_buf q = [])
     \<and> dlv @ unread_part rel (read_buf q) @ write_buf q @ in_flight pc = sub"

text \<open>
  The view of a TlsLogger by roles, and of a program counter relative to it. A program
  counter is well formed if the index it holds is 0 or 1 and at most one CAS of the call
  has failed.
\<close>

definition abs_tlq :: "'a AsyncLogEntry TlsLogger \<Rightarrow> 'a aq" where
  "abs_tlq t =
     \<lparr> read_state = entry_states t ! unat (i_read t), write_state = entry_states t ! unat (i_write t),
       read_buf = entries t ! unat (i_read t), write_buf = entries t ! unat (i_write t),
       last_in_read = (i_write_prev t = i_read t), unread_n = unread_swaps t \<rparr>"

fun abs_pc :: "'a AsyncLogEntry TlsLogger \<Rightarrow> 'a pc \<Rightarrow> 'a apc" where
  "abs_pc t (Log_load entry c) = ALoad entry"
| "abs_pc t (Log_cas entry i_w n c) = ACas entry (i_w = i_write t) (n \<noteq> 0)"
| "abs_pc t (Log_append entry i_w c) = AApp entry (i_w = i_write t)"
| "abs_pc t (Log_unlock i_w c) = AUnl (i_w = i_write t)"
| "abs_pc t (Req_fetch i_w c) = AReq (i_w = i_write t)"
| "abs_pc t (Req_cas i_w req_id c) = AReq (i_w = i_write t)"
| "abs_pc t NotStarted = AOut"
| "abs_pc t Idle = AOut"
| "abs_pc t Unreg_erase = AOut"
| "abs_pc t (Wait_logging k) = AOut"
| "abs_pc t (Wait_tracing k) = AOut"
| "abs_pc t Exited = AOut"

fun pc_wf :: "'a pc \<Rightarrow> bool" where
  "pc_wf (Log_cas entry i_w n c) \<longleftrightarrow> i_w < 2 \<and> n \<le> 1"
| "pc_wf (Log_append entry i_w c) \<longleftrightarrow> i_w < 2"
| "pc_wf (Log_unlock i_w c) \<longleftrightarrow> i_w < 2"
| "pc_wf (Req_fetch i_w c) \<longleftrightarrow> i_w < 2"
| "pc_wf (Req_cas i_w req_id c) \<longleftrightarrow> i_w < 2"
| "pc_wf NotStarted \<longleftrightarrow> False"
| "pc_wf _ \<longleftrightarrow> True"

text \<open>
  The invariant of the TlsLogger at address \<open>a\<close>: the address is a pointer that may
  stand in a slot (not null, lowest bit 0), the indices are in range and differ, and
  the view by roles satisfies \<open>ainv\<close>.
\<close>

definition tlq_ok ::
  "uintptr_t \<Rightarrow> 'a AsyncLogEntry TlsLogger \<Rightarrow> 'a pc \<Rightarrow> 'a io_rel \<Rightarrow> nat \<Rightarrow> nat \<Rightarrow>
     'a AsyncLogEntry list \<Rightarrow> 'a AsyncLogEntry list \<Rightarrow> bool" where
  "tlq_ok a t pc rel pd nt dlv sub \<longleftrightarrow>
     a \<noteq> 0 \<and> SwapRequestSlotIsReadable a \<and> tls_wf t \<and> i_write t \<noteq> i_read t \<and> pc_wf pc
     \<and> ainv (abs_tlq t) (abs_pc t pc) rel pd nt dlv sub"

subsection \<open>The whole program\<close>

text \<open>
  The local \<^verbatim>\<open>threads_to_swap\<close> of the I/O thread's loop, and what the I/O thread is
  doing to the TlsLogger at \<open>a\<close>.
\<close>

fun io_to_swap :: "'a io_pc \<Rightarrow> uintptr_t list" where
  "io_to_swap (IO_gather_retry ts retry_slots) = ts"
| "io_to_swap (IO_gather_retry_cas ts slot_retry retry_slots v) = ts"
| "io_to_swap (IO_gather_new_load ts) = ts"
| "io_to_swap (IO_gather_new ts e) = ts"
| "io_to_swap (IO_gather_new_cas ts e v) = ts"
| "io_to_swap (IO_swap ts) = ts"
| "io_to_swap (IO_swap_publish p ts) = ts"
| "io_to_swap _ = []"

fun io_rel_of :: "uintptr_t list \<Rightarrow> 'a io_pc \<Rightarrow> uintptr_t \<Rightarrow> 'a io_rel" where
  "io_rel_of ttr (IO_swap_publish p ts) a = (if p = a then Midswap else Neutral)"
| "io_rel_of ttr (IO_run k es) a = (if ttr ! k = a then Reading es else Neutral)"
| "io_rel_of ttr _ a = Neutral"

text \<open>
  The swap requests for \<open>a\<close> that are under way: in a slot of the ring, in
  \<^verbatim>\<open>threads_to_swap\<close>, or deferred. And the entries of \<open>a\<close> among those the I/O
  thread has run.
\<close>

definition pend :: "'a Logger \<Rightarrow> 'a io_pc \<Rightarrow> uintptr_t \<Rightarrow> nat" where
  "pend lg iopc a =
     count_list (thread_swap_request_slots lg) a + (count_list (io_to_swap iopc) a
       + count_list (threads_to_swap_deferred lg) a)"

definition delivered_to :: "(uintptr_t \<times> 'e) list \<Rightarrow> uintptr_t \<Rightarrow> 'e list" where
  "delivered_to ex a = map snd (filter (\<lambda>x. fst x = a) ex)"

text \<open>
  The invariant at one address: the TlsLogger there satisfies \<open>tlq_ok\<close>; where a
  thread has not started yet, nothing refers to the address.
\<close>

definition thr_ok ::
  "'a Logger \<Rightarrow> 'a io_pc \<Rightarrow> 'a pc \<Rightarrow> 'a AsyncLogEntry list \<Rightarrow> 'a AsyncLogEntry list \<Rightarrow>
     uintptr_t \<Rightarrow> bool" where
  "thr_ok lg iopc pc dlv sub a \<longleftrightarrow>
     (case tls lg a of
        Some t \<Rightarrow>
          tlq_ok a t pc (io_rel_of (threads_to_read lg) iopc a) (pend lg iopc a)
            (count_list (threads_to_read lg) a) dlv sub
      | None \<Rightarrow>
          pc = NotStarted \<longrightarrow> a \<noteq> 0 \<longrightarrow> SwapRequestSlotIsReadable a \<longrightarrow>
            io_rel_of (threads_to_read lg) iopc a = Neutral \<and> pend lg iopc a = 0
            \<and> count_list (threads_to_read lg) a = 0 \<and> dlv = [] \<and> sub = [])"

text \<open>
  The slots named in a retry list exist. What the I/O thread's program counter holds is
  consistent with the ring: the value it has loaded is still in the slot (only the I/O
  thread overwrites a readable value), and the position it reads at holds a TlsLogger.
\<close>

definition slots_in_range :: "'a Logger \<Rightarrow> SlotRetry list \<Rightarrow> bool" where
  "slots_in_range lg retry_slots \<longleftrightarrow>
     list_all (\<lambda>x. unat (slot x) < length (thread_swap_request_slots lg)) retry_slots"

fun io_ok :: "'a Logger \<Rightarrow> 'a io_pc \<Rightarrow> bool" where
  "io_ok lg (IO_gather_retry ts retry_slots) \<longleftrightarrow> slots_in_range lg retry_slots"
| "io_ok lg (IO_gather_retry_cas ts slot_retry retry_slots v) \<longleftrightarrow>
     slots_in_range lg (slot_retry # retry_slots)
     \<and> thread_swap_request_slots lg ! unat (slot slot_retry) = v
     \<and> SwapRequestSlotIsReadable v"
| "io_ok lg (IO_gather_new_cas ts e v) \<longleftrightarrow>
     thread_swap_request_slots lg \<noteq> []
     \<and> thread_swap_request_slots lg ! unat (swap_request_id_read lg mod slot_count lg) = v
     \<and> SwapRequestSlotIsReadable v"
| "io_ok lg (IO_run k es) \<longleftrightarrow> k < length (threads_to_read lg)"
| "io_ok lg _ \<longleftrightarrow> True"

text \<open>
  The invariant of the program.
\<close>

definition sys_inv :: "'a system \<Rightarrow> bool" where
  "sys_inv s \<longleftrightarrow>
     (\<forall>a. thr_ok (logger s) (io s) (threads s a) (delivered_to (executed s) a) (submitted s a) a)
     \<and> io_ok (logger s) (io s)
     \<and> slots_in_range (logger s) (swap_request_slots_to_retry (logger s))"

text \<open>
  Two TlsLoggers, and two loggers, that differ in nothing but contention counters (and,
  for loggers, in fields that neither queue entries nor name TlsLoggers). Running an
  entry changes no more than that.
\<close>

definition same_queue :: "'e TlsLogger \<Rightarrow> 'e TlsLogger \<Rightarrow> bool" where
  "same_queue t t' \<longleftrightarrow>
     (\<exists>x y. t' = t\<lparr> log_cas_fail_count := x, swap_buffers_slot_retry_count := y \<rparr>)"

definition same_queues :: "'a Logger \<Rightarrow> 'a Logger \<Rightarrow> bool" where
  "same_queues lg lg' \<longleftrightarrow>
     thread_swap_request_slots lg' = thread_swap_request_slots lg
     \<and> threads_to_swap_deferred lg' = threads_to_swap_deferred lg
     \<and> threads_to_read lg' = threads_to_read lg
     \<and> swap_request_slots_to_retry lg' = swap_request_slots_to_retry lg
     \<and> (\<forall>a. rel_option same_queue (tls lg a) (tls lg' a))"


subsection \<open>Barriers\<close>

text \<open>
  The \<^verbatim>\<open>std::promise\<close> a thread holds (lines 252 and 265; \<^verbatim>\<open>StopLogging\<close>
  constructs it after \<^verbatim>\<open>LogDetail\<close>, its name is fixed at the call already), and
  the promise whose barrier entry the thread has submitted.
\<close>

fun cont_promise :: "cont \<Rightarrow> nat option" where
  "cont_promise (Then_flush k) = Some k"
| "cont_promise (Then_wait_logging k) = Some k"
| "cont_promise (Then_wait_tracing k) = Some k"
| "cont_promise _ = None"

fun promise_of :: "'a pc \<Rightarrow> nat option" where
  "promise_of (Log_load entry c) = cont_promise c"
| "promise_of (Log_cas entry i_w n c) = cont_promise c"
| "promise_of (Log_append entry i_w c) = cont_promise c"
| "promise_of (Log_unlock i_w c) = cont_promise c"
| "promise_of (Req_fetch i_w c) = cont_promise c"
| "promise_of (Req_cas i_w req_id c) = cont_promise c"
| "promise_of (Wait_logging k) = Some k"
| "promise_of (Wait_tracing k) = Some k"
| "promise_of _ = None"

fun cont_sent :: "cont \<Rightarrow> nat option" where
  "cont_sent (Then_wait_logging k) = Some k"
| "cont_sent (Then_wait_tracing k) = Some k"
| "cont_sent _ = None"

fun barrier_sent :: "'a pc \<Rightarrow> nat option" where
  "barrier_sent (Log_load entry c) = cont_sent c"
| "barrier_sent (Log_cas entry i_w n c) = cont_sent c"
| "barrier_sent (Log_append entry i_w c) = cont_sent c"
| "barrier_sent (Log_unlock i_w c) = cont_sent c"
| "barrier_sent (Req_fetch i_w c) = cont_sent c"
| "barrier_sent (Req_cas i_w req_id c) = cont_sent c"
| "barrier_sent (Wait_logging k) = Some k"
| "barrier_sent (Wait_tracing k) = Some k"
| "barrier_sent _ = None"

text \<open>
  The thread at \<open>p\<close> is the one that constructed the promise \<open>k\<close>.
\<close>

definition owns :: "'a system \<Rightarrow> uintptr_t \<Rightarrow> nat \<Rightarrow> bool" where
  "owns s p k \<longleftrightarrow> promise_of (threads s p) = Some k \<or> FlushedEntry k \<in> set (submitted s p)"

text \<open>
  The invariant of the barriers: a promise has a value only if the I/O thread has run
  its barrier entry; a thread that has passed line 253 or 266 has submitted its barrier
  entry; what has been run was submitted by the thread from whose TlsLogger it was read;
  the TlsLogger whose entries are being run exists; promises are named in the order of
  their construction, each by one thread.
\<close>

definition barrier_inv :: "'a system \<Rightarrow> bool" where
  "barrier_inv s \<longleftrightarrow>
     (\<forall>k. k \<in> promises (logger s) \<longrightarrow> (\<exists>p. (p, FlushedEntry k) \<in> set (executed s)))
     \<and> (\<forall>p k. barrier_sent (threads s p) = Some k \<longrightarrow> FlushedEntry k \<in> set (submitted s p))
     \<and> (\<forall>p e. (p, e) \<in> set (executed s) \<longrightarrow> e \<in> set (submitted s p))
     \<and> (\<forall>j es. io s = IO_run j es \<longrightarrow>
            tls (logger s) (threads_to_read (logger s) ! j) \<noteq> None)
     \<and> (\<forall>p k. owns s p k \<longrightarrow> k < next_promise s)
     \<and> (\<forall>p q k. owns s p k \<longrightarrow> owns s q k \<longrightarrow> p = q)"

subsection \<open>Calls that return, and the life of a TlsLogger\<close>

text \<open>
  \<^verbatim>\<open>RequestSwapBuffers\<close> started at id \<open>i\<close> has its first successful CAS at id
  \<open>i + k\<close>: the slot of that id holds the value that makes it writable for that id,
  and none of the slots of the ids before does.
\<close>

definition first_room :: "'a Logger \<Rightarrow> size_t \<Rightarrow> nat \<Rightarrow> bool" where
  "first_room lg i k \<longleftrightarrow>
     thread_swap_request_slots lg ! unat ((i + of_nat k) mod slot_count lg)
       = SwapRequestSlotIsWritableValue (i + of_nat k)
     \<and> (\<forall>j<k. thread_swap_request_slots lg ! unat ((i + of_nat j) mod slot_count lg)
                 \<noteq> SwapRequestSlotIsWritableValue (i + of_nat j))"

text \<open>
  The thread is past the second block of \<^verbatim>\<open>UnRegisterTlsLogger\<close>; the TlsLogger at
  an address exists.
\<close>

fun exiting :: "'a pc \<Rightarrow> bool" where
  "exiting (Log_load entry c) \<longleftrightarrow> c = Then_exit"
| "exiting (Log_cas entry i_w n c) \<longleftrightarrow> c = Then_exit"
| "exiting (Log_append entry i_w c) \<longleftrightarrow> c = Then_exit"
| "exiting (Log_unlock i_w c) \<longleftrightarrow> c = Then_exit"
| "exiting (Req_fetch i_w c) \<longleftrightarrow> c = Then_exit"
| "exiting (Req_cas i_w req_id c) \<longleftrightarrow> c = Then_exit"
| "exiting Exited \<longleftrightarrow> True"
| "exiting _ \<longleftrightarrow> False"

definition alive :: "'a Logger \<Rightarrow> uintptr_t \<Rightarrow> bool" where
  "alive lg a \<longleftrightarrow> tls lg a \<noteq> None"

text \<open>
  The invariant of registration: a TlsLogger in the orphanage belongs to a thread that
  is between the two blocks of \<^verbatim>\<open>UnRegisterTlsLogger\<close> or past them; only such a
  thread has submitted its \<open>OrphanEntry\<close>; and a TlsLogger that exists is registered
  and in the orphanage between the two blocks, in the orphanage only (with the
  \<open>OrphanEntry\<close> submitted) after them, and registered before them.
\<close>

definition life_inv :: "'a system \<Rightarrow> bool" where
  "life_inv s \<longleftrightarrow>
     (\<forall>a. a \<in> set (tls_logger_orphans (logger s)) \<longrightarrow>
            threads s a = Unreg_erase \<or> exiting (threads s a))
     \<and> (\<forall>a. OrphanEntry a \<in> set (submitted s a) \<longrightarrow> exiting (threads s a))
     \<and> (\<forall>a. alive (logger s) a \<longrightarrow>
            (threads s a = Unreg_erase \<longrightarrow>
               a |\<in>| tls_loggers_registerd (logger s)
               \<and> a \<in> set (tls_logger_orphans (logger s)))
          \<and> (exiting (threads s a) \<longrightarrow>
               a |\<notin>| tls_loggers_registerd (logger s)
               \<and> a \<in> set (tls_logger_orphans (logger s))
               \<and> OrphanEntry a \<in> set (submitted s a))
          \<and> (threads s a \<noteq> Unreg_erase \<and> \<not> exiting (threads s a) \<longrightarrow>
               a |\<in>| tls_loggers_registerd (logger s)))"

text \<open>
  The buffer \<^verbatim>\<open>TlsLogger::Log\<close> appends to when it is called with nothing in
  between: the write buffer if that is unlocked, else the other one. And the conditions
  under which such a call returns: the TlsLogger exists and is well formed, one of its
  buffers is unlocked, its address may stand in a slot, and the ring has room at the
  \<open>k\<close>-th id from \<open>swap_request_id\<close> on.
\<close>

definition written_index :: "'e TlsLogger \<Rightarrow> size_t" where
  "written_index t =
     (if entry_states t ! unat (i_write t) = Unlocked then i_write t else i_write t XOR 1)"

definition can_log :: "'a Logger \<Rightarrow> uintptr_t \<Rightarrow> 'a AsyncLogEntry TlsLogger \<Rightarrow> nat \<Rightarrow> bool" where
  "can_log lg this t k \<longleftrightarrow>
     tls lg this = Some t \<and> tls_wf t
     \<and> (entry_states t ! unat (i_write t) = Unlocked
         \<or> entry_states t ! unat (i_write t XOR 1) = Unlocked)
     \<and> SwapRequestSlotIsReadable this
     \<and> thread_swap_request_slots lg \<noteq> []
     \<and> first_room lg (swap_request_id lg) k"

subsection \<open>An example run\<close>

text \<open>
  A run of the program with \<open>max_threads_to_log = 1\<close> and one thread, whose TlsLogger
  is at address 8. The states of the run are written with \<open>ex_sys\<close>, \<open>ex_lg\<close>,
  \<open>ex_lo\<close> and \<open>ex_q\<close>, which set the fields that change in the run and leave the
  others as the constructors set them.
\<close>

definition ex_thread :: thread where
  "ex_thread = \<lparr> tls_logger_of = 8, pid_tid_of = ''pid 1 tid 1'', tid_of = ''1'' \<rparr>"

definition ex_q ::
  "EntryState list \<Rightarrow> nat AsyncLogEntry list list \<Rightarrow> size_t \<Rightarrow> size_t \<Rightarrow> size_t \<Rightarrow> size_t \<Rightarrow>
     size_t \<Rightarrow> nat AsyncLogEntry TlsLogger" where
  "ex_q states ents ir iw unread prev fails =
     ex_tls\<lparr> i_read := ir, entries := ents, entry_states := states, i_write := iw,
             log_cas_fail_count := fails, unread_swaps := unread, i_write_prev := prev \<rparr>"

definition ex_lg ::
  "uintptr_t list \<Rightarrow> size_t \<Rightarrow> size_t \<Rightarrow> uintptr_t list \<Rightarrow> bool \<Rightarrow> nat AsyncLog_call list \<Rightarrow>
     nat set \<Rightarrow> nat AsyncLogEntry TlsLogger \<Rightarrow> nat Logger" where
  "ex_lg slots req_id id_read to_read keep_alive calls proms t =
     (Logger_new 1)\<lparr> thread_swap_request_slots := slots, swap_request_id := req_id,
       swap_request_id_read := id_read, threads_to_read := to_read,
       tls_loggers_registerd := {|8|}, keep_io_thread_alive := keep_alive, async_logger := calls,
       tls := [8 \<mapsto> t], promises := proms \<rparr>"

definition ex_lo ::
  "nat Logger \<Rightarrow> uintptr_t fset \<Rightarrow> uintptr_t list \<Rightarrow> uintptr_t list \<Rightarrow> size_t \<Rightarrow> nat Logger" where
  "ex_lo lg registered orphans to_destroy cas_fails =
     lg\<lparr> orphans_to_destroy := to_destroy, tls_loggers_registerd := registered,
         tls_logger_orphans := orphans, tls_total_log_cas_fail_count := cas_fails \<rparr>"

definition ex_sys ::
  "nat Logger \<Rightarrow> nat pc \<Rightarrow> nat io_pc \<Rightarrow> nat AsyncLogEntry list \<Rightarrow>
     (uintptr_t \<times> nat AsyncLogEntry) list \<Rightarrow> nat \<Rightarrow> nat system" where
  "ex_sys lg pc iopc sub exd np =
     \<lparr> logger = lg, threads = (\<lambda>_. NotStarted)(8 := pc), io = iopc,
       submitted = (\<lambda>_. [])(8 := sub), executed = exd, next_promise = np \<rparr>"

text \<open>
  States of the run, in its order: the thread has registered; it has logged
  \<open>UserEntry 7\<close> and is in \<^verbatim>\<open>StopTracing\<close>, about to lock a buffer for the barrier
  entry, while the I/O thread swaps its buffers (\<open>ex_swapping\<close>, \<open>ex_unlocked\<close>,
  \<open>ex_published\<close>) and starts to read (\<open>ex_contended\<close>: the thread's CAS is about
  to fail); the I/O thread has run \<open>UserEntry 7\<close> (\<open>ex_reading\<close>) and has finished
  reading (\<open>ex_consumed\<close>); after a second swap it has run the barrier entry
  (\<open>ex_waiting\<close>); the thread has returned from \<^verbatim>\<open>StopTracing\<close> (\<open>ex_returned\<close>).
\<close>

definition ex_idle :: "nat system" where
  "ex_idle =
     ex_sys (ex_lg [1, 3] 0 0 [] False [] {}
       (ex_q [ReadLock, Unlocked] [[], []] 0 1 0 0 0))
       Idle IO_not_started
       []
       [] 0"

definition ex_swapping :: "nat system" where
  "ex_swapping =
     ex_sys (ex_lg [5, 3] 1 1 [] True [] {}
       (ex_q [ReadLock, Unlocked] [[], [UserEntry 7]] 0 1 0 1 0))
       (Log_cas (FlushedEntry 0) 1 0 (Then_wait_tracing 0)) (IO_swap [8])
       [UserEntry 7, FlushedEntry 0]
       [] 1"

definition ex_unlocked :: "nat system" where
  "ex_unlocked =
     ex_sys (ex_lg [5, 3] 1 1 [] True [] {}
       (ex_q [Unlocked, Unlocked] [[], [UserEntry 7]] 0 1 0 1 0))
       (Log_cas (FlushedEntry 0) 1 0 (Then_wait_tracing 0)) (IO_swap_publish 8 [])
       [UserEntry 7, FlushedEntry 0]
       [] 1"

definition ex_published :: "nat system" where
  "ex_published =
     ex_sys (ex_lg [5, 3] 1 1 [8] True [] {}
       (ex_q [Unlocked, Unlocked] [[], [UserEntry 7]] 1 0 1 1 0))
       (Log_cas (FlushedEntry 0) 1 0 (Then_wait_tracing 0)) (IO_swap [])
       [UserEntry 7, FlushedEntry 0]
       [] 1"

definition ex_contended :: "nat system" where
  "ex_contended =
     ex_sys (ex_lg [5, 3] 1 1 [8] True
          [SetCurrentTracePidTidString ''pid 1 tid 1'']
          {}
       (ex_q [Unlocked, ReadLock] [[], [UserEntry 7]] 1 0 1 1 0))
       (Log_cas (FlushedEntry 0) 1 0 (Then_wait_tracing 0)) (IO_run 0 [UserEntry 7])
       [UserEntry 7, FlushedEntry 0]
       [] 1"

definition ex_reading :: "nat system" where
  "ex_reading =
     ex_sys (ex_lg [5, 8] 2 1 [8] True
          [SetCurrentTracePidTidString ''pid 1 tid 1'', Invoked 7]
          {}
       (ex_q [Unlocked, ReadLock] [[FlushedEntry 0], [UserEntry 7]] 1 0 1 0 1))
       (Wait_tracing 0) (IO_run 0 [])
       [UserEntry 7, FlushedEntry 0]
       [(8, UserEntry 7)] 1"

definition ex_consumed :: "nat system" where
  "ex_consumed =
     ex_sys (ex_lg [5, 8] 2 1 [0] True
          [SetCurrentTracePidTidString ''pid 1 tid 1'', Invoked 7]
          {}
       (ex_q [Unlocked, ReadLock] [[FlushedEntry 0], []] 1 0 0 0 1))
       (Wait_tracing 0) (IO_process 1)
       [UserEntry 7, FlushedEntry 0]
       [(8, UserEntry 7)] 1"

definition ex_waiting :: "nat system" where
  "ex_waiting =
     ex_sys (ex_lg [5, 7] 2 2 [8] True
          [SetCurrentTracePidTidString ''pid 1 tid 1'', Invoked 7, Flush,
           SetCurrentTracePidTidString ''pid 1 tid 1'']
          {0}
       (ex_q [ReadLock, Unlocked] [[FlushedEntry 0], []] 0 1 1 0 1))
       (Wait_tracing 0) (IO_run 0 [])
       [UserEntry 7, FlushedEntry 0]
       [(8, UserEntry 7), (8, FlushedEntry 0)] 1"

definition ex_returned :: "nat system" where
  "ex_returned =
     ex_sys (ex_lg [5, 7] 2 2 [8] True
          [SetCurrentTracePidTidString ''pid 1 tid 1'', Invoked 7, Flush,
           SetCurrentTracePidTidString ''pid 1 tid 1'',
           StartNewTrace_call Nullptr 0]
          {0}
       (ex_q [ReadLock, Unlocked] [[FlushedEntry 0], []] 0 1 1 0 1))
       Idle (IO_run 0 [])
       [UserEntry 7, FlushedEntry 0]
       [(8, UserEntry 7), (8, FlushedEntry 0)] 1"

text \<open>
  A second run, which leaves the first after the first call of \<^verbatim>\<open>Log\<close>: the thread
  holds the write buffer when the I/O thread swaps, so that the I/O thread cannot start
  to read (\<open>ex_blocked\<close>, \<open>ex_retried\<close>); the thread logs once more and requests
  a swap, which the I/O thread has to defer (\<open>ex_deferring\<close>, \<open>ex_deferred\<close>).
\<close>

definition ex_blocked :: "nat system" where
  "ex_blocked =
     ex_sys (ex_lg [5, 3] 1 1 [8] True [] {}
       (ex_q [Unlocked, WriteLock] [[], [UserEntry 7]] 1 0 1 1 0))
       (Log_append (UserEntry 7) 1 Ret) (IO_process 0)
       [UserEntry 7, UserEntry 7]
       [] 0"

definition ex_retried :: "nat system" where
  "ex_retried =
     ex_sys ((ex_lg [5, 3] 1 1 [8] True [] {}
       (ex_q [Unlocked, WriteLock] [[], [UserEntry 7]] 1 0 1 1 0))
       \<lparr> start_reading_entries_retry_count := 1 \<rparr>)
       (Log_append (UserEntry 7) 1 Ret) (IO_process 1)
       [UserEntry 7, UserEntry 7]
       [] 0"

definition ex_deferring :: "nat system" where
  "ex_deferring =
     ex_sys ((ex_lg [5, 7] 2 2 [8] True [Flush] {}
       (ex_q [Unlocked, Unlocked] [[UserEntry 7], [UserEntry 7, UserEntry 7]] 1 0 1 0 0))
       \<lparr> start_reading_entries_retry_count := 1 \<rparr>)
       Idle (IO_swap [8])
       [UserEntry 7, UserEntry 7, UserEntry 7]
       [] 0"

definition ex_deferred :: "nat system" where
  "ex_deferred =
     ex_sys ((ex_lg [5, 7] 2 2 [8] True [Flush] {}
       (ex_q [Unlocked, Unlocked] [[UserEntry 7], [UserEntry 7, UserEntry 7]] 1 0 1 0 0))
       \<lparr> threads_to_swap_deferred := [8], start_reading_entries_retry_count := 1 \<rparr>)
       Idle (IO_swap [])
       [UserEntry 7, UserEntry 7, UserEntry 7]
       [] 0"

text \<open>
  The run goes on: the thread ends. It is between the two blocks of
  \<^verbatim>\<open>UnRegisterTlsLogger\<close> (\<open>ex_adopted\<close>), has done the second (\<open>ex_erased\<close>),
  has returned from it (\<open>ex_exited\<close>); the I/O thread is about to run the
  \<open>OrphanEntry\<close> (\<open>ex_collecting\<close>), has run it (\<open>ex_marked\<close>), has flushed
  (\<open>ex_retiring\<close>) and has destroyed the TlsLogger (\<open>ex_destroyed\<close>).
\<close>

definition ex_adopted :: "nat system" where
  "ex_adopted =
     ex_sys (ex_lo (ex_lg [5, 7] 2 2 [8] True
          [SetCurrentTracePidTidString ''pid 1 tid 1'', Invoked 7, Flush,
           SetCurrentTracePidTidString ''pid 1 tid 1'',
           StartNewTrace_call Nullptr 0]
          {0}
       (ex_q [ReadLock, Unlocked] [[FlushedEntry 0], []] 0 1 1 0 1))
       {|8|} [8] [] 0)
       Unreg_erase (IO_run 0 [])
       [UserEntry 7, FlushedEntry 0]
       [(8, UserEntry 7), (8, FlushedEntry 0)] 1"

definition ex_erased :: "nat system" where
  "ex_erased =
     ex_sys (ex_lo (ex_lg [5, 7] 2 2 [8] True
          [SetCurrentTracePidTidString ''pid 1 tid 1'', Invoked 7, Flush,
           SetCurrentTracePidTidString ''pid 1 tid 1'',
           StartNewTrace_call Nullptr 0]
          {0}
       (ex_q [ReadLock, Unlocked] [[FlushedEntry 0], []] 0 1 1 0 1))
       {||} [8] [] 0)
       (Log_load (OrphanEntry 8) Then_exit) (IO_run 0 [])
       [UserEntry 7, FlushedEntry 0, OrphanEntry 8]
       [(8, UserEntry 7), (8, FlushedEntry 0)] 1"

definition ex_exited :: "nat system" where
  "ex_exited =
     ex_sys (ex_lo (ex_lg [8, 7] 3 2 [8] True
          [SetCurrentTracePidTidString ''pid 1 tid 1'', Invoked 7, Flush,
           SetCurrentTracePidTidString ''pid 1 tid 1'',
           StartNewTrace_call Nullptr 0]
          {0}
       (ex_q [ReadLock, Unlocked] [[FlushedEntry 0], [OrphanEntry 8]] 0 1 1 1 1))
       {||} [8] [] 0)
       Exited (IO_run 0 [])
       [UserEntry 7, FlushedEntry 0, OrphanEntry 8]
       [(8, UserEntry 7), (8, FlushedEntry 0)] 1"

definition ex_collecting :: "nat system" where
  "ex_collecting =
     ex_sys (ex_lo (ex_lg [9, 7] 3 3 [8] True
          [SetCurrentTracePidTidString ''pid 1 tid 1'', Invoked 7, Flush,
           SetCurrentTracePidTidString ''pid 1 tid 1'',
           StartNewTrace_call Nullptr 0, Flush,
           SetCurrentTracePidTidString ''pid 1 tid 1'']
          {0}
       (ex_q [Unlocked, ReadLock] [[], [OrphanEntry 8]] 1 0 1 1 1))
       {||} [8] [] 0)
       Exited (IO_run 0 [OrphanEntry 8])
       [UserEntry 7, FlushedEntry 0, OrphanEntry 8]
       [(8, UserEntry 7), (8, FlushedEntry 0)] 1"

definition ex_marked :: "nat system" where
  "ex_marked =
     ex_sys (ex_lo (ex_lg [9, 7] 3 3 [8] True
          [SetCurrentTracePidTidString ''pid 1 tid 1'', Invoked 7, Flush,
           SetCurrentTracePidTidString ''pid 1 tid 1'',
           StartNewTrace_call Nullptr 0, Flush,
           SetCurrentTracePidTidString ''pid 1 tid 1'']
          {0}
       (ex_q [Unlocked, ReadLock] [[], [OrphanEntry 8]] 1 0 1 1 0))
       {||} [8] [8] 1)
       Exited (IO_run 0 [])
       [UserEntry 7, FlushedEntry 0, OrphanEntry 8]
       [(8, UserEntry 7), (8, FlushedEntry 0), (8, OrphanEntry 8)] 1"

definition ex_retiring :: "nat system" where
  "ex_retiring =
     ex_sys (ex_lo (ex_lg [9, 7] 3 3 [] True
          [SetCurrentTracePidTidString ''pid 1 tid 1'', Invoked 7, Flush,
           SetCurrentTracePidTidString ''pid 1 tid 1'',
           StartNewTrace_call Nullptr 0, Flush,
           SetCurrentTracePidTidString ''pid 1 tid 1'', Flush]
          {0}
       (ex_q [Unlocked, ReadLock] [[], []] 1 0 0 1 0))
       {||} [8] [8] 1)
       Exited IO_retire
       [UserEntry 7, FlushedEntry 0, OrphanEntry 8]
       [(8, UserEntry 7), (8, FlushedEntry 0), (8, OrphanEntry 8)] 1"

definition ex_destroyed :: "nat system" where
  "ex_destroyed =
     ex_sys ((ex_lo (ex_lg [9, 7] 3 3 [] True
          [SetCurrentTracePidTidString ''pid 1 tid 1'', Invoked 7, Flush,
           SetCurrentTracePidTidString ''pid 1 tid 1'',
           StartNewTrace_call Nullptr 0, Flush,
           SetCurrentTracePidTidString ''pid 1 tid 1'', Flush]
          {0}
       (ex_q [Unlocked, ReadLock] [[], []] 1 0 0 1 0))
       {||} [] [] 1)\<lparr> tls := Map.empty \<rparr>)
       Exited IO_top
       [UserEntry 7, FlushedEntry 0, OrphanEntry 8]
       [(8, UserEntry 7), (8, FlushedEntry 0), (8, OrphanEntry 8)] 1"


section \<open>Properties\<close>

subsection \<open>SwapBuffers\<close>

lemma word_lt_two:
  fixes i :: size_t
  assumes "i < 2"
  shows "i = 0 \<or> i = 1"
proof -
  from assms have "unat i < 2"
    by (simp add: word_less_nat_alt)
  then have "unat i = unat (0::size_t) \<or> unat i = unat (1::size_t)"
    by auto
  then show ?thesis
    by (simp only: word_unat_eq_iff [symmetric])
qed

lemma xor_one_lt_two:
  fixes i :: size_t
  assumes "i < 2"
  shows "i XOR 1 < 2" and "i XOR 1 \<noteq> i"
  using word_lt_two [OF assms] by auto

text \<open>
  C3. Called with the read buffer in \<open>ReadLock\<close> and no unread swap, \<open>SwapBuffers\<close>
  succeeds, and does exactly this: the state of the old read buffer becomes \<open>Unlocked\<close>,
  \<open>i_write\<close> becomes the old \<open>i_read\<close>, \<open>i_read\<close> is flipped by \<open>XOR 1\<close>, and
  \<open>unread_swaps\<close> goes up by one (to 1).
\<close>

theorem SwapBuffers_effect:
  assumes "entry_states t ! unat (i_read t) = ReadLock" and "unread_swaps t = 0"
  shows "SwapBuffers t =
           Inr (t\<lparr> entry_states := (entry_states t)[unat (i_read t) := Unlocked],
                   i_write := i_read t,
                   i_read := i_read t XOR 1,
                   unread_swaps := 1 \<rparr>)"
  using assms by (simp add: SwapBuffers_def compare_exchange_strong_def)

theorem SwapBuffers_effect_witness:
  "entry_states (TlsLogger_new ''p'' ''t'' :: nat TlsLogger)
       ! unat (i_read (TlsLogger_new ''p'' ''t'' :: nat TlsLogger)) = ReadLock
   \<and> unread_swaps (TlsLogger_new ''p'' ''t'' :: nat TlsLogger) = 0
   \<and> SwapBuffers (TlsLogger_new ''p'' ''t'' :: nat TlsLogger) =
       Inr \<lparr> i_read = 1, entries = [[], []], entry_states = [Unlocked, Unlocked], i_write = 0,
             log_cas_fail_count = 0, swap_buffers_slot_retry_count = 0,
             unread_swaps = 1, i_write_prev = 0,
             trace_pid_tid = ''p'', tid_as_string = ''t'' \<rparr>"
  using SwapBuffers_effect [of "TlsLogger_new ''p'' ''t'' :: nat TlsLogger"]
  by (simp add: TlsLogger_new_def)

text \<open>
  C10. A swap leaves both entry buffers as they are, and the state of the buffer that
  was not the read buffer; of the whole TlsLogger only \<open>entry_states\<close> at the old
  \<open>i_read\<close>, \<open>i_write\<close>, \<open>i_read\<close> and \<open>unread_swaps\<close> can differ afterwards.
\<close>

theorem SwapBuffers_frame:
  assumes "SwapBuffers t = Inr t'"
  shows "entries t' = entries t
       \<and> length (entry_states t') = length (entry_states t)
       \<and> (\<forall>j. j \<noteq> unat (i_read t) \<longrightarrow> entry_states t' ! j = entry_states t ! j)
       \<and> t' = t\<lparr> entry_states := entry_states t', i_write := i_write t',
                  i_read := i_read t', unread_swaps := unread_swaps t' \<rparr>"
  using assms
  by (auto simp: SwapBuffers_def compare_exchange_strong_def split: if_splits)

theorem SwapBuffers_frame_witness:
  "SwapBuffers ((TlsLogger_new ''p'' ''t'' :: nat TlsLogger)\<lparr> entries := [[], [7, 8]] \<rparr>) =
     Inr \<lparr> i_read = 1, entries = [[], [7, 8]], entry_states = [Unlocked, Unlocked],
           i_write = 0, log_cas_fail_count = 0, swap_buffers_slot_retry_count = 0,
           unread_swaps = 1, i_write_prev = 0,
           trace_pid_tid = ''p'', tid_as_string = ''t'' \<rparr>
   \<and> entries \<lparr> i_read = 1, entries = [[], [7, 8::nat]],
           entry_states = [Unlocked, Unlocked],
           i_write = 0, log_cas_fail_count = 0, swap_buffers_slot_retry_count = 0,
           unread_swaps = 1, i_write_prev = 0,
           trace_pid_tid = ''p'', tid_as_string = ''t'' \<rparr> = [[], [7, 8]]"
  using SwapBuffers_frame
    [of "(TlsLogger_new ''p'' ''t'' :: nat TlsLogger)\<lparr> entries := [[], [7, 8]] \<rparr>"
      "\<lparr> i_read = 1, entries = [[], [7, 8]], entry_states = [Unlocked, Unlocked],
         i_write = 0, log_cas_fail_count = 0, swap_buffers_slot_retry_count = 0,
         unread_swaps = 1, i_write_prev = 0,
         trace_pid_tid = ''p'', tid_as_string = ''t'' \<rparr>"]
  by (simp add: TlsLogger_new_def SwapBuffers_def compare_exchange_strong_def)

subsection \<open>Registration\<close>

text \<open>
  C9. \<open>RegisterTlsLogger\<close> always inserts the TlsLogger into the registered set. When
  the set holds \<open>max_threads_to_log\<close> members or more at the call, it also writes the
  warning through \<open>LogErrorSync\<close>; below that it writes nothing. Nothing else changes, and
  there is no outcome in which the TlsLogger is not registered. (A registered set has
  fewer than \<open>2 ^ 64\<close> members, so its \<^verbatim>\<open>size()\<close> is its cardinality.)
\<close>

theorem RegisterTlsLogger_always_inserts:
  assumes "fcard (tls_loggers_registerd lg) < 2 ^ 64"
  shows "tls_loggers_registerd (RegisterTlsLogger lg p) = finsert p (tls_loggers_registerd lg)
       \<and> (unat (max_threads_to_log lg) \<le> fcard (tls_loggers_registerd lg) \<longrightarrow>
            sync_errors (RegisterTlsLogger lg p) = sync_errors lg @
              [''Warning: More TLS loggers registerd than can be active simultaneously.\<newline>''])
       \<and> (fcard (tls_loggers_registerd lg) < unat (max_threads_to_log lg) \<longrightarrow>
            sync_errors (RegisterTlsLogger lg p) = sync_errors lg)
       \<and> RegisterTlsLogger lg p =
            lg\<lparr> tls_loggers_registerd := tls_loggers_registerd (RegisterTlsLogger lg p),
                sync_errors := sync_errors (RegisterTlsLogger lg p) \<rparr>"
proof -
  have "unat (of_nat (fcard (tls_loggers_registerd lg)) :: size_t)
      = fcard (tls_loggers_registerd lg)"
    using assms by (simp add: unat_of_nat)
  then have "max_threads_to_log lg \<le> of_nat (fcard (tls_loggers_registerd lg))
      \<longleftrightarrow> unat (max_threads_to_log lg) \<le> fcard (tls_loggers_registerd lg)"
    by (simp add: word_le_nat_alt)
  then show ?thesis
    by (auto simp: RegisterTlsLogger_def LogErrorSync_def Let_def)
qed

theorem RegisterTlsLogger_always_inserts_witness:
  "tls_loggers_registerd (RegisterTlsLogger (Logger_new 1 :: nat Logger) 8) = {|8|}
   \<and> sync_errors (RegisterTlsLogger (Logger_new 1 :: nat Logger) 8) = []
   \<and> tls_loggers_registerd
        (RegisterTlsLogger ((Logger_new 1 :: nat Logger)\<lparr> tls_loggers_registerd := {|8|} \<rparr>) 16)
       = {|16, 8|}
   \<and> sync_errors
        (RegisterTlsLogger ((Logger_new 1 :: nat Logger)\<lparr> tls_loggers_registerd := {|8|} \<rparr>) 16)
       = [''Warning: More TLS loggers registerd than can be active simultaneously.\<newline>'']"
  using RegisterTlsLogger_always_inserts [of "Logger_new 1 :: nat Logger" 8]
    RegisterTlsLogger_always_inserts
      [of "(Logger_new 1 :: nat Logger)\<lparr> tls_loggers_registerd := {|8|} \<rparr>" 16]
  by (simp add: Logger_new_def fcard_finsert_if fcard_fempty RegisterTlsLogger_def
      LogErrorSync_def)

subsection \<open>Log and the swap request\<close>

lemma writable_not_readable:
  "\<not> SwapRequestSlotIsReadable (SwapRequestSlotIsWritableValue i)"
  unfolding SwapRequestSlotIsReadable_def SwapRequestSlotIsWritableValue_def
  by (simp add: bit_eq_iff bit_simps)

lemma slot_index_in_range:
  assumes "thread_swap_request_slots lg \<noteq> []"
  shows "unat (i mod slot_count lg) < length (thread_swap_request_slots lg)"
proof (cases "slot_count lg = 0")
  case True
  have "unat (i mod slot_count lg) < 2 ^ 64"
    using unsigned_less [of "i mod slot_count lg"] by simp
  moreover from True have "2 ^ 64 dvd length (thread_swap_request_slots lg)"
    unfolding slot_count_def by (simp add: word_of_nat_eq_0_iff)
  moreover from assms have "0 < length (thread_swap_request_slots lg)"
    by simp
  ultimately show ?thesis
    by (meson dvd_imp_le less_le_trans)
next
  case False
  then have "i mod slot_count lg < slot_count lg"
    by (simp add: word_mod_less_divisor word_neq_0_conv)
  then have "unat (i mod slot_count lg) < unat (slot_count lg)"
    by (simp add: word_less_nat_alt)
  also have "unat (slot_count lg) \<le> length (thread_swap_request_slots lg)"
    unfolding slot_count_def by (simp add: unat_of_nat)
  finally show ?thesis .
qed

lemma Log_lock_frame:
  assumes "Log_lock t i c = Inr (t1, w)"
  shows "entries t1 = entries t \<and> i_write_prev t1 = i_write_prev t
       \<and> entry_states t1 = (entry_states t)[unat w := WriteLock]
       \<and> entry_states t ! unat w = Unlocked"
  using assms
proof (induction t i c rule: Log_lock.induct)
  case (1 t i_w c)
  show ?case
  proof (cases "entry_states t ! unat i_w = Unlocked")
    case True
    with "1.prems" show ?thesis
      by (auto simp: Log_lock.simps [of t i_w c] compare_exchange_strong_def)
  next
    case False
    with "1.prems" have c: "\<not> 3 \<le> c + 1"
      and rest: "Log_lock (t\<lparr> log_cas_fail_count := log_cas_fail_count t + 1 \<rparr>)
          (i_w XOR 1) (c + 1) = Inr (t1, w)"
      by (auto simp: Log_lock.simps [of t i_w c] compare_exchange_strong_def split: if_splits)
    from False have "\<not> fst (compare_exchange_strong (entry_states t ! unat i_w) Unlocked WriteLock)"
      by (simp add: compare_exchange_strong_def)
    from "1.IH" [OF this c rest] show ?thesis by simp
  qed
qed

lemma RequestSwapBuffers_loop_result:
  assumes "RequestSwapBuffers_loop lg p i = Some r"
  shows "\<forall>lg'. r = Inr lg' \<longrightarrow> SwapRequestSlotIsReadable p \<longrightarrow>
           swap_requested lg lg' p
           \<and> (\<forall>t. tls lg p = Some t \<longrightarrow>
                 (\<exists>c. tls lg' = (tls lg)(p \<mapsto> t\<lparr> swap_buffers_slot_retry_count := c \<rparr>)))"
proof (rule RequestSwapBuffers_loop.raw_induct
    [where P = "\<lambda>lg p i r. \<forall>lg'. r = Inr lg' \<longrightarrow> SwapRequestSlotIsReadable p \<longrightarrow>
           swap_requested lg lg' p
           \<and> (\<forall>t. tls lg p = Some t \<longrightarrow>
                 (\<exists>c. tls lg' = (tls lg)(p \<mapsto> t\<lparr> swap_buffers_slot_retry_count := c \<rparr>)))",
     OF _ assms], goal_cases)
  case (1 loop lg p i r)
  show ?case
  proof (intro allI impI)
    fix lg'
    assume r: "r = Inr lg'" and rd: "SwapRequestSlotIsReadable p"
    from "1"(2) r have ne: "thread_swap_request_slots lg \<noteq> []"
      by (auto split: if_splits)
    let ?k = "unat (i mod slot_count lg)"
    show "swap_requested lg lg' p
           \<and> (\<forall>t. tls lg p = Some t \<longrightarrow>
                 (\<exists>c. tls lg' = (tls lg)(p \<mapsto> t\<lparr> swap_buffers_slot_retry_count := c \<rparr>)))"
    proof (cases "thread_swap_request_slots lg ! ?k = SwapRequestSlotIsWritableValue i")
      case True
      with "1"(2) r ne
      have lg': "lg' = lg\<lparr> thread_swap_request_slots := (thread_swap_request_slots lg)[?k := p] \<rparr>"
        by (simp add: compare_exchange_strong_def)
      have "?k < length (thread_swap_request_slots lg)"
        using ne by (rule slot_index_in_range)
      moreover from True rd have "thread_swap_request_slots lg ! ?k \<noteq> p"
        using writable_not_readable by auto
      ultimately have "swap_requested lg lg' p"
        unfolding swap_requested_def lg' by auto
      moreover have "\<forall>t. tls lg p = Some t \<longrightarrow>
          tls lg' = (tls lg)(p \<mapsto> t\<lparr> swap_buffers_slot_retry_count := swap_buffers_slot_retry_count t \<rparr>)"
        unfolding lg' by auto
      ultimately show ?thesis by blast
    next
      case False
      with "1"(2) r ne obtain t0 where t0: "tls lg p = Some t0"
        and rec: "loop (lg\<lparr> swap_request_id := swap_request_id lg + 1,
                    tls := (tls lg)(p \<mapsto> RequestSwapBuffersSlotRetried t0) \<rparr>) p (swap_request_id lg)
                  = Some (Inr lg')"
        by (auto simp: compare_exchange_strong_def split: option.splits)
      from "1"(1) [OF rec] rd
      have a: "swap_requested (lg\<lparr> swap_request_id := swap_request_id lg + 1,
                    tls := (tls lg)(p \<mapsto> RequestSwapBuffersSlotRetried t0) \<rparr>) lg' p"
        and b: "\<exists>c. tls lg' = ((tls lg)(p \<mapsto> RequestSwapBuffersSlotRetried t0))
                  (p \<mapsto> (RequestSwapBuffersSlotRetried t0)\<lparr> swap_buffers_slot_retry_count := c \<rparr>)"
        by auto
      from a have "swap_requested lg lg' p"
        by (simp add: swap_requested_def)
      moreover from b t0 have "\<forall>t. tls lg p = Some t \<longrightarrow>
                 (\<exists>c. tls lg' = (tls lg)(p \<mapsto> t\<lparr> swap_buffers_slot_retry_count := c \<rparr>))"
        by (auto simp: RequestSwapBuffersSlotRetried_def)
      ultimately show ?thesis by blast
    qed
  qed
qed


lemma swap_requested_irrefl: "\<not> swap_requested lg lg p"
  unfolding swap_requested_def
  by (metis list_update_id nth_list_update_eq)

lemma swap_requested_slots_cong:
  "thread_swap_request_slots a = thread_swap_request_slots b \<Longrightarrow>
   thread_swap_request_slots a' = thread_swap_request_slots b' \<Longrightarrow>
   swap_requested a a' p = swap_requested b b' p"
  by (simp add: swap_requested_def)

text \<open>
  What a call of \<open>TlsLogger::Log\<close> that returns has done: the entry has been appended
  to the buffer \<open>w\<close> that the lock loop obtained, and \<open>i_write_prev\<close> is \<open>w\<close>. A
  swap request has been announced on the ring if and only if \<open>w\<close> differs from the
  \<open>i_write_prev\<close> of before the call; when it does not differ, the slots and
  \<open>swap_request_id\<close> are untouched.
\<close>

lemma TlsLogger_Log_result:
  assumes ret: "TlsLogger_Log lg this entry = Some (Inr lg')"
    and t: "tls lg this = Some t"
  shows "\<exists>t1 w t'.
           Log_lock t (i_write t) 0 = Inr (t1, w)
         \<and> tls lg' this = Some t'
         \<and> entries t' = (entries t)[unat w := entries t ! unat w @ [entry]]
         \<and> i_write_prev t' = w
         \<and> (swap_requested lg lg' this \<longleftrightarrow> w \<noteq> i_write_prev t)
         \<and> (w = i_write_prev t \<longrightarrow>
               thread_swap_request_slots lg' = thread_swap_request_slots lg
               \<and> swap_request_id lg' = swap_request_id lg)"
proof -
  from ret t obtain t1 w where lock: "Log_lock t (i_write t) 0 = Inr (t1, w)"
    by (auto simp: TlsLogger_Log_def split: sum.splits)
  note fr = Log_lock_frame [OF lock]
  define t2 where "t2 = t1\<lparr> entries := (entries t1)[unat w := entries t1 ! unat w @ [entry]] \<rparr>"
  define t3 where "t3 = t2\<lparr> entry_states := (entry_states t2)[unat w := Unlocked] \<rparr>"
  define lg3 where "lg3 = lg\<lparr> tls := (tls lg)(this \<mapsto> t3) \<rparr>"
  from ret t lock have unlocked: "entry_states t1 ! unat w = WriteLock"
    by (auto simp: TlsLogger_Log_def Let_def compare_exchange_strong_def
        split: if_splits)
  have t3: "entries t3 = (entries t)[unat w := entries t ! unat w @ [entry]]"
    "i_write_prev t3 = i_write_prev t"
    using fr by (simp_all add: t3_def t2_def)
  have eq: "TlsLogger_Log lg this entry =
      (if i_write_prev t \<noteq> w
       then (case RequestSwapBuffers lg3 this of
               None \<Rightarrow> None
             | Some (Inl f) \<Rightarrow> Some (Inl f)
             | Some (Inr lg4) \<Rightarrow>
                 (case tls lg4 this of
                    None \<Rightarrow> Some (Inl (DanglingPointer this))
                  | Some t4 \<Rightarrow>
                      Some (Inr (lg4\<lparr> tls := (tls lg4)(this \<mapsto> t4\<lparr> i_write_prev := w \<rparr>) \<rparr>))))
       else Some (Inr lg3))"
    unfolding lg3_def t3_def t2_def
    using t lock unlocked fr
    by (simp add: TlsLogger_Log_def Let_def compare_exchange_strong_def)
  show ?thesis
  proof (cases "w = i_write_prev t")
    case True
    with ret eq have "lg' = lg3"
      by simp
    then have "tls lg' this = Some t3"
      and "thread_swap_request_slots lg' = thread_swap_request_slots lg"
      and "swap_request_id lg' = swap_request_id lg"
      by (simp_all add: lg3_def)
    moreover from this have "\<not> swap_requested lg lg' this"
      using swap_requested_irrefl [of lg this] swap_requested_slots_cong [of lg lg lg' lg this]
      by simp
    ultimately show ?thesis
      using lock t3 True
      by (intro exI [of _ t1] exI [of _ w] exI [of _ t3]) simp
  next
    case False
    with ret eq obtain lg4 t4
      where req: "RequestSwapBuffers lg3 this = Some (Inr lg4)"
        and t4: "tls lg4 this = Some t4"
        and lg': "lg' = lg4\<lparr> tls := (tls lg4)(this \<mapsto> t4\<lparr> i_write_prev := w \<rparr>) \<rparr>"
      by (auto split: option.splits sum.splits)
    from req have rd: "SwapRequestSlotIsReadable this"
      and loop: "RequestSwapBuffers_loop (lg3\<lparr> swap_request_id := swap_request_id lg3 + 1 \<rparr>)
                   this (swap_request_id lg3) = Some (Inr lg4)"
      by (auto simp: RequestSwapBuffers_def split: if_splits)
    from RequestSwapBuffers_loop_result [OF loop] rd
    have sr: "swap_requested (lg3\<lparr> swap_request_id := swap_request_id lg3 + 1 \<rparr>) lg4 this"
      and "\<exists>c. tls lg4 = (tls lg3)(this \<mapsto> t3\<lparr> swap_buffers_slot_retry_count := c \<rparr>)"
      by (auto simp: lg3_def)
    then obtain c where "tls lg4 = (tls lg3)(this \<mapsto> t3\<lparr> swap_buffers_slot_retry_count := c \<rparr>)"
      by blast
    with t4 have t4': "t4 = t3\<lparr> swap_buffers_slot_retry_count := c \<rparr>"
      by simp
    from sr have "swap_requested lg lg' this"
      using swap_requested_slots_cong
        [of lg "lg3\<lparr> swap_request_id := swap_request_id lg3 + 1 \<rparr>" lg' lg4 this]
      by (simp add: lg3_def lg')
    moreover have "tls lg' this = Some (t4\<lparr> i_write_prev := w \<rparr>)"
      by (simp add: lg')
    ultimately show ?thesis
      using lock t3 False t4'
      by (intro exI [of _ t1] exI [of _ w] exI [of _ "t4\<lparr> i_write_prev := w \<rparr>"]) simp
  qed
qed


lemma ex_logger_slots: "thread_swap_request_slots ex_logger = [1, 3]"
  by (simp add: ex_logger_def Logger_new_def SwapRequestSlotIsWritableValue_def upt_rec)

lemma ex_Log_first:
  "TlsLogger_Log ex_logger 8 (UserEntry 5) =
     Some (Inr (ex_logger\<lparr> thread_swap_request_slots := [8, 3], swap_request_id := 1,
       tls := [8 \<mapsto> ex_tls\<lparr> entries := [[], [UserEntry 5]], i_write_prev := 1 \<rparr>] \<rparr>))"
  by (simp add: TlsLogger_Log_def ex_logger_def Logger_new_def ex_tls_def TlsLogger_new_def
      Log_lock.simps compare_exchange_strong_def Let_def RequestSwapBuffers_def
      RequestSwapBuffers_loop.simps SwapRequestSlotIsReadable_def
      SwapRequestSlotIsWritableValue_def slot_count_def upt_rec)

lemma ex_Log_second:
  "TlsLogger_Log (ex_logger\<lparr> thread_swap_request_slots := [8, 3], swap_request_id := 1,
       tls := [8 \<mapsto> ex_tls\<lparr> entries := [[], [UserEntry 5]], i_write_prev := 1 \<rparr>] \<rparr>)
     8 (UserEntry 6) =
     Some (Inr (ex_logger\<lparr> thread_swap_request_slots := [8, 3], swap_request_id := 1,
       tls := [8 \<mapsto> ex_tls\<lparr> entries := [[], [UserEntry 5, UserEntry 6]],
                             i_write_prev := 1 \<rparr>] \<rparr>))"
  by (simp add: TlsLogger_Log_def ex_logger_def Logger_new_def ex_tls_def TlsLogger_new_def
      Log_lock.simps compare_exchange_strong_def Let_def)


subsection \<open>Gathering swap requests\<close>

lemma GetTlsLoggerThatRequestedSwap_readable:
  assumes "SwapRequestSlotIsReadable (thread_swap_request_slots lg ! unat s)"
  shows "GetTlsLoggerThatRequestedSwap lg s n =
           Inr (lg\<lparr> thread_swap_request_slots :=
                     (thread_swap_request_slots lg)[unat s := SwapRequestSlotIsWritableValue n] \<rparr>,
                thread_swap_request_slots lg ! unat s)"
  using assms
  by (simp add: GetTlsLoggerThatRequestedSwap_def Let_def compare_exchange_strong_def)

lemma GetTlsLoggerThatRequestedSwap_writable:
  assumes "\<not> SwapRequestSlotIsReadable (thread_swap_request_slots lg ! unat s)"
  shows "GetTlsLoggerThatRequestedSwap lg s n = Inr (lg, 0)"
  using assms by (simp add: GetTlsLoggerThatRequestedSwap_def Let_def)

lemma find_None_slot: "find (\<lambda>r. slot r = s) rs = None \<longleftrightarrow> (\<forall>r\<in>set rs. slot r \<noteq> s)"
  by (auto simp: find_None_iff)

lemma set_next_id_split:
  assumes "\<exists>r\<in>set rs. slot r = s"
  shows "\<exists>ys r zs. rs = ys @ r # zs \<and> slot r = s \<and> (\<forall>y\<in>set ys. slot y \<noteq> s)
           \<and> set_next_id s n rs = ys @ r\<lparr> next_id := n \<rparr> # zs"
  using assms
proof (induction rs)
  case Nil
  then show ?case by simp
next
  case (Cons a rs)
  show ?case
  proof (cases "slot a = s")
    case True
    then have "a # rs = [] @ a # rs \<and> slot a = s \<and> (\<forall>y\<in>set []. slot y \<noteq> s)
        \<and> set_next_id s n (a # rs) = [] @ a\<lparr> next_id := n \<rparr> # rs"
      by simp
    then show ?thesis by blast
  next
    case False
    with Cons.prems have "\<exists>r\<in>set rs. slot r = s" by auto
    from Cons.IH [OF this] obtain ys r zs
      where "rs = ys @ r # zs" "slot r = s" "\<forall>y\<in>set ys. slot y \<noteq> s"
        "set_next_id s n rs = ys @ r\<lparr> next_id := n \<rparr> # zs"
      by blast
    with False have "a # rs = (a # ys) @ r # zs \<and> slot r = s \<and> (\<forall>y\<in>set (a # ys). slot y \<noteq> s)
        \<and> set_next_id s n (a # rs) = (a # ys) @ r\<lparr> next_id := n \<rparr> # zs"
      by simp
    then show ?thesis by blast
  qed
qed

lemma GatherNew_loop_reaches_end:
  assumes "GatherNew_loop e lg ts = Inr (lg', ts')" and "swap_request_id_read lg \<le> e"
  shows "swap_request_id_read lg' = e"
  using assms
proof (induction e lg ts rule: GatherNew_loop.induct)
  case (1 e lg ts)
  show ?case
  proof (cases "swap_request_id_read lg < e")
    case True
    with "1.prems" GatherNew_loop.simps [of e lg ts] obtain lg1 ts1 where body: "GatherNew_body lg ts = Inr (lg1, ts1)"
      and rest: "GatherNew_loop e lg1 ts1 = Inr (lg', ts')"
      by (simp split: sum.splits prod.splits)
    from body have "swap_request_id_read lg1 = swap_request_id_read lg + 1"
      by (rule GatherNew_body_id_read)
    with True have "swap_request_id_read lg1 \<le> e"
      by (simp add: inc_le)
    with "1.IH" [OF True body refl rest] show ?thesis by simp
  next
    case False
    with "1.prems" GatherNew_loop.simps [of e lg ts] show ?thesis by simp
  qed
qed

text \<open>
  C5. \<open>GatherNewSwapRequests\<close> loads \<open>swap_request_id\<close> once and runs the body for every
  id from \<open>swap_request_id_read\<close> up to it. For one id, with \<open>s\<close> the slot
  \<open>id mod slot_count\<close>, \<open>n\<close> the next id \<open>id + slot_count\<close> and \<open>v\<close> the slot's value:
  \<^item> if \<open>v\<close> is readable (a pointer, which is never null), the slot becomes the writable
    tag of \<open>n\<close> and \<open>v\<close> is appended to the output;
  \<^item> if \<open>v\<close> is not readable and no retry entry names the slot, the entry \<open>(s, n)\<close> is
    appended to the retry list;
  \<^item> if \<open>v\<close> is not readable and a retry entry names the slot, the first such entry gets
    the \<open>next_id\<close> \<open>n\<close> and the list is otherwise as it was: no duplicate is added.
\<close>

theorem GatherNewSwapRequests_per_id:
  fixes lg :: "'a Logger"
  defines "s \<equiv> swap_request_id_read lg mod slot_count lg"
    and "n \<equiv> swap_request_id_read lg + slot_count lg"
  defines "v \<equiv> thread_swap_request_slots lg ! unat s"
  assumes slots: "thread_swap_request_slots lg \<noteq> []"
  shows
    "GatherNewSwapRequests lg ts =
       (if swap_request_id_read lg < swap_request_id lg
        then (case GatherNew_body lg ts of
                Inl f \<Rightarrow> Inl f
              | Inr (lg1, ts1) \<Rightarrow> GatherNew_loop (swap_request_id lg) lg1 ts1)
        else Inr (lg, ts))
     \<and> (\<forall>lg' ts'. GatherNewSwapRequests lg ts = Inr (lg', ts')
            \<and> swap_request_id_read lg \<le> swap_request_id lg \<longrightarrow>
            swap_request_id_read lg' = swap_request_id lg)
     \<and> (SwapRequestSlotIsReadable v \<and> v \<noteq> 0 \<longrightarrow>
           GatherNew_body lg ts =
             Inr (lg\<lparr> thread_swap_request_slots :=
                       (thread_swap_request_slots lg)[unat s := SwapRequestSlotIsWritableValue n],
                     swap_request_id_read := swap_request_id_read lg + 1 \<rparr>,
                  ts @ [v]))
     \<and> (\<not> SwapRequestSlotIsReadable v
          \<and> (\<forall>r\<in>set (swap_request_slots_to_retry lg). slot r \<noteq> s) \<longrightarrow>
           GatherNew_body lg ts =
             Inr (lg\<lparr> swap_request_slots_retry_count := swap_request_slots_retry_count lg + 1,
                     swap_request_slots_to_retry :=
                       swap_request_slots_to_retry lg @ [\<lparr> slot = s, next_id = n \<rparr>],
                     swap_request_id_read := swap_request_id_read lg + 1 \<rparr>,
                  ts))
     \<and> (\<not> SwapRequestSlotIsReadable v
          \<and> (\<exists>r\<in>set (swap_request_slots_to_retry lg). slot r = s) \<longrightarrow>
           (\<exists>ys r zs.
              swap_request_slots_to_retry lg = ys @ r # zs \<and> slot r = s
              \<and> (\<forall>y\<in>set ys. slot y \<noteq> s)
              \<and> GatherNew_body lg ts =
                  Inr (lg\<lparr> swap_request_slots_retry_count :=
                            swap_request_slots_retry_count lg + 1,
                          swap_request_slots_to_retry := ys @ r\<lparr> next_id := n \<rparr> # zs,
                          swap_request_slots_retry_reencounter_count :=
                            swap_request_slots_retry_reencounter_count lg + 1,
                          swap_request_id_read := swap_request_id_read lg + 1 \<rparr>,
                       ts)))"
proof (intro conjI)
  show "GatherNewSwapRequests lg ts =
       (if swap_request_id_read lg < swap_request_id lg
        then (case GatherNew_body lg ts of
                Inl f \<Rightarrow> Inl f
              | Inr (lg1, ts1) \<Rightarrow> GatherNew_loop (swap_request_id lg) lg1 ts1)
        else Inr (lg, ts))"
    by (simp add: GatherNewSwapRequests_def GatherNew_loop.simps [of "swap_request_id lg" lg ts])
next
  show "\<forall>lg' ts'. GatherNewSwapRequests lg ts = Inr (lg', ts')
            \<and> swap_request_id_read lg \<le> swap_request_id lg \<longrightarrow>
            swap_request_id_read lg' = swap_request_id lg"
    by (auto simp: GatherNewSwapRequests_def dest: GatherNew_loop_reaches_end)
next
  show "SwapRequestSlotIsReadable v \<and> v \<noteq> 0 \<longrightarrow>
           GatherNew_body lg ts =
             Inr (lg\<lparr> thread_swap_request_slots :=
                       (thread_swap_request_slots lg)[unat s := SwapRequestSlotIsWritableValue n],
                     swap_request_id_read := swap_request_id_read lg + 1 \<rparr>,
                  ts @ [v])"
    using slots
    by (simp add: GatherNew_body_def Let_def GetTlsLoggerThatRequestedSwap_readable
        s_def n_def v_def)
next
  show "\<not> SwapRequestSlotIsReadable v
          \<and> (\<forall>r\<in>set (swap_request_slots_to_retry lg). slot r \<noteq> s) \<longrightarrow>
           GatherNew_body lg ts =
             Inr (lg\<lparr> swap_request_slots_retry_count := swap_request_slots_retry_count lg + 1,
                     swap_request_slots_to_retry :=
                       swap_request_slots_to_retry lg @ [\<lparr> slot = s, next_id = n \<rparr>],
                     swap_request_id_read := swap_request_id_read lg + 1 \<rparr>,
                  ts)"
    using slots
    by (simp add: GatherNew_body_def Let_def GetTlsLoggerThatRequestedSwap_writable
        retry_later_def find_None_slot s_def n_def v_def)
next
  show "\<not> SwapRequestSlotIsReadable v
          \<and> (\<exists>r\<in>set (swap_request_slots_to_retry lg). slot r = s) \<longrightarrow>
           (\<exists>ys r zs.
              swap_request_slots_to_retry lg = ys @ r # zs \<and> slot r = s
              \<and> (\<forall>y\<in>set ys. slot y \<noteq> s)
              \<and> GatherNew_body lg ts =
                  Inr (lg\<lparr> swap_request_slots_retry_count :=
                            swap_request_slots_retry_count lg + 1,
                          swap_request_slots_to_retry := ys @ r\<lparr> next_id := n \<rparr> # zs,
                          swap_request_slots_retry_reencounter_count :=
                            swap_request_slots_retry_reencounter_count lg + 1,
                          swap_request_id_read := swap_request_id_read lg + 1 \<rparr>,
                       ts))"
  proof
    assume a: "\<not> SwapRequestSlotIsReadable v
      \<and> (\<exists>r\<in>set (swap_request_slots_to_retry lg). slot r = s)"
    then have ex: "\<exists>r\<in>set (swap_request_slots_to_retry lg). slot r = s" by simp
    from set_next_id_split [OF ex, of n] obtain ys r zs
      where sp: "swap_request_slots_to_retry lg = ys @ r # zs" "slot r = s"
        "\<forall>y\<in>set ys. slot y \<noteq> s"
        "set_next_id s n (swap_request_slots_to_retry lg) = ys @ r\<lparr> next_id := n \<rparr> # zs"
      by blast
    have "GatherNew_body lg ts =
        Inr (lg\<lparr> swap_request_slots_retry_count := swap_request_slots_retry_count lg + 1,
                swap_request_slots_to_retry := set_next_id s n (swap_request_slots_to_retry lg),
                swap_request_slots_retry_reencounter_count :=
                  swap_request_slots_retry_reencounter_count lg + 1,
                swap_request_id_read := swap_request_id_read lg + 1 \<rparr>,
             ts)"
      using slots a
      by (auto simp: GatherNew_body_def Let_def GetTlsLoggerThatRequestedSwap_writable
          retry_later_def find_None_slot s_def [symmetric] n_def [symmetric]
          v_def [symmetric])
    with sp show "\<exists>ys r zs.
              swap_request_slots_to_retry lg = ys @ r # zs \<and> slot r = s
              \<and> (\<forall>y\<in>set ys. slot y \<noteq> s)
              \<and> GatherNew_body lg ts =
                  Inr (lg\<lparr> swap_request_slots_retry_count :=
                            swap_request_slots_retry_count lg + 1,
                          swap_request_slots_to_retry := ys @ r\<lparr> next_id := n \<rparr> # zs,
                          swap_request_slots_retry_reencounter_count :=
                            swap_request_slots_retry_reencounter_count lg + 1,
                          swap_request_id_read := swap_request_id_read lg + 1 \<rparr>,
                       ts)"
      by (intro exI [of _ ys] exI [of _ r] exI [of _ zs]) simp
  qed
qed

theorem GatherNewSwapRequests_per_id_witness:
  "GatherNewSwapRequests
     (ex_logger\<lparr> thread_swap_request_slots := [8, 3], swap_request_id := 1 \<rparr>) [] =
     Inr (ex_logger\<lparr> thread_swap_request_slots := [5, 3], swap_request_id := 1,
                      swap_request_id_read := 1 \<rparr>, [8])
   \<and> GatherNewSwapRequests (ex_logger\<lparr> swap_request_id := 1 \<rparr>) [] =
     Inr (ex_logger\<lparr> swap_request_id := 1, swap_request_slots_retry_count := 1,
                      swap_request_slots_to_retry := [\<lparr> slot = 0, next_id = 2 \<rparr>],
                      swap_request_id_read := 1 \<rparr>, [])
   \<and> GatherNewSwapRequests
       (ex_logger\<lparr> swap_request_id := 3, swap_request_id_read := 2,
                    swap_request_slots_to_retry := [\<lparr> slot = 0, next_id = 2 \<rparr>] \<rparr>) [] =
     Inr (ex_logger\<lparr> swap_request_id := 3, swap_request_slots_retry_count := 1,
                      swap_request_slots_to_retry := [\<lparr> slot = 0, next_id = 4 \<rparr>],
                      swap_request_slots_retry_reencounter_count := 1,
                      swap_request_id_read := 3 \<rparr>, [])"
  using
    GatherNewSwapRequests_per_id
      [of "ex_logger\<lparr> thread_swap_request_slots := [8, 3], swap_request_id := 1 \<rparr>" "[]"]
    GatherNewSwapRequests_per_id [of "ex_logger\<lparr> swap_request_id := 1 \<rparr>" "[]"]
    GatherNewSwapRequests_per_id
      [of "ex_logger\<lparr> swap_request_id := 3, swap_request_id_read := 2,
                        swap_request_slots_to_retry := [\<lparr> slot = 0, next_id = 2 \<rparr>] \<rparr>" "[]"]
  by (simp add: ex_logger_def Logger_new_def GatherNew_loop.simps GatherNew_body_def
      GetTlsLoggerThatRequestedSwap_def retry_later_def
      compare_exchange_strong_def Let_def SwapRequestSlotIsReadable_def
      SwapRequestSlotIsWritableValue_def slot_count_def upt_rec)

subsection \<open>Unregistering a thread\<close>

lemma keeps_orphans_refl: "keeps_orphans lg lg"
  by (simp add: keeps_orphans_def)

lemma keeps_orphans_trans:
  "keeps_orphans a b \<Longrightarrow> keeps_orphans b c \<Longrightarrow> keeps_orphans a c"
  by (simp add: keeps_orphans_def)

lemma GetTls_keeps:
  "GetTlsLoggerThatRequestedSwap lg s n = Inr (lg1, p) \<Longrightarrow> keeps_orphans lg lg1"
  by (auto simp: GetTlsLoggerThatRequestedSwap_def Let_def compare_exchange_strong_def
      keeps_orphans_def split: if_splits)

lemma GatherRetry_loop_keeps:
  "GatherRetry_loop rs lg ts = Inr (lg1, ts1) \<Longrightarrow> keeps_orphans lg lg1"
proof (induction rs arbitrary: lg ts)
  case Nil
  then show ?case by (simp add: keeps_orphans_refl)
next
  case (Cons r rs)
  from Cons.prems obtain la p where g: "GetTlsLoggerThatRequestedSwap lg (slot r) (next_id r) = Inr (la, p)"
    by (auto split: sum.splits)
  note k1 = GetTls_keeps [OF g]
  show ?case
  proof (cases "p = 0")
    case False
    with Cons.prems g have "GatherRetry_loop rs la (ts @ [p]) = Inr (lg1, ts1)" by simp
    from Cons.IH [OF this] k1 show ?thesis by (rule keeps_orphans_trans [rotated])
  next
    case True
    with Cons.prems g have "GatherRetry_loop rs
        (la\<lparr> swap_request_slots_to_retry := swap_request_slots_to_retry la @ [r],
              swap_request_slots_retry_retry_count := swap_request_slots_retry_retry_count la + 1 \<rparr>)
        ts = Inr (lg1, ts1)" by simp
    from Cons.IH [OF this] k1 show ?thesis by (simp add: keeps_orphans_def)
  qed
qed

lemma GatherRetrySwapRequests_keeps:
  "GatherRetrySwapRequests lg ts = Inr (lg1, ts1) \<Longrightarrow> keeps_orphans lg lg1"
  by (auto simp: GatherRetrySwapRequests_def keeps_orphans_refl split: if_splits
      dest!: GatherRetry_loop_keeps) (simp add: keeps_orphans_def)

lemma GatherNew_body_keeps:
  "GatherNew_body lg ts = Inr (lg1, ts1) \<Longrightarrow> keeps_orphans lg lg1"
  by (auto simp: GatherNew_body_def Let_def retry_later_def keeps_orphans_def
      split: if_splits sum.splits prod.splits dest!: GetTls_keeps)

lemma GatherNew_loop_keeps:
  "GatherNew_loop e lg ts = Inr (lg1, ts1) \<Longrightarrow> keeps_orphans lg lg1"
proof (induction e lg ts rule: GatherNew_loop.induct)
  case (1 e lg ts)
  show ?case
  proof (cases "swap_request_id_read lg < e")
    case True
    with "1.prems" GatherNew_loop.simps [of e lg ts] obtain la ta
      where body: "GatherNew_body lg ts = Inr (la, ta)"
        and rest: "GatherNew_loop e la ta = Inr (lg1, ts1)"
      by (simp split: sum.splits prod.splits)
    from GatherNew_body_keeps [OF body] "1.IH" [OF True body refl rest]
    show ?thesis by (rule keeps_orphans_trans)
  next
    case False
    with "1.prems" GatherNew_loop.simps [of e lg ts] show ?thesis
      by (simp add: keeps_orphans_refl)
  qed
qed

lemma swap_loop_keeps:
  "swap_loop ts lg = Inr lg1 \<Longrightarrow> keeps_orphans lg lg1"
proof (induction ts arbitrary: lg)
  case Nil
  then show ?case by (simp add: keeps_orphans_refl)
next
  case (Cons p ts)
  from Cons.prems obtain t where t: "tls lg p = Some t"
    by (auto split: option.splits)
  show ?case
  proof (cases "ReadBufferHasBeenConsumed t")
    case True
    with Cons.prems t obtain t1 where "SwapBuffers t = Inr t1"
      and rest: "swap_loop ts (lg\<lparr> tls := (tls lg)(p \<mapsto> t1),
                    threads_to_read := threads_to_read lg @ [p] \<rparr>) = Inr lg1"
      by (auto split: sum.splits)
    from Cons.IH [OF rest] t show ?thesis
      by (auto simp: keeps_orphans_def)
  next
    case False
    with Cons.prems t have rest: "swap_loop ts
        (lg\<lparr> threads_to_swap_deferred := threads_to_swap_deferred lg @ [p] \<rparr>) = Inr lg1"
      by simp
    from Cons.IH [OF rest] show ?thesis
      by (auto simp: keeps_orphans_def)
  qed
qed

lemma IOThread_gather_keeps:
  assumes "IOThread_gather lg = Inr lg1"
  shows "keeps_orphans lg lg1"
proof -
  from assms obtain la ta lb tb
    where a: "GatherRetrySwapRequests (lg\<lparr> threads_to_swap_deferred := [] \<rparr>)
                (threads_to_swap_deferred lg) = Inr (la, ta)"
      and b: "GatherNewSwapRequests la ta = Inr (lb, tb)"
      and c: "swap_loop tb lb = Inr lg1"
    by (auto simp: IOThread_gather_def split: sum.splits)
  from GatherRetrySwapRequests_keeps [OF a]
  have "keeps_orphans lg la" by (simp add: keeps_orphans_def)
  moreover from b have "keeps_orphans la lb"
    by (auto simp: GatherNewSwapRequests_def dest: GatherNew_loop_keeps)
  moreover note swap_loop_keeps [OF c]
  ultimately show ?thesis by (blast intro: keeps_orphans_trans)
qed

lemma CollectTlsLoggerStats_keeps:
  "CollectTlsLoggerStats lg p = Inr lg1 \<Longrightarrow> keeps_orphans lg lg1"
  by (auto simp: CollectTlsLoggerStats_def keeps_orphans_def
      split: option.splits prod.splits if_splits)

lemma CollectAll_keeps:
  "CollectAll ps lg = Inr lg1 \<Longrightarrow> keeps_orphans lg lg1"
proof (induction ps arbitrary: lg)
  case Nil
  then show ?case by (simp add: keeps_orphans_refl)
next
  case (Cons p ps)
  then obtain la where a: "CollectTlsLoggerStats lg p = Inr la" and b: "CollectAll ps la = Inr lg1"
    by (auto split: sum.splits)
  from CollectTlsLoggerStats_keeps [OF a] Cons.IH [OF b] show ?case
    by (rule keeps_orphans_trans)
qed

lemma run_entry_keeps:
  assumes "run_entry e lg = Inr lg1"
  shows "keeps_orphans lg lg1"
proof (cases e)
  case (UserEntry x)
  with assms show ?thesis by (auto simp: keeps_orphans_def)
next
  case (OrphanEntry p)
  with assms show ?thesis
    by (auto simp: keeps_orphans_def split: sum.splits dest!: CollectTlsLoggerStats_keeps)
next
  case ContentionEntry
  with assms obtain la lb
    where a: "CollectAll (sorted_list_of_fset (tls_loggers_registerd lg)) lg = Inr la"
      and b: "CollectAll (tls_logger_orphans la) la = Inr lb"
      and c: "lg1 = log_contention_counters lb"
    by (auto split: sum.splits)
  from c have "keeps_orphans lb lg1"
    by (simp add: log_contention_counters_def keeps_orphans_def)
  with CollectAll_keeps [OF a] CollectAll_keeps [OF b] show ?thesis
    by (blast intro: keeps_orphans_trans)
next
  case (FlushedEntry k)
  with assms show ?thesis by (auto simp: keeps_orphans_def)
qed

lemma run_entries_keeps:
  "run_entries es lg = Inr lg1 \<Longrightarrow> keeps_orphans lg lg1"
proof (induction es arbitrary: lg)
  case Nil
  then show ?case by (simp add: keeps_orphans_refl)
next
  case (Cons e es)
  then obtain la where a: "run_entry e lg = Inr la" and b: "run_entries es la = Inr lg1"
    by (auto split: sum.splits)
  from run_entry_keeps [OF a] Cons.IH [OF b] show ?case
    by (rule keeps_orphans_trans)
qed

lemma process_loop_keeps:
  "process_loop k lg = Inr lg1 \<Longrightarrow> keeps_orphans lg lg1"
proof (induction k lg rule: process_loop.induct)
  case (1 k lg)
  show ?case
  proof (cases "k < length (threads_to_read lg)")
    case False
    with "1.prems" process_loop.simps [of k lg] show ?thesis
      by (simp add: keeps_orphans_refl)
  next
    case True
    with "1.prems" process_loop.simps [of k lg] obtain t
      where t: "tls lg (threads_to_read lg ! k) = Some t"
      by (auto split: option.splits)
    show ?thesis
    proof (cases "StartReadingEntries t")
      case None
      with True t "1.prems" process_loop.simps [of k lg]
      have rest: "process_loop (Suc k)
          (lg\<lparr> start_reading_entries_retry_count := start_reading_entries_retry_count lg + 1 \<rparr>)
          = Inr lg1"
        by simp
      from "1.IH"(1) [OF True t None rest] show ?thesis
        by (simp add: keeps_orphans_def)
    next
      case (Some r)
      obtain t1 es where r: "r = (t1, es)" by (cases r)
      define la where "la = lg\<lparr> tls := (tls lg)(threads_to_read lg ! k \<mapsto> t1),
            async_logger := async_logger lg @ [SetCurrentTracePidTidString (trace_pid_tid t1)] \<rparr>"
      from True t Some r "1.prems" process_loop.simps [of k lg] obtain lb t2
        where run: "run_entries es la = Inr lb"
          and t2: "tls lb (threads_to_read lb ! k) = Some t2"
          and rest: "process_loop (Suc k)
              (lb\<lparr> tls := (tls lb)(threads_to_read lb ! k \<mapsto> FinishReadingEntries t2),
                    threads_to_read := (threads_to_read lb)[k := 0] \<rparr>) = Inr lg1"
        by (auto simp: la_def split: sum.splits option.splits)
      from t have "keeps_orphans lg la"
        by (auto simp: keeps_orphans_def la_def)
      moreover note run_entries_keeps [OF run]
      moreover from t2 have "keeps_orphans lb
          (lb\<lparr> tls := (tls lb)(threads_to_read lb ! k \<mapsto> FinishReadingEntries t2),
                threads_to_read := (threads_to_read lb)[k := 0] \<rparr>)"
        by (auto simp: keeps_orphans_def)
      moreover from "1.IH"(2) [OF True t Some r [symmetric] run [unfolded la_def] t2 rest]
      have "keeps_orphans
          (lb\<lparr> tls := (tls lb)(threads_to_read lb ! k \<mapsto> FinishReadingEntries t2),
                threads_to_read := (threads_to_read lb)[k := 0] \<rparr>) lg1" .
      ultimately show ?thesis by (blast intro: keeps_orphans_trans)
    qed
  qed
qed

lemma RequestSwapBuffers_loop_registry:
  assumes "RequestSwapBuffers_loop lg p i = Some r"
  shows "\<forall>lg'. r = Inr lg' \<longrightarrow> same_registry lg lg'"
proof (rule RequestSwapBuffers_loop.raw_induct
    [where P = "\<lambda>lg p i r. \<forall>lg'. r = Inr lg' \<longrightarrow> same_registry lg lg'", OF _ assms],
    goal_cases)
  case (1 loop lg p i r)
  show ?case
  proof (intro allI impI)
    fix lg'
    assume r: "r = Inr lg'"
    show "same_registry lg lg'"
    proof (cases "thread_swap_request_slots lg ! unat (i mod slot_count lg)
        = SwapRequestSlotIsWritableValue i")
      case True
      with "1"(2) r show ?thesis
        by (auto simp: compare_exchange_strong_def same_registry_def split: if_splits)
    next
      case False
      with "1"(2) r obtain t0 where "loop (lg\<lparr> swap_request_id := swap_request_id lg + 1,
                    tls := (tls lg)(p \<mapsto> RequestSwapBuffersSlotRetried t0) \<rparr>) p (swap_request_id lg)
                  = Some (Inr lg')"
        by (auto simp: compare_exchange_strong_def split: option.splits if_splits)
      from "1"(1) [OF this] show ?thesis
        by (simp add: same_registry_def)
    qed
  qed
qed

lemma TlsLogger_Log_registry:
  assumes "TlsLogger_Log lg p e = Some (Inr lg')"
  shows "same_registry lg lg'"
proof -
  from assms obtain t where t: "tls lg p = Some t"
    by (auto simp: TlsLogger_Log_def split: option.splits)
  with assms obtain t1 w where lock: "Log_lock t (i_write t) 0 = Inr (t1, w)"
    by (auto simp: TlsLogger_Log_def split: sum.splits)
  define lg3 where "lg3 = lg\<lparr> tls := (tls lg)(p \<mapsto> t1\<lparr> entries := (entries t1)
      [unat w := entries t1 ! unat w @ [e]], entry_states := (entry_states t1)[unat w := Unlocked] \<rparr>) \<rparr>"
  have s3: "same_registry lg lg3"
    by (simp add: same_registry_def lg3_def)
  from assms t lock consider "lg' = lg3"
    | lg4 t4 where "RequestSwapBuffers lg3 p = Some (Inr lg4)"
        "lg' = lg4\<lparr> tls := (tls lg4)(p \<mapsto> t4\<lparr> i_write_prev := w \<rparr>) \<rparr>"
    unfolding lg3_def
    by (auto simp: TlsLogger_Log_def Let_def compare_exchange_strong_def
        split: if_splits option.splits sum.splits)
  then show ?thesis
  proof cases
    case 1
    with s3 show ?thesis by simp
  next
    case 2
    from 2(1) have "RequestSwapBuffers_loop (lg3\<lparr> swap_request_id := swap_request_id lg3 + 1 \<rparr>)
        p (swap_request_id lg3) = Some (Inr lg4)"
      by (auto simp: RequestSwapBuffers_def split: if_splits)
    from RequestSwapBuffers_loop_registry [OF this] have "same_registry lg3 lg4"
      by (simp add: same_registry_def)
    with s3 2(2) show ?thesis
      by (simp add: same_registry_def)
  qed
qed

lemma tls_erase_orphans:
  "tls (erase_orphans ps lg) q = (if q \<in> set ps then None else tls lg q)"
  by (induction ps arbitrary: lg) auto

lemma orphans_erase_orphans:
  "tls_logger_orphans (erase_orphans ps lg) = fold remove1 ps (tls_logger_orphans lg)"
  by (induction ps arbitrary: lg) auto

lemma set_fold_remove1:
  "distinct xs \<Longrightarrow> set (fold remove1 ps xs) = set xs - set ps"
  by (induction ps arbitrary: xs) auto

lemma IOThread_retire_result:
  "tls (IOThread_retire lg) q = (if q \<in> set (orphans_to_destroy lg) then None else tls lg q)"
  "tls_logger_orphans (IOThread_retire lg)
     = fold remove1 (orphans_to_destroy lg) (tls_logger_orphans lg)"
  "orphans_to_destroy (IOThread_retire lg) = []"
  by (simp_all add: IOThread_retire_def tls_erase_orphans orphans_erase_orphans)

lemma ex_unregister:
  "UnRegisterTlsLogger (ex_logger\<lparr> tls_loggers_registerd := {|8|} \<rparr>) 8 =
     Some (Inr (ex_logger\<lparr> thread_swap_request_slots := [8, 3], swap_request_id := 1,
       tls_logger_orphans := [8],
       tls := [8 \<mapsto> ex_tls\<lparr> entries := [[], [OrphanEntry 8]], i_write_prev := 1 \<rparr>] \<rparr>))"
  by (simp add: UnRegisterTlsLogger_def UnRegister_adopt_def UnRegister_erase_def
      TlsLogger_Log_def ex_logger_def Logger_new_def ex_tls_def TlsLogger_new_def
      Log_lock.simps compare_exchange_strong_def Let_def RequestSwapBuffers_def
      RequestSwapBuffers_loop.simps SwapRequestSlotIsReadable_def
      SwapRequestSlotIsWritableValue_def slot_count_def upt_rec)

lemma ex_gather:
  "IOThread_gather (ex_logger\<lparr> thread_swap_request_slots := [8, 3], swap_request_id := 1,
       tls_logger_orphans := [8],
       tls := [8 \<mapsto> ex_tls\<lparr> entries := [[], [OrphanEntry 8]], i_write_prev := 1 \<rparr>] \<rparr>) =
     Inr (ex_logger\<lparr> thread_swap_request_slots := [5, 3], swap_request_id := 1,
       swap_request_id_read := 1, threads_to_read := [8],
       tls_logger_orphans := [8],
       tls := [8 \<mapsto> ex_tls\<lparr> entries := [[], [OrphanEntry 8]], i_write_prev := 1,
                  entry_states := [Unlocked, Unlocked], i_write := 0, i_read := 1,
                  unread_swaps := 1 \<rparr>] \<rparr>)"
  by (simp add: IOThread_gather_def GatherRetrySwapRequests_def GatherNewSwapRequests_def
      GatherNew_loop.simps GatherNew_body_def GetTlsLoggerThatRequestedSwap_def
      ReadBufferHasBeenConsumed_def SwapBuffers_def
      ex_logger_def Logger_new_def ex_tls_def TlsLogger_new_def
      compare_exchange_strong_def Let_def SwapRequestSlotIsReadable_def
      SwapRequestSlotIsWritableValue_def slot_count_def upt_rec)

lemma ex_process:
  "IOThread_process (ex_logger\<lparr> thread_swap_request_slots := [5, 3], swap_request_id := 1,
       swap_request_id_read := 1, threads_to_read := [8],
       tls_logger_orphans := [8],
       tls := [8 \<mapsto> ex_tls\<lparr> entries := [[], [OrphanEntry 8]], i_write_prev := 1,
                  entry_states := [Unlocked, Unlocked], i_write := 0, i_read := 1,
                  unread_swaps := 1 \<rparr>] \<rparr>) =
     Inr (ex_logger\<lparr> thread_swap_request_slots := [5, 3], swap_request_id := 1,
       swap_request_id_read := 1, threads_to_read := [],
       tls_logger_orphans := [8], orphans_to_destroy := [8],
       async_logger := [SetCurrentTracePidTidString ''pid 1 tid 1''],
       tls := [8 \<mapsto> ex_tls\<lparr> entries := [[], []], i_write_prev := 1,
                  entry_states := [Unlocked, ReadLock], i_write := 0, i_read := 1,
                  unread_swaps := 0 \<rparr>] \<rparr>)"
  by (simp add: IOThread_process_def process_loop.simps StartReadingEntries_def
      FinishReadingEntries_def RemoveValue_def CollectTlsLoggerStats_def
      ReportLogCasFailCount_def ReportSwapBuffersSlotRetryCount_def
      ex_logger_def Logger_new_def ex_tls_def TlsLogger_new_def
      compare_exchange_strong_def Let_def)


section \<open>The invariant of the running program\<close>

subsection \<open>Steps on the view by roles\<close>

lemma ur_le_one: "(u :: size_t) \<le> 1 \<longleftrightarrow> u = 0 \<or> u = 1"
proof
  assume "u \<le> 1"
  then have "u < 2"
    by (simp add: word_le_nat_alt word_less_nat_alt)
  then show "u = 0 \<or> u = 1" by (rule word_lt_two)
qed auto

lemma a_load:
  assumes "ainv q (ALoad e) rel pd nt dlv sub"
  shows "ainv q (ACas e True False) rel pd nt dlv sub"
  using assms unfolding ainv_def by auto

lemma a_cas_ok_w:
  assumes "ainv q (ACas e True r) rel pd nt dlv sub" and "write_state q = Unlocked"
  shows "ainv (q\<lparr> write_state := WriteLock \<rparr>) (AApp e True) rel pd nt dlv sub"
  using assms unfolding ainv_def by auto

lemma a_cas_ok_r:
  assumes "ainv q (ACas e False r) rel pd nt dlv sub" and "read_state q = Unlocked"
  shows "ainv (q\<lparr> read_state := WriteLock \<rparr>) (AApp e False) rel pd nt dlv sub"
  using assms unfolding ainv_def by (cases rel) auto

lemma a_cas_fail_w:
  assumes "ainv q (ACas e True r) rel pd nt dlv sub" and "write_state q \<noteq> Unlocked"
  shows False
  using assms unfolding ainv_def by (cases "write_state q") auto

lemma a_cas_fail_r:
  assumes "ainv q (ACas e False r) rel pd nt dlv sub" and "read_state q \<noteq> Unlocked"
  shows "\<not> r \<and> ainv q (ACas e True True) rel pd nt dlv sub"
  using assms unfolding ainv_def by (cases "read_state q") auto

lemma a_append_w:
  assumes "ainv q (AApp e True) rel pd nt dlv sub"
  shows "ainv (q\<lparr> write_buf := write_buf q @ [e] \<rparr>) (AUnl True) rel pd nt dlv sub"
  using assms unfolding ainv_def by auto

lemma a_append_r:
  assumes "ainv q (AApp e False) rel pd nt dlv sub"
  shows "ainv (q\<lparr> read_buf := read_buf q @ [e] \<rparr>) (AUnl False) rel pd nt dlv sub"
  using assms unfolding ainv_def by (cases rel) auto

lemma a_unlock_state:
  assumes "ainv q (AUnl b) rel pd nt dlv sub"
  shows "(if b then write_state q else read_state q) = WriteLock"
  using assms unfolding ainv_def by auto

lemma a_unlock_req:
  assumes "ainv q (AUnl True) rel pd nt dlv sub" and "last_in_read q"
  shows "ainv (q\<lparr> write_state := Unlocked \<rparr>) (AReq True) rel pd nt dlv sub"
  using assms unfolding ainv_def by auto

lemma a_unlock_req_r:
  assumes "ainv q (AUnl False) rel pd nt dlv sub" and "\<not> last_in_read q"
  shows False
  using assms unfolding ainv_def by auto

lemma a_unlock_ret_w:
  assumes "ainv q (AUnl True) rel pd nt dlv sub" and "\<not> last_in_read q" and "entered pc'"
  shows "ainv (q\<lparr> write_state := Unlocked \<rparr>) pc' rel pd nt dlv (sub @ in_flight pc')"
  using assms unfolding ainv_def by (cases pc') auto

lemma a_unlock_ret_r:
  assumes "ainv q (AUnl False) rel pd nt dlv sub" and "last_in_read q" and "entered pc'"
  shows "ainv (q\<lparr> read_state := Unlocked \<rparr>) pc' rel pd nt dlv (sub @ in_flight pc')"
  using assms unfolding ainv_def by (cases pc') auto

lemma a_req_flag:
  assumes "ainv q (AReq b) rel pd nt dlv sub"
  shows "b"
  using assms unfolding ainv_def by auto

lemma a_req_same:
  assumes "ainv q (AReq b) rel pd nt dlv sub"
  shows "ainv q (AReq b) rel pd nt dlv sub"
  using assms .

lemma a_req_ok:
  assumes "ainv q (AReq True) rel pd nt dlv sub" and "entered pc'"
  shows "ainv (q\<lparr> last_in_read := False \<rparr>) pc' rel (Suc pd) nt dlv (sub @ in_flight pc')"
  using assms unfolding ainv_def by (cases pc') auto

lemma a_out:
  assumes "ainv q AOut rel pd nt dlv sub" and "entered pc'"
  shows "ainv q pc' rel pd nt dlv (sub @ in_flight pc')"
  using assms unfolding ainv_def by (cases pc') auto

lemma a_swap_cas:
  assumes "ainv q pc Neutral pd nt dlv sub" and "unread_n q = 0" and "0 < pd"
  shows "read_state q = ReadLock \<and> ainv (q\<lparr> read_state := Unlocked \<rparr>) pc Midswap (pd - 1) nt dlv sub"
  using assms unfolding ainv_def by (cases pc) auto

lemma a_publish:
  assumes "ainv q pc Midswap pd nt dlv sub"
  shows "ainv \<lparr> read_state = write_state q, write_state = read_state q, read_buf = write_buf q, write_buf = read_buf q, last_in_read = True, unread_n = unread_n q + 1 \<rparr>
           (flip_pc pc) Neutral pd (Suc nt) dlv sub"
  using assms unfolding ainv_def by (cases pc) auto

lemma a_start:
  assumes "ainv q pc Neutral pd nt dlv sub" and "read_state q = Unlocked" and "0 < nt"
  shows "ainv (q\<lparr> read_state := ReadLock \<rparr>) pc (Reading (read_buf q)) pd nt dlv sub"
  using assms unfolding ainv_def by (cases pc) auto

lemma a_run:
  assumes "ainv q pc (Reading (e # es)) pd nt dlv sub"
  shows "ainv q pc (Reading es) pd nt (dlv @ [e]) sub"
  using assms unfolding ainv_def by (cases pc) auto

lemma a_finish:
  assumes "ainv q pc (Reading []) pd nt dlv sub"
  shows "ainv (q\<lparr> read_buf := [], unread_n := unread_n q - 1 \<rparr>) pc Neutral pd (nt - 1) dlv sub"
  using assms unfolding ainv_def by (cases pc) auto


subsection \<open>Steps of a thread on its TlsLogger\<close>

lemma wf_index:
  assumes "tls_wf t" "i_write t \<noteq> i_read t" "i < 2"
  shows "i = i_write t \<or> i = i_read t"
    and "i XOR 1 = (if i = i_write t then i_read t else i_write t)"
    and "unat (i_write t) \<noteq> unat (i_read t)"
    and "unat i < length (entry_states t)" and "unat i < length (entries t)"
    and "unat (i_read t) < 2" and "unat (i_write t) < 2"
proof -
  from assms have r: "i_read t = 0 \<or> i_read t = 1" and w: "i_write t = 0 \<or> i_write t = 1"
    and i: "i = 0 \<or> i = 1"
    by (auto simp: tls_wf_def dest: word_lt_two)
  from r w i assms(2) show "i = i_write t \<or> i = i_read t"
    and "i XOR 1 = (if i = i_write t then i_read t else i_write t)"
    and "unat (i_write t) \<noteq> unat (i_read t)"
    and "unat (i_read t) < 2" and "unat (i_write t) < 2"
    by auto
  from i assms(1) show "unat i < length (entry_states t)" and "unat i < length (entries t)"
    by (auto simp: tls_wf_def)
qed

lemma abs_tlq_state:
  assumes "tls_wf t" "i_write t \<noteq> i_read t" "i < 2"
  shows "abs_tlq (t\<lparr> entry_states := (entry_states t)[unat i := x] \<rparr>) =
           (if i = i_write t then (abs_tlq t)\<lparr> write_state := x \<rparr> else (abs_tlq t)\<lparr> read_state := x \<rparr>)"
  using wf_index [OF assms]
  by (auto simp: abs_tlq_def)

lemma abs_tlq_append:
  assumes "tls_wf t" "i_write t \<noteq> i_read t" "i < 2"
  shows "abs_tlq (t\<lparr> entries := (entries t)[unat i := entries t ! unat i @ [e]] \<rparr>) =
           (if i = i_write t then (abs_tlq t)\<lparr> write_buf := write_buf (abs_tlq t) @ [e] \<rparr>
            else (abs_tlq t)\<lparr> read_buf := read_buf (abs_tlq t) @ [e] \<rparr>)"
  using wf_index [OF assms]
  by (auto simp: abs_tlq_def)

lemma abs_tlq_at:
  assumes "tls_wf t" "i_write t \<noteq> i_read t" "i < 2"
  shows "entry_states t ! unat i = (if i = i_write t then write_state (abs_tlq t) else read_state (abs_tlq t))"
  using wf_index [OF assms]
  by (auto simp: abs_tlq_def)

lemma tls_wf_updates:
  assumes "tls_wf t"
  shows "tls_wf (t\<lparr> entry_states := (entry_states t)[k := x] \<rparr>)"
    and "tls_wf (t\<lparr> entries := (entries t)[k := y] \<rparr>)"
    and "tls_wf (t\<lparr> log_cas_fail_count := c \<rparr>)"
    and "tls_wf (t\<lparr> swap_buffers_slot_retry_count := c \<rparr>)"
    and "i < 2 \<Longrightarrow> tls_wf (t\<lparr> i_write_prev := i \<rparr>)"
    and "tls_wf (t\<lparr> unread_swaps := u \<rparr>)"
  using assms by (simp_all add: tls_wf_def)

lemma tlq_okD:
  assumes "tlq_ok a t pc rel pd nt dlv sub"
  shows "a \<noteq> 0" "SwapRequestSlotIsReadable a" "tls_wf t" "i_write t \<noteq> i_read t" "pc_wf pc"
    "ainv (abs_tlq t) (abs_pc t pc) rel pd nt dlv sub"
  using assms by (simp_all add: tlq_ok_def)

lemma c_load:
  assumes "tlq_ok a t (Log_load e c) rel pd nt dlv sub"
  shows "tlq_ok a t (Log_cas e (i_write t) 0 c) rel pd nt dlv sub"
  using assms a_load [of "abs_tlq t" e rel pd nt dlv sub]
  by (simp add: tlq_ok_def tls_wf_def)

lemma c_cas_ok:
  assumes ok: "tlq_ok a t (Log_cas e i n c) rel pd nt dlv sub"
    and u: "entry_states t ! unat i = Unlocked"
  shows "tlq_ok a (t\<lparr> entry_states := (entry_states t)[unat i := WriteLock] \<rparr>)
           (Log_append e i c) rel pd nt dlv sub"
proof -
  note d = tlq_okD [OF ok]
  from d(5) have i: "i < 2" by simp
  note at = abs_tlq_at [OF d(3,4) i] and st = abs_tlq_state [OF d(3,4) i]
  show ?thesis
  proof (cases "i = i_write t")
    case True
    with d(6) u at have "ainv ((abs_tlq t)\<lparr> write_state := WriteLock \<rparr>) (AApp e True) rel pd nt dlv sub"
      by (intro a_cas_ok_w [where r = "n \<noteq> 0"]) simp_all
    with True d i show ?thesis
      unfolding tlq_ok_def st by (simp add: tls_wf_updates)
  next
    case False
    with d(6) u at have "ainv ((abs_tlq t)\<lparr> read_state := WriteLock \<rparr>) (AApp e False) rel pd nt dlv sub"
      by (intro a_cas_ok_r [where r = "n \<noteq> 0"]) simp_all
    with False d i show ?thesis
      unfolding tlq_ok_def st by (simp add: tls_wf_updates)
  qed
qed

lemma abs_tlq_counters:
  "abs_tlq (t\<lparr> log_cas_fail_count := x \<rparr>) = abs_tlq t"
  "abs_tlq (t\<lparr> swap_buffers_slot_retry_count := x \<rparr>) = abs_tlq t"
  "abs_pc (t\<lparr> log_cas_fail_count := x \<rparr>) pc = abs_pc t pc"
  "abs_pc (t\<lparr> swap_buffers_slot_retry_count := x \<rparr>) pc = abs_pc t pc"
  by (simp_all add: abs_tlq_def) (cases pc; simp)+

lemma c_counters:
  assumes "tlq_ok a t pc rel pd nt dlv sub"
  shows "tlq_ok a (t\<lparr> log_cas_fail_count := x \<rparr>) pc rel pd nt dlv sub"
    and "tlq_ok a (t\<lparr> swap_buffers_slot_retry_count := x \<rparr>) pc rel pd nt dlv sub"
  using assms by (simp_all add: tlq_ok_def abs_tlq_counters tls_wf_updates)

lemma c_cas_fail:
  assumes ok: "tlq_ok a t (Log_cas e i n c) rel pd nt dlv sub"
    and u: "entry_states t ! unat i \<noteq> Unlocked"
  shows "n = 0 \<and> tlq_ok a (t\<lparr> log_cas_fail_count := x \<rparr>) (Log_cas e (i XOR 1) (n + 1) c)
           rel pd nt dlv sub"
proof -
  note d = tlq_okD [OF ok]
  from d(5) have i: "i < 2" by simp
  note at = abs_tlq_at [OF d(3,4) i] and ix = wf_index [OF d(3,4) i]
  show ?thesis
  proof (cases "i = i_write t")
    case True
    with d(6) u at have False
      by (intro a_cas_fail_w [where r = "n \<noteq> 0" and q = "abs_tlq t"]) simp_all
    then show ?thesis ..
  next
    case False
    with d(6) u at have r: "\<not> n \<noteq> 0 \<and> ainv (abs_tlq t) (ACas e True True) rel pd nt dlv sub"
      by (intro a_cas_fail_r [where r = "n \<noteq> 0"]) simp_all
    from False ix(2) have x: "i XOR 1 = i_write t" by simp
    from d(3) have "i_write t < 2" by (simp add: tls_wf_def)
    with r x d show ?thesis
      by (simp add: tlq_ok_def abs_tlq_counters tls_wf_updates)
  qed
qed

lemma c_append:
  assumes ok: "tlq_ok a t (Log_append e i c) rel pd nt dlv sub"
  shows "tlq_ok a (t\<lparr> entries := (entries t)[unat i := entries t ! unat i @ [e]] \<rparr>)
           (Log_unlock i c) rel pd nt dlv sub"
proof -
  note d = tlq_okD [OF ok]
  from d(5) have i: "i < 2" by simp
  note ap = abs_tlq_append [OF d(3,4) i]
  show ?thesis
  proof (cases "i = i_write t")
    case True
    with d(6) have "ainv ((abs_tlq t)\<lparr> write_buf := write_buf (abs_tlq t) @ [e] \<rparr>) (AUnl True) rel pd nt dlv sub"
      by (intro a_append_w) simp
    with True d i show ?thesis
      unfolding tlq_ok_def ap by (simp add: tls_wf_updates)
  next
    case False
    with d(6) have "ainv ((abs_tlq t)\<lparr> read_buf := read_buf (abs_tlq t) @ [e] \<rparr>) (AUnl False) rel pd nt dlv sub"
      by (intro a_append_r) simp
    with False d i show ?thesis
      unfolding tlq_ok_def ap by (simp add: tls_wf_updates)
  qed
qed

lemma entered_Log_return: "entered (abs_pc t (Log_return c))"
  by (cases c) simp_all

lemma in_flight_Log_return: "in_flight (abs_pc t (Log_return c)) = entering (Log_return c)"
  by (cases c) simp_all

lemma pc_wf_Log_return: "pc_wf (Log_return c)"
  by (cases c) simp_all

lemma abs_pc_Log_return: "abs_pc t (Log_return c) = abs_pc t' (Log_return c)"
  by (cases c) simp_all

lemma c_unlock:
  assumes ok: "tlq_ok a t (Log_unlock i c) rel pd nt dlv sub"
  shows "entry_states t ! unat i = WriteLock"
    and "i_write_prev t \<noteq> i \<Longrightarrow>
         tlq_ok a (t\<lparr> entry_states := (entry_states t)[unat i := Unlocked] \<rparr>) (Req_fetch i c)
           rel pd nt dlv sub"
    and "i_write_prev t = i \<Longrightarrow>
         tlq_ok a (t\<lparr> entry_states := (entry_states t)[unat i := Unlocked] \<rparr>) (Log_return c)
           rel pd nt dlv (sub @ entering (Log_return c))"
proof -
  note d = tlq_okD [OF ok]
  from d(5) have i: "i < 2" by simp
  note at = abs_tlq_at [OF d(3,4) i] and st = abs_tlq_state [OF d(3,4) i]
    and ix = wf_index [OF d(3,4) i]
  from d(3) have p: "i_write_prev t < 2" by (simp add: tls_wf_def)
  note px = wf_index(1) [OF d(3,4) p]
  from a_unlock_state [of "abs_tlq t" "i = i_write t" rel pd nt dlv sub] d(6) at
  show "entry_states t ! unat i = WriteLock"
    by (simp split: if_splits)
  {
    assume ne: "i_write_prev t \<noteq> i"
    show "tlq_ok a (t\<lparr> entry_states := (entry_states t)[unat i := Unlocked] \<rparr>) (Req_fetch i c)
           rel pd nt dlv sub"
    proof (cases "i = i_write t")
      case True
      with ne px d(4) have "last_in_read (abs_tlq t)" by (auto simp: abs_tlq_def)
      with True d(6) have "ainv ((abs_tlq t)\<lparr> write_state := Unlocked \<rparr>) (AReq True) rel pd nt dlv sub"
        by (intro a_unlock_req) simp_all
      with True d i show ?thesis
        unfolding tlq_ok_def st by (simp add: tls_wf_updates)
    next
      case False
      with ix(1) have "i = i_read t" by simp
      with ne have "\<not> last_in_read (abs_tlq t)" by (auto simp: abs_tlq_def)
      with False d(6) have False
        by (intro a_unlock_req_r [of "abs_tlq t"]) simp_all
      then show ?thesis ..
    qed
  }
  {
    assume eq: "i_write_prev t = i"
    show "tlq_ok a (t\<lparr> entry_states := (entry_states t)[unat i := Unlocked] \<rparr>) (Log_return c)
           rel pd nt dlv (sub @ entering (Log_return c))"
    proof (cases "i = i_write t")
      case True
      with eq d(4) have "\<not> last_in_read (abs_tlq t)" by (auto simp: abs_tlq_def)
      with True d(6)
      have "ainv ((abs_tlq t)\<lparr> write_state := Unlocked \<rparr>) (abs_pc t (Log_return c)) rel pd nt dlv
              (sub @ in_flight (abs_pc t (Log_return c)))"
        by (intro a_unlock_ret_w entered_Log_return) simp_all
      with True d i show ?thesis
        unfolding tlq_ok_def st
          abs_pc_Log_return [of "t\<lparr> entry_states := (entry_states t)[unat i := Unlocked] \<rparr>" c t]
        by (simp add: tls_wf_updates in_flight_Log_return pc_wf_Log_return)
    next
      case False
      with ix(1) have "i = i_read t" by simp
      with eq have "last_in_read (abs_tlq t)" by (auto simp: abs_tlq_def)
      with False d(6)
      have "ainv ((abs_tlq t)\<lparr> read_state := Unlocked \<rparr>) (abs_pc t (Log_return c)) rel pd nt dlv
              (sub @ in_flight (abs_pc t (Log_return c)))"
        by (intro a_unlock_ret_r entered_Log_return) simp_all
      with False d i show ?thesis
        unfolding tlq_ok_def st
          abs_pc_Log_return [of "t\<lparr> entry_states := (entry_states t)[unat i := Unlocked] \<rparr>" c t]
        by (simp add: tls_wf_updates in_flight_Log_return pc_wf_Log_return)
    qed
  }
qed

lemma c_req_fetch:
  assumes "tlq_ok a t (Req_fetch i c) rel pd nt dlv sub"
  shows "tlq_ok a t (Req_cas i r c) rel pd nt dlv sub"
  using assms by (simp add: tlq_ok_def)

lemma c_req_retry:
  assumes "tlq_ok a t (Req_cas i r c) rel pd nt dlv sub"
  shows "tlq_ok a (RequestSwapBuffersSlotRetried t) (Req_fetch i c) rel pd nt dlv sub"
  using assms
  by (simp add: tlq_ok_def RequestSwapBuffersSlotRetried_def abs_tlq_counters tls_wf_updates)

lemma c_req_ok:
  assumes ok: "tlq_ok a t (Req_cas i r c) rel pd nt dlv sub"
  shows "tlq_ok a (t\<lparr> i_write_prev := i \<rparr>) (Log_return c) rel (Suc pd) nt dlv
           (sub @ entering (Log_return c))"
proof -
  note d = tlq_okD [OF ok]
  from d(5) have i: "i < 2" by simp
  from a_req_flag [of "abs_tlq t" "i = i_write t" rel pd nt dlv sub] d(6)
  have w: "i = i_write t" by simp
  with d(6)
  have "ainv ((abs_tlq t)\<lparr> last_in_read := False \<rparr>) (abs_pc t (Log_return c)) rel (Suc pd) nt dlv
          (sub @ in_flight (abs_pc t (Log_return c)))"
    by (intro a_req_ok entered_Log_return) simp_all
  moreover from w d(4) have "abs_tlq (t\<lparr> i_write_prev := i \<rparr>) = (abs_tlq t)\<lparr> last_in_read := False \<rparr>"
    by (simp add: abs_tlq_def)
  ultimately show ?thesis
    using d i
    unfolding tlq_ok_def abs_pc_Log_return [of "t\<lparr> i_write_prev := i \<rparr>" c t]
    by (simp add: tls_wf_updates in_flight_Log_return pc_wf_Log_return)
qed

lemma c_out:
  assumes ok: "tlq_ok a t pc rel pd nt dlv sub" and out: "abs_pc t pc = AOut"
    and pc': "entered (abs_pc t pc')" "pc_wf pc'"
  shows "tlq_ok a t pc' rel pd nt dlv (sub @ in_flight (abs_pc t pc'))"
  using assms a_out [of "abs_tlq t" rel pd nt dlv sub "abs_pc t pc'"]
  by (simp add: tlq_ok_def)


subsection \<open>Steps of the I/O thread on a TlsLogger\<close>

lemma abs_pc_same_write:
  "i_write t' = i_write t \<Longrightarrow> abs_pc t' pc = abs_pc t pc"
  by (cases pc) simp_all

lemma c_swap_cas:
  assumes ok: "tlq_ok a t pc Neutral pd nt dlv sub"
    and u: "unread_swaps t = 0" and pd: "0 < pd"
  shows "entry_states t ! unat (i_read t) = ReadLock"
    and "tlq_ok a (t\<lparr> entry_states := (entry_states t)[unat (i_read t) := Unlocked] \<rparr>) pc
           Midswap (pd - 1) nt dlv sub"
proof -
  note d = tlq_okD [OF ok]
  from d(3) have i: "i_read t < 2" by (simp add: tls_wf_def)
  note st = abs_tlq_state [OF d(3,4) i]
  from u have "unread_n (abs_tlq t) = 0" by (simp add: abs_tlq_def)
  from a_swap_cas [OF d(6) this pd]
  have r: "read_state (abs_tlq t) = ReadLock"
    and n: "ainv ((abs_tlq t)\<lparr> read_state := Unlocked \<rparr>) (abs_pc t pc) Midswap (pd - 1) nt dlv sub"
    by simp_all
  from r show "entry_states t ! unat (i_read t) = ReadLock"
    by (simp add: abs_tlq_def)
  from n d show "tlq_ok a (t\<lparr> entry_states := (entry_states t)[unat (i_read t) := Unlocked] \<rparr>)
      pc Midswap (pd - 1) nt dlv sub"
    unfolding tlq_ok_def st
    by (simp add: tls_wf_updates
        abs_pc_same_write [of "t\<lparr> entry_states := (entry_states t)[unat (i_read t) := Unlocked] \<rparr>" t])
qed

lemma abs_pc_flip:
  assumes "tls_wf t" "i_write t \<noteq> i_read t" "pc_wf pc" "i_write t' = i_read t"
  shows "abs_pc t' pc = flip_pc (abs_pc t pc)"
proof (cases pc)
  case (Log_cas e i n c)
  with assms(3) have "i < 2" by simp
  from wf_index(1) [OF assms(1,2) this] assms(2,4) Log_cas show ?thesis by auto
next
  case (Log_append e i c)
  with assms(3) have "i < 2" by simp
  from wf_index(1) [OF assms(1,2) this] assms(2,4) Log_append show ?thesis by auto
next
  case (Log_unlock i c)
  with assms(3) have "i < 2" by simp
  from wf_index(1) [OF assms(1,2) this] assms(2,4) Log_unlock show ?thesis by auto
next
  case (Req_fetch i c)
  with assms(3) have "i < 2" by simp
  from wf_index(1) [OF assms(1,2) this] assms(2,4) Req_fetch show ?thesis by auto
next
  case (Req_cas i r c)
  with assms(3) have "i < 2" by simp
  from wf_index(1) [OF assms(1,2) this] assms(2,4) Req_cas show ?thesis by auto
qed simp_all

lemma c_publish:
  assumes ok: "tlq_ok a t pc Midswap pd nt dlv sub"
  shows "tlq_ok a (t\<lparr> i_write := i_read t, i_read := i_read t XOR 1,
                      unread_swaps := unread_swaps t + 1 \<rparr>) pc Neutral pd (Suc nt) dlv sub"
proof -
  note d = tlq_okD [OF ok]
  from d(3) have i: "i_read t < 2" and p: "i_write_prev t < 2" by (simp_all add: tls_wf_def)
  from wf_index(2) [OF d(3,4) i] d(4) have x: "i_read t XOR 1 = i_write t" by simp
  define t' where "t' = t\<lparr> i_write := i_read t, i_read := i_read t XOR 1,
                      unread_swaps := unread_swaps t + 1 \<rparr>"
  from d(6) have "\<not> last_in_read (abs_tlq t)"
    unfolding ainv_def by simp
  with wf_index(1) [OF d(3,4) p] have "i_write_prev t = i_write t"
    by (auto simp: abs_tlq_def)
  with x have q: "abs_tlq t' = \<lparr> read_state = write_state (abs_tlq t), write_state = read_state (abs_tlq t), read_buf = write_buf (abs_tlq t),
      write_buf = read_buf (abs_tlq t), last_in_read = True, unread_n = unread_n (abs_tlq t) + 1 \<rparr>"
    by (simp add: abs_tlq_def t'_def)
  have pc: "abs_pc t' pc = flip_pc (abs_pc t pc)"
    using d(3,4,5) by (rule abs_pc_flip) (simp add: t'_def)
  from d(3) x have wf: "tls_wf t'"
    by (simp add: tls_wf_def t'_def)
  from x d(4) have ne: "i_write t' \<noteq> i_read t'"
    by (simp add: t'_def)
  from a_publish [OF d(6)] q pc wf ne d show ?thesis
    unfolding t'_def [symmetric] by (simp add: tlq_ok_def)
qed

lemma c_start:
  assumes ok: "tlq_ok a t pc Neutral pd nt dlv sub"
    and u: "entry_states t ! unat (i_read t) = Unlocked" and nt: "0 < nt"
  shows "tlq_ok a (t\<lparr> entry_states := (entry_states t)[unat (i_read t) := ReadLock] \<rparr>) pc
           (Reading (entries t ! unat (i_read t))) pd nt dlv sub"
proof -
  note d = tlq_okD [OF ok]
  from d(3) have i: "i_read t < 2" by (simp add: tls_wf_def)
  note st = abs_tlq_state [OF d(3,4) i]
  from u have "read_state (abs_tlq t) = Unlocked" by (simp add: abs_tlq_def)
  from a_start [OF d(6) this nt]
  have "ainv ((abs_tlq t)\<lparr> read_state := ReadLock \<rparr>) (abs_pc t pc)
          (Reading (entries t ! unat (i_read t))) pd nt dlv sub"
    by (simp add: abs_tlq_def)
  with d show ?thesis
    unfolding tlq_ok_def st
    by (simp add: tls_wf_updates
        abs_pc_same_write [of "t\<lparr> entry_states := (entry_states t)[unat (i_read t) := ReadLock] \<rparr>" t])
qed

lemma c_run:
  assumes "tlq_ok a t pc (Reading (e # es)) pd nt dlv sub"
  shows "tlq_ok a t pc (Reading es) pd nt (dlv @ [e]) sub"
  using assms a_run [of "abs_tlq t" "abs_pc t pc" e es pd nt dlv sub]
  by (simp add: tlq_ok_def)

lemma c_finish:
  assumes ok: "tlq_ok a t pc (Reading []) pd nt dlv sub"
  shows "tlq_ok a (FinishReadingEntries t) pc Neutral pd (nt - 1) dlv sub"
proof -
  note d = tlq_okD [OF ok]
  from d(3) have i: "i_read t < 2" by (simp add: tls_wf_def)
  note ix = wf_index [OF d(3,4) i]
  from ix(3,5) have q: "abs_tlq (FinishReadingEntries t)
      = (abs_tlq t)\<lparr> read_buf := [], unread_n := unread_n (abs_tlq t) - 1 \<rparr>"
    by (simp add: abs_tlq_def FinishReadingEntries_def)
  have pc: "abs_pc (FinishReadingEntries t) pc = abs_pc t pc"
    by (rule abs_pc_same_write) (simp add: FinishReadingEntries_def)
  from d(3) have wf: "tls_wf (FinishReadingEntries t)"
    by (simp add: tls_wf_def FinishReadingEntries_def)
  from a_finish [OF d(6)] q pc wf d show ?thesis
    by (simp add: tlq_ok_def) (simp add: FinishReadingEntries_def)
qed


subsection \<open>The ring and the lists of the I/O thread\<close>

lemma count_list_update:
  "i < length xs \<Longrightarrow>
   count_list (xs[i := y]) a + (if xs ! i = a then 1 else 0)
     = count_list xs a + (if y = a then 1 else 0)"
proof (induction xs arbitrary: i)
  case Nil
  then show ?case by simp
next
  case (Cons x xs)
  show ?case
  proof (cases i)
    case 0
    then show ?thesis by simp
  next
    case (Suc j)
    with Cons.prems have "j < length xs" by simp
    from Cons.IH [OF this] Suc show ?thesis by (auto split: if_splits)
  qed
qed

lemma count_list_update_other:
  assumes "i < length xs" "xs ! i \<noteq> a" "y \<noteq> a"
  shows "count_list (xs[i := y]) a = count_list xs a"
  using count_list_update [OF assms(1), of y a] assms(2,3) by simp

lemma count_list_update_in:
  assumes "i < length xs" "xs ! i \<noteq> a"
  shows "count_list (xs[i := a]) a = Suc (count_list xs a)"
  using count_list_update [OF assms(1), of a a] assms(2) by simp

lemma count_list_update_out:
  assumes "i < length xs" "xs ! i = a" "y \<noteq> a"
  shows "count_list (xs[i := y]) a = count_list xs a - 1" and "0 < count_list xs a"
  using count_list_update [OF assms(1), of y a] assms(2,3) by simp_all

lemma count_list_remove:
  "a \<noteq> v \<Longrightarrow> count_list (RemoveValue xs v) a = count_list xs a"
  unfolding RemoveValue_def by (induction xs) simp_all

lemma count_list_nth:
  "k < length xs \<Longrightarrow> 0 < count_list xs (xs ! k)"
  by (metis count_list_0_iff nth_mem not_gr_zero)

lemma readable_not_writable:
  "SwapRequestSlotIsReadable a \<Longrightarrow> SwapRequestSlotIsWritableValue i \<noteq> a"
  using writable_not_readable [of i] by auto

lemma delivered_to_append:
  "delivered_to (ex @ [(p, e)]) a = (if p = a then delivered_to ex a @ [e] else delivered_to ex a)"
  "delivered_to (ex @ []) a = delivered_to ex a"
  by (simp_all add: delivered_to_def)


subsection \<open>A thread step keeps the invariant\<close>

lemma with_tls_Some:
  "tls lg p = Some t \<Longrightarrow> with_tls lg p f = Some (f t)"
  by (simp add: with_tls_def)

lemma with_tls_Inr:
  assumes "with_tls lg p f = Some (Inr r)"
  obtains t where "tls lg p = Some t" "f t = Inr r"
  using assms by (auto simp: with_tls_def split: option.splits)

lemma tls_set_tls: "tls (set_tls lg p t) q = (if q = p then Some t else tls lg q)"
  by (simp add: set_tls_def)

lemma set_tls_fields:
  "thread_swap_request_slots (set_tls lg p t) = thread_swap_request_slots lg"
  "threads_to_read (set_tls lg p t) = threads_to_read lg"
  "threads_to_swap_deferred (set_tls lg p t) = threads_to_swap_deferred lg"
  "swap_request_slots_to_retry (set_tls lg p t) = swap_request_slots_to_retry lg"
  "swap_request_id_read (set_tls lg p t) = swap_request_id_read lg"
  "slot_count (set_tls lg p t) = slot_count lg"
  by (simp_all add: set_tls_def slot_count_def)

lemma thread_step_this:
  assumes st: "thread_step now lg this pc = Some (Inr (lg', pc'))"
    and t: "tls lg this = Some t"
    and ok: "tlq_ok this t pc rel (count_list (thread_swap_request_slots lg) this + k) nt dlv sub"
  shows "\<exists>t'. tls lg' this = Some t'
           \<and> tlq_ok this t' pc' rel (count_list (thread_swap_request_slots lg') this + k) nt dlv
               (sub @ entering pc')"
proof (cases pc)
  case (Log_load e c)
  with st t c_load [of this t e c] ok show ?thesis
    by (auto simp: with_tls_Some)
next
  case (Log_cas e i n c)
  show ?thesis
  proof (cases "entry_states t ! unat i = Unlocked")
    case True
    with st t Log_cas c_cas_ok [of this t e i n c] ok show ?thesis
      by (auto simp: with_tls_Some compare_exchange_strong_def tls_set_tls set_tls_fields)
  next
    case False
    from c_cas_fail [OF ok [unfolded Log_cas] False, of "log_cas_fail_count t + 1"]
      st t Log_cas False
    show ?thesis
      by (auto simp: with_tls_Some compare_exchange_strong_def tls_set_tls set_tls_fields)
  qed
next
  case (Log_append e i c)
  with st t c_append [of this t e i c] ok show ?thesis
    by (auto simp: with_tls_Some tls_set_tls set_tls_fields)
next
  case (Log_unlock i c)
  note u = c_unlock [OF ok [unfolded Log_unlock]]
  show ?thesis
  proof (cases "i_write_prev t = i")
    case True
    from u(1) u(3) [OF True] st t Log_unlock True show ?thesis
      by (auto simp: with_tls_Some compare_exchange_strong_def tls_set_tls set_tls_fields)
  next
    case False
    from u(1) u(2) [OF False] st t Log_unlock False show ?thesis
      by (auto simp: with_tls_Some compare_exchange_strong_def tls_set_tls set_tls_fields
          split: if_splits)
  qed
next
  case (Req_fetch i c)
  with st t c_req_fetch [of this t i c] ok show ?thesis
    by auto
next
  case (Req_cas i r c)
  note d = tlq_okD [OF ok]
  show ?thesis
  proof (cases "thread_swap_request_slots lg ! unat (r mod slot_count lg)
                  = SwapRequestSlotIsWritableValue r")
    case True
    from st Req_cas have ne: "thread_swap_request_slots lg \<noteq> []"
      by (auto split: if_splits)
    from True readable_not_writable [OF d(2), of r]
    have "thread_swap_request_slots lg ! unat (r mod slot_count lg) \<noteq> this"
      by simp
    from count_list_update_in [OF slot_index_in_range [OF ne] this]
    have c: "count_list ((thread_swap_request_slots lg)[unat (r mod slot_count lg) := this]) this
               = Suc (count_list (thread_swap_request_slots lg) this)" .
    from c_req_ok [OF ok [unfolded Req_cas]] st t Req_cas True ne c show ?thesis
      by (auto simp: with_tls_def compare_exchange_strong_def tls_set_tls set_tls_fields)
  next
    case False
    from c_req_retry [OF ok [unfolded Req_cas]] st t Req_cas False show ?thesis
      by (auto simp: with_tls_def compare_exchange_strong_def tls_set_tls set_tls_fields
          split: if_splits)
  qed
next
  case Unreg_erase
  from c_out [OF ok, of "Log_load (OrphanEntry this) Then_exit"] st t Unreg_erase show ?thesis
    by (auto simp: UnRegister_erase_def)
next
  case (Wait_logging j)
  from c_out [OF ok, of Idle] st t Wait_logging show ?thesis
    by (auto split: if_splits)
next
  case (Wait_tracing j)
  from c_out [OF ok, of Idle] st t Wait_tracing show ?thesis
    by (auto split: if_splits)
next
  case NotStarted
  with st show ?thesis by simp
next
  case Idle
  with st show ?thesis by simp
next
  case Exited
  with st show ?thesis by simp
qed

lemma Log_return_started [simp]:
  "Log_return c \<noteq> NotStarted" "NotStarted \<noteq> Log_return c"
  by (cases c; simp)+

lemma thread_step_frame:
  assumes st: "thread_step now lg this pc = Some (Inr (lg', pc'))"
  shows "threads_to_read lg' = threads_to_read lg"
    and "threads_to_swap_deferred lg' = threads_to_swap_deferred lg"
    and "swap_request_slots_to_retry lg' = swap_request_slots_to_retry lg"
    and "swap_request_id_read lg' = swap_request_id_read lg"
    and "length (thread_swap_request_slots lg') = length (thread_swap_request_slots lg)"
    and "slot_count lg' = slot_count lg"
    and "pc' \<noteq> NotStarted"
    and "a \<noteq> this \<Longrightarrow> tls lg' a = tls lg a"
    and "tls lg this = None \<Longrightarrow> tls lg' this = None
           \<and> thread_swap_request_slots lg' = thread_swap_request_slots lg"
    and "thread_swap_request_slots lg' = thread_swap_request_slots lg
         \<or> (\<exists>r. thread_swap_request_slots lg \<noteq> []
                \<and> thread_swap_request_slots lg ! unat (r mod slot_count lg)
                    = SwapRequestSlotIsWritableValue r
                \<and> thread_swap_request_slots lg'
                    = (thread_swap_request_slots lg)[unat (r mod slot_count lg) := this])"
proof -
  have "threads_to_read lg' = threads_to_read lg
    \<and> threads_to_swap_deferred lg' = threads_to_swap_deferred lg
    \<and> swap_request_slots_to_retry lg' = swap_request_slots_to_retry lg
    \<and> swap_request_id_read lg' = swap_request_id_read lg
    \<and> length (thread_swap_request_slots lg') = length (thread_swap_request_slots lg)
    \<and> pc' \<noteq> NotStarted
    \<and> (a \<noteq> this \<longrightarrow> tls lg' a = tls lg a)
    \<and> (tls lg this = None \<longrightarrow> tls lg' this = None
           \<and> thread_swap_request_slots lg' = thread_swap_request_slots lg)
    \<and> (thread_swap_request_slots lg' = thread_swap_request_slots lg
         \<or> (\<exists>r. thread_swap_request_slots lg \<noteq> []
                \<and> thread_swap_request_slots lg ! unat (r mod slot_count lg)
                    = SwapRequestSlotIsWritableValue r
                \<and> thread_swap_request_slots lg'
                    = (thread_swap_request_slots lg)[unat (r mod slot_count lg) := this]))"
  proof (cases pc)
    case (Log_load e c)
    with st show ?thesis
      by (auto simp: with_tls_def split: option.splits)
  next
    case (Log_cas e i n c)
    with st show ?thesis
      by (auto simp: with_tls_def tls_set_tls set_tls_fields split: option.splits if_splits)
  next
    case (Log_append e i c)
    with st show ?thesis
      by (auto simp: with_tls_def tls_set_tls set_tls_fields split: option.splits)
  next
    case (Log_unlock i c)
    with st show ?thesis
      by (auto simp: with_tls_def tls_set_tls set_tls_fields compare_exchange_strong_def
          split: option.splits if_splits)
  next
    case (Req_fetch i c)
    with st show ?thesis by auto
  next
    case (Req_cas i r c)
    show ?thesis
    proof (cases "thread_swap_request_slots lg ! unat (r mod slot_count lg)
                  = SwapRequestSlotIsWritableValue r")
      case True
      with st Req_cas show ?thesis
        by (auto simp: with_tls_def tls_set_tls set_tls_fields compare_exchange_strong_def
            split: option.splits if_splits)
    next
      case False
      with st Req_cas show ?thesis
        by (auto simp: with_tls_def tls_set_tls set_tls_fields compare_exchange_strong_def
            split: option.splits if_splits)
    qed
  next
    case Unreg_erase
    with st show ?thesis by (auto simp: UnRegister_erase_def)
  next
    case (Wait_logging j)
    with st show ?thesis by (auto split: if_splits)
  next
    case (Wait_tracing j)
    with st show ?thesis by (auto split: if_splits)
  qed (use st in simp_all)
  then show "threads_to_read lg' = threads_to_read lg"
    and "threads_to_swap_deferred lg' = threads_to_swap_deferred lg"
    and "swap_request_slots_to_retry lg' = swap_request_slots_to_retry lg"
    and "swap_request_id_read lg' = swap_request_id_read lg"
    and l: "length (thread_swap_request_slots lg') = length (thread_swap_request_slots lg)"
    and "pc' \<noteq> NotStarted"
    and "a \<noteq> this \<Longrightarrow> tls lg' a = tls lg a"
    and "tls lg this = None \<Longrightarrow> tls lg' this = None
           \<and> thread_swap_request_slots lg' = thread_swap_request_slots lg"
    and "thread_swap_request_slots lg' = thread_swap_request_slots lg
         \<or> (\<exists>r. thread_swap_request_slots lg \<noteq> []
                \<and> thread_swap_request_slots lg ! unat (r mod slot_count lg)
                    = SwapRequestSlotIsWritableValue r
                \<and> thread_swap_request_slots lg'
                    = (thread_swap_request_slots lg)[unat (r mod slot_count lg) := this])"
    by blast+
  from l show "slot_count lg' = slot_count lg"
    by (simp add: slot_count_def)
qed

lemma thr_ok_frame:
  assumes ok: "thr_ok lg iopc pc dlv sub a"
    and t: "tls lg' a = tls lg a"
    and v: "a \<noteq> 0 \<Longrightarrow> SwapRequestSlotIsReadable a \<Longrightarrow>
         io_rel_of (threads_to_read lg') iopc' a = io_rel_of (threads_to_read lg) iopc a
         \<and> pend lg' iopc' a = pend lg iopc a
         \<and> count_list (threads_to_read lg') a = count_list (threads_to_read lg) a"
  shows "thr_ok lg' iopc' pc dlv sub a"
proof (cases "tls lg a")
  case None
  with ok t v show ?thesis
    by (simp add: thr_ok_def)
next
  case (Some x)
  with ok have q: "tlq_ok a x pc (io_rel_of (threads_to_read lg) iopc a) (pend lg iopc a)
      (count_list (threads_to_read lg) a) dlv sub"
    by (simp add: thr_ok_def)
  from tlq_okD(1,2) [OF q] v have "io_rel_of (threads_to_read lg') iopc' a = io_rel_of (threads_to_read lg) iopc a
         \<and> pend lg' iopc' a = pend lg iopc a
         \<and> count_list (threads_to_read lg') a = count_list (threads_to_read lg) a"
    by simp
  with q Some t show ?thesis
    by (simp add: thr_ok_def)
qed

lemma thread_step_pend:
  assumes st: "thread_step now lg this pc = Some (Inr (lg', pc'))"
    and a: "a \<noteq> this" "SwapRequestSlotIsReadable a"
  shows "pend lg' iopc a = pend lg iopc a"
proof -
  from thread_step_frame(10) [OF st]
  have "count_list (thread_swap_request_slots lg') a = count_list (thread_swap_request_slots lg) a"
  proof
    assume "thread_swap_request_slots lg' = thread_swap_request_slots lg"
    then show ?thesis by simp
  next
    assume "\<exists>r. thread_swap_request_slots lg \<noteq> []
                \<and> thread_swap_request_slots lg ! unat (r mod slot_count lg)
                    = SwapRequestSlotIsWritableValue r
                \<and> thread_swap_request_slots lg'
                    = (thread_swap_request_slots lg)[unat (r mod slot_count lg) := this]"
    then obtain r where ne: "thread_swap_request_slots lg \<noteq> []"
      and w: "thread_swap_request_slots lg ! unat (r mod slot_count lg)
                    = SwapRequestSlotIsWritableValue r"
      and u: "thread_swap_request_slots lg'
                    = (thread_swap_request_slots lg)[unat (r mod slot_count lg) := this]"
      by blast
    from w readable_not_writable [OF a(2), of r]
    have "thread_swap_request_slots lg ! unat (r mod slot_count lg) \<noteq> a" by simp
    from count_list_update_other [OF slot_index_in_range [OF ne] this, of this] a(1) u
    show ?thesis by simp
  qed
  with thread_step_frame(2) [OF st] show ?thesis
    by (simp add: pend_def)
qed

lemma thread_step_slot_kept:
  assumes st: "thread_step now lg this pc = Some (Inr (lg', pc'))"
    and v: "thread_swap_request_slots lg ! j = v" "SwapRequestSlotIsReadable v"
  shows "thread_swap_request_slots lg' ! j = v"
proof -
  from thread_step_frame(10) [OF st] show ?thesis
  proof
    assume "thread_swap_request_slots lg' = thread_swap_request_slots lg"
    with v show ?thesis by simp
  next
    assume "\<exists>r. thread_swap_request_slots lg \<noteq> []
                \<and> thread_swap_request_slots lg ! unat (r mod slot_count lg)
                    = SwapRequestSlotIsWritableValue r
                \<and> thread_swap_request_slots lg'
                    = (thread_swap_request_slots lg)[unat (r mod slot_count lg) := this]"
    then obtain r where w: "thread_swap_request_slots lg ! unat (r mod slot_count lg)
                    = SwapRequestSlotIsWritableValue r"
      and u: "thread_swap_request_slots lg'
                    = (thread_swap_request_slots lg)[unat (r mod slot_count lg) := this]"
      by blast
    from w v readable_not_writable [OF v(2), of r] have "unat (r mod slot_count lg) \<noteq> j"
      by auto
    with u v show ?thesis by simp
  qed
qed

lemma io_ok_thread_step:
  assumes st: "thread_step now lg this pc = Some (Inr (lg', pc'))"
    and ok: "io_ok lg iopc"
  shows "io_ok lg' iopc"
proof (cases iopc)
  case (IO_gather_retry ts xs)
  with ok thread_step_frame(5) [OF st] show ?thesis
    by (simp add: slots_in_range_def)
next
  case (IO_gather_retry_cas ts sr xs v)
  with ok have v: "thread_swap_request_slots lg ! unat (slot sr) = v" "SwapRequestSlotIsReadable v"
    by simp_all
  from thread_step_slot_kept [OF st v] IO_gather_retry_cas ok thread_step_frame(5) [OF st]
  show ?thesis
    by (simp add: slots_in_range_def)
next
  case (IO_gather_new_cas ts e v)
  with ok have v: "thread_swap_request_slots lg ! unat (swap_request_id_read lg mod slot_count lg) = v"
    "SwapRequestSlotIsReadable v" and ne: "thread_swap_request_slots lg \<noteq> []"
    by simp_all
  from ne thread_step_frame(5) [OF st] have "thread_swap_request_slots lg' \<noteq> []"
    by (metis length_0_conv)
  with thread_step_slot_kept [OF st v] IO_gather_new_cas v(2)
    thread_step_frame(4,6) [OF st]
  show ?thesis
    by simp
next
  case (IO_run k es)
  with ok thread_step_frame(1) [OF st] show ?thesis by simp
qed simp_all

lemma inv_thread:
  assumes inv: "sys_inv s"
    and st: "thread_step now (logger s) this (threads s this) = Some (Inr (lg', pc'))"
  shows "sys_inv (goto s this lg' pc')"
proof -
  note f = thread_step_frame [OF st]
  have "thr_ok lg' (io s) (threads (goto s this lg' pc') a) (delivered_to (executed s) a)
          (submitted (goto s this lg' pc') a) a" for a
  proof (cases "a = this")
    case False
    from inv have "thr_ok (logger s) (io s) (threads s a) (delivered_to (executed s) a)
        (submitted s a) a"
      by (simp add: sys_inv_def)
    from this f(8) [OF False]
    have "thr_ok lg' (io s) (threads s a) (delivered_to (executed s) a) (submitted s a) a"
      by (rule thr_ok_frame) (simp add: f(1) thread_step_pend [OF st False])
    with False show ?thesis
      by (simp add: goto_def)
  next
    case True
    show ?thesis
    proof (cases "tls (logger s) this")
      case None
      with f(9) f(7) True show ?thesis
        by (simp add: thr_ok_def goto_def)
    next
      case (Some t)
      from inv have "thr_ok (logger s) (io s) (threads s this) (delivered_to (executed s) this)
          (submitted s this) this"
        by (simp add: sys_inv_def)
      with Some have "tlq_ok this t (threads s this)
          (io_rel_of (threads_to_read (logger s)) (io s) this)
          (count_list (thread_swap_request_slots (logger s)) this
             + (count_list (io_to_swap (io s)) this
                + count_list (threads_to_swap_deferred (logger s)) this))
          (count_list (threads_to_read (logger s)) this)
          (delivered_to (executed s) this) (submitted s this)"
        by (simp add: thr_ok_def pend_def)
      from thread_step_this [OF st Some this] True f(1,2) show ?thesis
        by (auto simp: thr_ok_def pend_def goto_def)
    qed
  qed
  moreover from inv have "io_ok (logger s) (io s)"
    by (simp add: sys_inv_def)
  from io_ok_thread_step [OF st this] have "io_ok lg' (io s)" .
  moreover from inv f(3,5) have "slots_in_range lg' (swap_request_slots_to_retry lg')"
    by (simp add: sys_inv_def slots_in_range_def)
  ultimately show ?thesis
    by (simp add: sys_inv_def goto_def)
qed


subsection \<open>A step of the I/O thread keeps the invariant\<close>

lemma slots_in_range_cong:
  "length (thread_swap_request_slots lg') = length (thread_swap_request_slots lg) \<Longrightarrow>
   slots_in_range lg' xs = slots_in_range lg xs"
  by (simp add: slots_in_range_def)

lemma slots_in_range_simps:
  "slots_in_range lg []"
  "slots_in_range lg (x # xs) \<longleftrightarrow>
     unat (slot x) < length (thread_swap_request_slots lg) \<and> slots_in_range lg xs"
  "slots_in_range lg (xs @ ys) \<longleftrightarrow> slots_in_range lg xs \<and> slots_in_range lg ys"
  by (simp_all add: slots_in_range_def)

lemma slots_in_range_set_next_id:
  "slots_in_range lg xs \<Longrightarrow> slots_in_range lg (set_next_id s n xs)"
  by (induction xs) (auto simp: slots_in_range_simps)

lemma retry_got_fields:
  assumes "retry_got lg ts sr v = (lg1, ts1)"
  shows "ts1 = (if v \<noteq> 0 then ts @ [v] else ts)"
    and "thread_swap_request_slots lg1 = thread_swap_request_slots lg"
    and "threads_to_swap_deferred lg1 = threads_to_swap_deferred lg"
    and "threads_to_read lg1 = threads_to_read lg"
    and "tls lg1 = tls lg"
    and "swap_request_slots_to_retry lg1
           = (if v \<noteq> 0 then swap_request_slots_to_retry lg
              else swap_request_slots_to_retry lg @ [sr])"
  using assms by (auto simp: retry_got_def split: if_splits)

lemma retry_later_fields:
  "thread_swap_request_slots (retry_later lg s n) = thread_swap_request_slots lg"
  "threads_to_swap_deferred (retry_later lg s n) = threads_to_swap_deferred lg"
  "threads_to_read (retry_later lg s n) = threads_to_read lg"
  "tls (retry_later lg s n) = tls lg"
  by (simp_all add: retry_later_def Let_def)

lemma retry_later_in_range:
  assumes "slots_in_range lg (swap_request_slots_to_retry lg)"
    and "unat s < length (thread_swap_request_slots lg)"
  shows "slots_in_range (retry_later lg s n) (swap_request_slots_to_retry (retry_later lg s n))"
proof -
  have "slots_in_range (retry_later lg s n) xs = slots_in_range lg xs" for xs
    by (rule slots_in_range_cong) (simp add: retry_later_fields)
  with assms slots_in_range_set_next_id [OF assms(1), of s n] show ?thesis
    by (simp add: retry_later_def Let_def slots_in_range_simps)
qed

lemma new_got_fields:
  assumes "new_got lg ts v = (lg1, ts1)"
  shows "ts1 = (if v \<noteq> 0 then ts @ [v] else ts)"
    and "thread_swap_request_slots lg1 = thread_swap_request_slots lg"
    and "threads_to_swap_deferred lg1 = threads_to_swap_deferred lg"
    and "threads_to_read lg1 = threads_to_read lg"
    and "tls lg1 = tls lg"
    and "thread_swap_request_slots lg \<noteq> [] \<Longrightarrow>
         slots_in_range lg (swap_request_slots_to_retry lg) \<Longrightarrow>
         slots_in_range lg1 (swap_request_slots_to_retry lg1)"
proof -
  from assms show "ts1 = (if v \<noteq> 0 then ts @ [v] else ts)"
    and s: "thread_swap_request_slots lg1 = thread_swap_request_slots lg"
    and "threads_to_swap_deferred lg1 = threads_to_swap_deferred lg"
    and "threads_to_read lg1 = threads_to_read lg"
    and "tls lg1 = tls lg"
    by (auto simp: new_got_def Let_def retry_later_fields split: if_splits)
  assume ne: "thread_swap_request_slots lg \<noteq> []"
    and r: "slots_in_range lg (swap_request_slots_to_retry lg)"
  show "slots_in_range lg1 (swap_request_slots_to_retry lg1)"
  proof (cases "v = 0")
    case False
    with assms r show ?thesis
      by (auto simp: new_got_def Let_def slots_in_range_def)
  next
    case True
    from retry_later_in_range [OF r slot_index_in_range [OF ne]] True assms show ?thesis
      by (auto simp: new_got_def Let_def slots_in_range_def retry_later_fields)
  qed
qed

lemma pend_take:
  assumes j: "j < length xs" and v: "xs ! j = v"
    and a: "a \<noteq> 0" "SwapRequestSlotIsReadable a"
  shows "count_list (xs[j := SwapRequestSlotIsWritableValue n]) a
           + count_list (if v \<noteq> 0 then ts @ [v] else ts) a
         = count_list xs a + count_list ts a"
proof (cases "v = a")
  case True
  from count_list_update_out [OF j, of a "SwapRequestSlotIsWritableValue n"]
    v True readable_not_writable [OF a(2), of n] a(1)
  show ?thesis by simp
next
  case False
  from count_list_update_other [OF j, of a "SwapRequestSlotIsWritableValue n"]
    v False readable_not_writable [OF a(2), of n]
  show ?thesis by simp
qed

lemma quiet_step:
  assumes ok: "\<forall>a. thr_ok lg iopc (pcs a) (delivered_to ex a) (subs a) a"
    and e: "evs = []" and t: "tls lg' = tls lg"
    and v: "\<And>a. a \<noteq> 0 \<Longrightarrow> SwapRequestSlotIsReadable a \<Longrightarrow>
         io_rel_of (threads_to_read lg') iopc' a = io_rel_of (threads_to_read lg) iopc a
         \<and> pend lg' iopc' a = pend lg iopc a
         \<and> count_list (threads_to_read lg') a = count_list (threads_to_read lg) a"
  shows "\<forall>a. thr_ok lg' iopc' (pcs a) (delivered_to (ex @ evs) a) (subs a) a"
proof
  fix a
  from ok have "thr_ok lg iopc (pcs a) (delivered_to ex a) (subs a) a" ..
  moreover from t have "tls lg' a = tls lg a" by simp
  ultimately have "thr_ok lg' iopc' (pcs a) (delivered_to ex a) (subs a) a"
    using v by (rule thr_ok_frame)
  with e show "thr_ok lg' iopc' (pcs a) (delivered_to (ex @ evs) a) (subs a) a"
    by simp
qed

lemma io_top:
  assumes st: "io_step lg IO_top = Some (Inr (lg', iopc', evs))"
    and ok: "\<forall>a. thr_ok lg IO_top (pcs a) (delivered_to ex a) (subs a) a"
    and rng: "slots_in_range lg (swap_request_slots_to_retry lg)"
  shows "(\<forall>a. thr_ok lg' iopc' (pcs a) (delivered_to (ex @ evs) a) (subs a) a)
         \<and> io_ok lg' iopc' \<and> slots_in_range lg' (swap_request_slots_to_retry lg')"
proof (intro conjI)
  from ok show "\<forall>a. thr_ok lg' iopc' (pcs a) (delivered_to (ex @ evs) a) (subs a) a"
    by (rule quiet_step) (use st in \<open>auto simp: pend_def split: if_splits\<close>)
  from st rng show "io_ok lg' iopc'"
    by (auto simp: slots_in_range_def split: if_splits)
  from st rng show "slots_in_range lg' (swap_request_slots_to_retry lg')"
    by (auto simp: slots_in_range_def split: if_splits)
qed

lemma io_gather_retry:
  assumes st: "io_step lg (IO_gather_retry ts xs) = Some (Inr (lg', iopc', evs))"
    and ok: "\<forall>a. thr_ok lg (IO_gather_retry ts xs) (pcs a) (delivered_to ex a) (subs a) a"
    and io: "io_ok lg (IO_gather_retry ts xs)"
    and rng: "slots_in_range lg (swap_request_slots_to_retry lg)"
  shows "(\<forall>a. thr_ok lg' iopc' (pcs a) (delivered_to (ex @ evs) a) (subs a) a)
         \<and> io_ok lg' iopc' \<and> slots_in_range lg' (swap_request_slots_to_retry lg')"
proof (intro conjI)
  from ok show "\<forall>a. thr_ok lg' iopc' (pcs a) (delivered_to (ex @ evs) a) (subs a) a"
    by (rule quiet_step)
      (use st in \<open>cases xs; auto simp: pend_def Let_def retry_got_def split: if_splits\<close>)+
  from st io show "io_ok lg' iopc'"
    by (cases xs; auto simp: slots_in_range_def Let_def retry_got_def split: if_splits)
  from st rng io show "slots_in_range lg' (swap_request_slots_to_retry lg')"
    by (cases xs; auto simp: slots_in_range_def Let_def retry_got_def split: if_splits)
qed

lemma io_gather_retry_cas:
  assumes st: "io_step lg (IO_gather_retry_cas ts sr xs v) = Some (Inr (lg', iopc', evs))"
    and ok: "\<forall>a. thr_ok lg (IO_gather_retry_cas ts sr xs v) (pcs a) (delivered_to ex a) (subs a) a"
    and io: "io_ok lg (IO_gather_retry_cas ts sr xs v)"
    and rng: "slots_in_range lg (swap_request_slots_to_retry lg)"
  shows "(\<forall>a. thr_ok lg' iopc' (pcs a) (delivered_to (ex @ evs) a) (subs a) a)
         \<and> io_ok lg' iopc' \<and> slots_in_range lg' (swap_request_slots_to_retry lg')"
proof -
  define lg0 where "lg0 = lg\<lparr> thread_swap_request_slots :=
     (thread_swap_request_slots lg)
       [unat (slot sr) := SwapRequestSlotIsWritableValue (next_id sr)] \<rparr>"
  from io have j: "unat (slot sr) < length (thread_swap_request_slots lg)"
    and v: "thread_swap_request_slots lg ! unat (slot sr) = v"
    and xs: "slots_in_range lg xs"
    by (simp_all add: slots_in_range_simps)
  obtain lg1 ts1 where g: "retry_got lg0 ts sr v = (lg1, ts1)"
    by (cases "retry_got lg0 ts sr v")
  with st v have r: "lg' = lg1" "iopc' = IO_gather_retry ts1 xs" "evs = []"
    by (simp_all add: compare_exchange_strong_def lg0_def)
  note f = retry_got_fields [OF g]
  have len: "length (thread_swap_request_slots lg') = length (thread_swap_request_slots lg)"
    by (simp add: r f lg0_def)
  have "\<forall>a. thr_ok lg' iopc' (pcs a) (delivered_to (ex @ evs) a) (subs a) a"
    using ok r(3)
  proof (rule quiet_step)
    show "tls lg' = tls lg"
      by (simp add: r f lg0_def)
    fix a :: uintptr_t
    assume a: "a \<noteq> 0" "SwapRequestSlotIsReadable a"
    from pend_take [OF j v a, of "next_id sr" ts]
    show "io_rel_of (threads_to_read lg') iopc' a
            = io_rel_of (threads_to_read lg) (IO_gather_retry_cas ts sr xs v) a
         \<and> pend lg' iopc' a = pend lg (IO_gather_retry_cas ts sr xs v) a
         \<and> count_list (threads_to_read lg') a = count_list (threads_to_read lg) a"
      by (simp add: r f pend_def lg0_def)
  qed
  moreover from xs have "io_ok lg' iopc'"
    by (simp add: r(2) slots_in_range_cong [OF len])
  moreover from rng j xs have "slots_in_range lg' (swap_request_slots_to_retry lg')"
    by (simp add: slots_in_range_cong [OF len])
       (simp add: r f lg0_def slots_in_range_simps)
  ultimately show ?thesis by simp
qed

lemma io_gather_new_load:
  assumes st: "io_step lg (IO_gather_new_load ts) = Some (Inr (lg', iopc', evs))"
    and ok: "\<forall>a. thr_ok lg (IO_gather_new_load ts) (pcs a) (delivered_to ex a) (subs a) a"
    and rng: "slots_in_range lg (swap_request_slots_to_retry lg)"
  shows "(\<forall>a. thr_ok lg' iopc' (pcs a) (delivered_to (ex @ evs) a) (subs a) a)
         \<and> io_ok lg' iopc' \<and> slots_in_range lg' (swap_request_slots_to_retry lg')"
proof (intro conjI)
  from ok show "\<forall>a. thr_ok lg' iopc' (pcs a) (delivered_to (ex @ evs) a) (subs a) a"
    by (rule quiet_step) (use st in \<open>auto simp: pend_def\<close>)
  from st show "io_ok lg' iopc'" by auto
  from st rng show "slots_in_range lg' (swap_request_slots_to_retry lg')" by auto
qed

lemma io_gather_new:
  assumes st: "io_step lg (IO_gather_new ts e) = Some (Inr (lg', iopc', evs))"
    and ok: "\<forall>a. thr_ok lg (IO_gather_new ts e) (pcs a) (delivered_to ex a) (subs a) a"
    and rng: "slots_in_range lg (swap_request_slots_to_retry lg)"
  shows "(\<forall>a. thr_ok lg' iopc' (pcs a) (delivered_to (ex @ evs) a) (subs a) a)
         \<and> io_ok lg' iopc' \<and> slots_in_range lg' (swap_request_slots_to_retry lg')"
proof (cases "swap_request_id_read lg < e
    \<and> \<not> SwapRequestSlotIsReadable (thread_swap_request_slots lg
                                ! unat (swap_request_id_read lg mod slot_count lg))")
  case False
  show ?thesis
  proof (intro conjI)
    from ok show "\<forall>a. thr_ok lg' iopc' (pcs a) (delivered_to (ex @ evs) a) (subs a) a"
      by (rule quiet_step) (use st False in \<open>auto simp: pend_def Let_def split: if_splits\<close>)
    from st False show "io_ok lg' iopc'"
      by (auto simp: Let_def split: if_splits)
    from st rng False show "slots_in_range lg' (swap_request_slots_to_retry lg')"
      by (auto simp: Let_def split: if_splits)
  qed
next
  case True
  obtain lg1 ts1 where g: "new_got lg ts 0 = (lg1, ts1)"
    by (cases "new_got lg ts 0")
  with st True have ne: "thread_swap_request_slots lg \<noteq> []"
    and r: "lg' = lg1" "iopc' = IO_gather_new ts1 e" "evs = []"
    by (auto simp: Let_def split: if_splits)
  note f = new_got_fields [OF g]
  show ?thesis
  proof (intro conjI)
    from ok show "\<forall>a. thr_ok lg' iopc' (pcs a) (delivered_to (ex @ evs) a) (subs a) a"
      by (rule quiet_step) (simp_all add: r f pend_def)
    show "io_ok lg' iopc'" by (simp add: r)
    from f(6) [OF ne rng] show "slots_in_range lg' (swap_request_slots_to_retry lg')"
      by (simp add: r)
  qed
qed

lemma io_gather_new_cas:
  assumes st: "io_step lg (IO_gather_new_cas ts e v) = Some (Inr (lg', iopc', evs))"
    and ok: "\<forall>a. thr_ok lg (IO_gather_new_cas ts e v) (pcs a) (delivered_to ex a) (subs a) a"
    and io: "io_ok lg (IO_gather_new_cas ts e v)"
    and rng: "slots_in_range lg (swap_request_slots_to_retry lg)"
  shows "(\<forall>a. thr_ok lg' iopc' (pcs a) (delivered_to (ex @ evs) a) (subs a) a)
         \<and> io_ok lg' iopc' \<and> slots_in_range lg' (swap_request_slots_to_retry lg')"
proof -
  define j where "j = unat (swap_request_id_read lg mod slot_count lg)"
  define lg0 where "lg0 = lg\<lparr> thread_swap_request_slots :=
     (thread_swap_request_slots lg)
       [j := SwapRequestSlotIsWritableValue (swap_request_id_read lg + slot_count lg)] \<rparr>"
  from io have ne: "thread_swap_request_slots lg \<noteq> []"
    and v: "thread_swap_request_slots lg ! j = v"
    by (simp_all add: j_def)
  from slot_index_in_range [OF ne] have j: "j < length (thread_swap_request_slots lg)"
    by (simp add: j_def)
  obtain lg1 ts1 where g: "new_got lg0 ts v = (lg1, ts1)"
    by (cases "new_got lg0 ts v")
  with st v have r: "lg' = lg1" "iopc' = IO_gather_new ts1 e" "evs = []"
    by (simp_all add: compare_exchange_strong_def lg0_def j_def)
  note f = new_got_fields [OF g]
  have len: "length (thread_swap_request_slots lg0) = length (thread_swap_request_slots lg)"
    by (simp add: lg0_def)
  have "\<forall>a. thr_ok lg' iopc' (pcs a) (delivered_to (ex @ evs) a) (subs a) a"
    using ok r(3)
  proof (rule quiet_step)
    show "tls lg' = tls lg"
      by (simp add: r f lg0_def)
    fix a :: uintptr_t
    assume a: "a \<noteq> 0" "SwapRequestSlotIsReadable a"
    from pend_take [OF j v a, of "swap_request_id_read lg + slot_count lg" ts]
    show "io_rel_of (threads_to_read lg') iopc' a
            = io_rel_of (threads_to_read lg) (IO_gather_new_cas ts e v) a
         \<and> pend lg' iopc' a = pend lg (IO_gather_new_cas ts e v) a
         \<and> count_list (threads_to_read lg') a = count_list (threads_to_read lg) a"
      by (simp add: r f(1-5) pend_def lg0_def)
  qed
  moreover have "io_ok lg' iopc'"
    by (simp add: r)
  moreover from ne rng have "thread_swap_request_slots lg0 \<noteq> []"
    "slots_in_range lg0 (swap_request_slots_to_retry lg0)"
    by (simp_all add: slots_in_range_cong [OF len]) (simp_all add: lg0_def)
  from f(6) [OF this] have "slots_in_range lg' (swap_request_slots_to_retry lg')"
    by (simp add: r)
  ultimately show ?thesis by simp
qed

lemma same_queue_refl: "same_queue t t"
  unfolding same_queue_def
  by (rule exI [of _ "log_cas_fail_count t"], rule exI [of _ "swap_buffers_slot_retry_count t"])
     simp

lemma same_queue_trans: "same_queue t u \<Longrightarrow> same_queue u v \<Longrightarrow> same_queue t v"
  unfolding same_queue_def by (elim exE) (simp, blast)

lemma same_queues_refl: "same_queues lg lg"
  by (simp add: same_queues_def option.rel_refl same_queue_refl)

lemma same_queues_trans:
  assumes "same_queues la lb" "same_queues lb lc"
  shows "same_queues la lc"
proof -
  have "rel_option same_queue (tls la a) (tls lc a)" for a
  proof -
    from assms have "rel_option same_queue (tls la a) (tls lb a)"
      "rel_option same_queue (tls lb a) (tls lc a)"
      by (simp_all add: same_queues_def)
    then show ?thesis
      by (cases "tls la a"; cases "tls lb a"; cases "tls lc a")
         (auto intro: same_queue_trans)
  qed
  with assms show ?thesis
    by (simp add: same_queues_def)
qed

lemma CollectTlsLoggerStats_same:
  assumes "CollectTlsLoggerStats lg p = Inr lg1"
  shows "same_queues lg lg1"
proof -
  from assms obtain t where t: "tls lg p = Some t"
    by (auto simp: CollectTlsLoggerStats_def split: option.splits)
  with assms have r: "lg1 = lg\<lparr> tls_total_log_cas_fail_count :=
        tls_total_log_cas_fail_count lg + log_cas_fail_count t,
      tls_total_swap_buffers_slot_retry_count :=
        tls_total_swap_buffers_slot_retry_count lg + swap_buffers_slot_retry_count t,
      tls := (tls lg)(p \<mapsto> t\<lparr> log_cas_fail_count := 0, swap_buffers_slot_retry_count := 0 \<rparr>) \<rparr>"
    by (auto simp: CollectTlsLoggerStats_def ReportLogCasFailCount_def
        ReportSwapBuffersSlotRetryCount_def Let_def)
  have "same_queue t (t\<lparr> log_cas_fail_count := 0, swap_buffers_slot_retry_count := 0 \<rparr>)"
    unfolding same_queue_def by blast
  with t show ?thesis
    by (simp add: same_queues_def r option.rel_refl same_queue_refl)
qed

lemma CollectAll_same:
  "CollectAll ps lg = Inr lg1 \<Longrightarrow> same_queues lg lg1"
proof (induction ps arbitrary: lg)
  case Nil
  then show ?case by (simp add: same_queues_refl)
next
  case (Cons p ps)
  then obtain la where a: "CollectTlsLoggerStats lg p = Inr la" and b: "CollectAll ps la = Inr lg1"
    by (auto split: sum.splits)
  from CollectTlsLoggerStats_same [OF a] Cons.IH [OF b] show ?case
    by (rule same_queues_trans)
qed

lemma same_queues_fields:
  assumes "thread_swap_request_slots lg' = thread_swap_request_slots lg"
    "threads_to_swap_deferred lg' = threads_to_swap_deferred lg"
    "threads_to_read lg' = threads_to_read lg"
    "swap_request_slots_to_retry lg' = swap_request_slots_to_retry lg"
    "tls lg' = tls lg"
  shows "same_queues lg lg'"
  using assms by (simp add: same_queues_def option.rel_refl same_queue_refl)

lemma run_entry_same:
  assumes "run_entry e lg = Inr lg1"
  shows "same_queues lg lg1"
proof (cases e)
  case (UserEntry x)
  with assms show ?thesis by (auto intro!: same_queues_fields)
next
  case (OrphanEntry p)
  with assms obtain la where a: "CollectTlsLoggerStats lg p = Inr la"
    and b: "lg1 = la\<lparr> orphans_to_destroy := orphans_to_destroy la @ [p] \<rparr>"
    by (auto split: sum.splits)
  from b have "same_queues la lg1" by (auto intro!: same_queues_fields)
  with CollectTlsLoggerStats_same [OF a] show ?thesis
    by (rule same_queues_trans)
next
  case ContentionEntry
  with assms obtain la lb
    where a: "CollectAll (sorted_list_of_fset (tls_loggers_registerd lg)) lg = Inr la"
      and b: "CollectAll (tls_logger_orphans la) la = Inr lb"
      and c: "lg1 = log_contention_counters lb"
    by (auto split: sum.splits)
  from c have "same_queues lb lg1"
    by (auto intro!: same_queues_fields simp: log_contention_counters_def)
  with same_queues_trans [OF CollectAll_same [OF a] CollectAll_same [OF b]] show ?thesis
    by (rule same_queues_trans)
next
  case (FlushedEntry k)
  with assms show ?thesis by (auto intro!: same_queues_fields)
qed

lemma thr_ok_same_queues:
  assumes ok: "thr_ok lg iopc pc dlv sub a" and s: "same_queues lg lg'"
  shows "thr_ok lg' iopc pc dlv sub a"
proof -
  from s have f: "pend lg' iopc a = pend lg iopc a" "threads_to_read lg' = threads_to_read lg"
    and r: "rel_option same_queue (tls lg a) (tls lg' a)"
    by (simp_all add: same_queues_def pend_def)
  show ?thesis
  proof (cases "tls lg a")
    case None
    with r have "tls lg' a = None" by (cases "tls lg' a") simp_all
    with ok None f show ?thesis by (simp add: thr_ok_def)
  next
    case (Some t)
    with r obtain x y
      where t': "tls lg' a = Some (t\<lparr> log_cas_fail_count := x, swap_buffers_slot_retry_count := y \<rparr>)"
      by (cases "tls lg' a") (auto simp: same_queue_def)
    from ok Some have "tlq_ok a t pc (io_rel_of (threads_to_read lg) iopc a) (pend lg iopc a)
            (count_list (threads_to_read lg) a) dlv sub"
      by (simp add: thr_ok_def)
    from c_counters(2) [OF c_counters(1) [OF this]] t' f show ?thesis
      by (simp add: thr_ok_def)
  qed
qed

lemma acting_step:
  assumes ok: "\<forall>a. thr_ok lg iopc (pcs a) (delivered_to ex a) (subs a) a"
    and t: "\<And>a. a \<noteq> p \<Longrightarrow> tls lg' a = tls lg a"
    and v: "\<And>a. a \<noteq> p \<Longrightarrow> a \<noteq> 0 \<Longrightarrow> SwapRequestSlotIsReadable a \<Longrightarrow>
         io_rel_of (threads_to_read lg') iopc' a = io_rel_of (threads_to_read lg) iopc a
         \<and> pend lg' iopc' a = pend lg iopc a
         \<and> count_list (threads_to_read lg') a = count_list (threads_to_read lg) a"
    and d: "\<And>a. a \<noteq> p \<Longrightarrow> delivered_to (ex @ evs) a = delivered_to ex a"
    and p: "thr_ok lg' iopc' (pcs p) (delivered_to (ex @ evs) p) (subs p) p"
  shows "\<forall>a. thr_ok lg' iopc' (pcs a) (delivered_to (ex @ evs) a) (subs a) a"
proof
  fix a
  show "thr_ok lg' iopc' (pcs a) (delivered_to (ex @ evs) a) (subs a) a"
  proof (cases "a = p")
    case True
    with p show ?thesis by simp
  next
    case False
    from ok have "thr_ok lg iopc (pcs a) (delivered_to ex a) (subs a) a" ..
    then have "thr_ok lg' iopc' (pcs a) (delivered_to ex a) (subs a) a"
      using t [OF False] v [OF False] by (rule thr_ok_frame)
    with d [OF False] show ?thesis by simp
  qed
qed

lemma thr_okD:
  assumes "thr_ok lg iopc pc dlv sub a" "tls lg a = Some t"
  shows "tlq_ok a t pc (io_rel_of (threads_to_read lg) iopc a) (pend lg iopc a)
           (count_list (threads_to_read lg) a) dlv sub"
  using assms by (simp add: thr_ok_def)

lemma thr_okI:
  assumes "tls lg a = Some t"
    "tlq_ok a t pc (io_rel_of (threads_to_read lg) iopc a) (pend lg iopc a)
           (count_list (threads_to_read lg) a) dlv sub"
  shows "thr_ok lg iopc pc dlv sub a"
  using assms by (simp add: thr_ok_def)

lemma io_swap:
  assumes st: "io_step lg (IO_swap ts) = Some (Inr (lg', iopc', evs))"
    and ok: "\<forall>a. thr_ok lg (IO_swap ts) (pcs a) (delivered_to ex a) (subs a) a"
    and rng: "slots_in_range lg (swap_request_slots_to_retry lg)"
  shows "(\<forall>a. thr_ok lg' iopc' (pcs a) (delivered_to (ex @ evs) a) (subs a) a)
         \<and> io_ok lg' iopc' \<and> slots_in_range lg' (swap_request_slots_to_retry lg')"
proof (cases ts)
  case Nil
  show ?thesis
  proof (intro conjI)
    from ok show "\<forall>a. thr_ok lg' iopc' (pcs a) (delivered_to (ex @ evs) a) (subs a) a"
      by (rule quiet_step) (use st Nil in \<open>auto simp: pend_def\<close>)
    from st Nil show "io_ok lg' iopc'" by auto
    from st rng Nil show "slots_in_range lg' (swap_request_slots_to_retry lg')" by auto
  qed
next
  case (Cons p ps)
  with st obtain t where t: "tls lg p = Some t"
    by (auto elim: with_tls_Inr)
  show ?thesis
  proof (cases "unread_swaps t = 0")
    case False
    with st Cons t have r: "lg' = lg\<lparr> threads_to_swap_deferred := threads_to_swap_deferred lg @ [p] \<rparr>"
      "iopc' = IO_swap ps" "evs = []"
      by (simp_all add: with_tls_Some ReadBufferHasBeenConsumed_def)
    show ?thesis
    proof (intro conjI)
      from ok show "\<forall>a. thr_ok lg' iopc' (pcs a) (delivered_to (ex @ evs) a) (subs a) a"
        by (rule quiet_step) (simp_all add: r Cons pend_def)
      show "io_ok lg' iopc'" by (simp add: r)
      from rng show "slots_in_range lg' (swap_request_slots_to_retry lg')"
        by (simp add: r slots_in_range_def)
    qed
  next
    case True
    from ok have "thr_ok lg (IO_swap ts) (pcs p) (delivered_to ex p) (subs p) p" ..
    from thr_okD [OF this t]
    have q: "tlq_ok p t (pcs p) Neutral (pend lg (IO_swap ts) p)
        (count_list (threads_to_read lg) p) (delivered_to ex p) (subs p)"
      by simp
    have pd: "0 < pend lg (IO_swap ts) p"
      by (simp add: pend_def Cons)
    note c = c_swap_cas [OF q True pd]
    define t' where "t' = t\<lparr> entry_states := (entry_states t)[unat (i_read t) := Unlocked] \<rparr>"
    from st Cons t True c(1) have r: "lg' = set_tls lg p t'" "iopc' = IO_swap_publish p ps"
      "evs = []"
      by (simp_all add: with_tls_Some ReadBufferHasBeenConsumed_def compare_exchange_strong_def
          t'_def)
    have pd': "pend lg' iopc' p = pend lg (IO_swap ts) p - 1"
      by (simp add: r pend_def Cons set_tls_fields)
    show ?thesis
    proof (intro conjI)
      show "\<forall>a. thr_ok lg' iopc' (pcs a) (delivered_to (ex @ evs) a) (subs a) a"
        using ok
      proof (rule acting_step [where p = p])
        show "thr_ok lg' iopc' (pcs p) (delivered_to (ex @ evs) p) (subs p) p"
        proof (rule thr_okI)
          show "tls lg' p = Some t'" by (simp add: r tls_set_tls)
          from c(2) show "tlq_ok p t' (pcs p) (io_rel_of (threads_to_read lg') iopc' p)
              (pend lg' iopc' p) (count_list (threads_to_read lg') p)
              (delivered_to (ex @ evs) p) (subs p)"
            unfolding pd' by (simp add: r t'_def set_tls_fields)
        qed
      qed (simp_all add: r tls_set_tls set_tls_fields pend_def Cons)
      show "io_ok lg' iopc'" by (simp add: r)
      from rng show "slots_in_range lg' (swap_request_slots_to_retry lg')"
        by (simp add: r slots_in_range_def set_tls_fields)
    qed
  qed
qed

lemma io_swap_publish:
  assumes st: "io_step lg (IO_swap_publish p ps) = Some (Inr (lg', iopc', evs))"
    and ok: "\<forall>a. thr_ok lg (IO_swap_publish p ps) (pcs a) (delivered_to ex a) (subs a) a"
    and rng: "slots_in_range lg (swap_request_slots_to_retry lg)"
  shows "(\<forall>a. thr_ok lg' iopc' (pcs a) (delivered_to (ex @ evs) a) (subs a) a)
         \<and> io_ok lg' iopc' \<and> slots_in_range lg' (swap_request_slots_to_retry lg')"
proof -
  from st obtain t where t: "tls lg p = Some t"
    by (auto elim: with_tls_Inr)
  define t' where "t' = t\<lparr> i_write := i_read t, i_read := i_read t XOR 1,
                      unread_swaps := unread_swaps t + 1 \<rparr>"
  from st t have r: "lg' = (set_tls lg p t')\<lparr> threads_to_read := threads_to_read lg @ [p] \<rparr>"
    "iopc' = IO_swap ps" "evs = []"
    by (simp_all add: with_tls_Some t'_def)
  from ok have "thr_ok lg (IO_swap_publish p ps) (pcs p) (delivered_to ex p) (subs p) p" ..
  from thr_okD [OF this t]
  have q: "tlq_ok p t (pcs p) Midswap (pend lg (IO_swap_publish p ps) p)
      (count_list (threads_to_read lg) p) (delivered_to ex p) (subs p)"
    by simp
  note c = c_publish [OF q]
  show ?thesis
  proof (intro conjI)
    show "\<forall>a. thr_ok lg' iopc' (pcs a) (delivered_to (ex @ evs) a) (subs a) a"
      using ok
    proof (rule acting_step [where p = p])
      show "thr_ok lg' iopc' (pcs p) (delivered_to (ex @ evs) p) (subs p) p"
      proof (rule thr_okI)
        show "tls lg' p = Some t'" by (simp add: r tls_set_tls)
        from c show "tlq_ok p t' (pcs p) (io_rel_of (threads_to_read lg') iopc' p)
            (pend lg' iopc' p) (count_list (threads_to_read lg') p)
            (delivered_to (ex @ evs) p) (subs p)"
          by (simp add: r t'_def set_tls_fields pend_def)
      qed
    qed (simp_all add: r tls_set_tls set_tls_fields pend_def)
    show "io_ok lg' iopc'" by (simp add: r)
    from rng show "slots_in_range lg' (swap_request_slots_to_retry lg')"
      by (simp add: r slots_in_range_def set_tls_fields)
  qed
qed

lemma io_process:
  assumes st: "io_step lg (IO_process k) = Some (Inr (lg', iopc', evs))"
    and ok: "\<forall>a. thr_ok lg (IO_process k) (pcs a) (delivered_to ex a) (subs a) a"
    and rng: "slots_in_range lg (swap_request_slots_to_retry lg)"
  shows "(\<forall>a. thr_ok lg' iopc' (pcs a) (delivered_to (ex @ evs) a) (subs a) a)
         \<and> io_ok lg' iopc' \<and> slots_in_range lg' (swap_request_slots_to_retry lg')"
proof (cases "k < length (threads_to_read lg)")
  case False
  with st have r: "lg' = lg\<lparr> threads_to_read := RemoveValue (threads_to_read lg) 0 \<rparr>"
    "iopc' = IO_flush" "evs = []"
    by simp_all
  show ?thesis
  proof (intro conjI)
    from ok show "\<forall>a. thr_ok lg' iopc' (pcs a) (delivered_to (ex @ evs) a) (subs a) a"
      by (rule quiet_step) (simp_all add: r pend_def count_list_remove)
    show "io_ok lg' iopc'" by (simp add: r)
    from rng show "slots_in_range lg' (swap_request_slots_to_retry lg')"
      by (simp add: r slots_in_range_def)
  qed
next
  case True
  define p where "p = threads_to_read lg ! k"
  from st True obtain t where t: "tls lg p = Some t"
    by (auto elim: with_tls_Inr simp: p_def)
  show ?thesis
  proof (cases "entry_states t ! unat (i_read t) = Unlocked")
    case False
    with st True t have r: "lg' = lg\<lparr> start_reading_entries_retry_count :=
                            start_reading_entries_retry_count lg + 1 \<rparr>"
      "iopc' = IO_process (Suc k)" "evs = []"
      by (simp_all add: with_tls_Some p_def [symmetric] StartReadingEntries_def
          compare_exchange_strong_def)
    show ?thesis
    proof (intro conjI)
      from ok show "\<forall>a. thr_ok lg' iopc' (pcs a) (delivered_to (ex @ evs) a) (subs a) a"
        by (rule quiet_step) (simp_all add: r pend_def)
      show "io_ok lg' iopc'" by (simp add: r)
      from rng show "slots_in_range lg' (swap_request_slots_to_retry lg')"
        by (simp add: r slots_in_range_def)
    qed
  next
    case u: True
    define t' where "t' = t\<lparr> entry_states := (entry_states t)[unat (i_read t) := ReadLock] \<rparr>"
    define es where "es = entries t ! unat (i_read t)"
    from st True t u
    have r: "lg' = (set_tls lg p t')\<lparr> async_logger := async_logger lg @
                             [SetCurrentTracePidTidString (trace_pid_tid t')] \<rparr>"
      "iopc' = IO_run k es" "evs = []"
      by (simp_all add: with_tls_Some p_def [symmetric] StartReadingEntries_def
          compare_exchange_strong_def t'_def es_def)
    from ok have "thr_ok lg (IO_process k) (pcs p) (delivered_to ex p) (subs p) p" ..
    from thr_okD [OF this t]
    have q: "tlq_ok p t (pcs p) Neutral (pend lg (IO_process k) p)
        (count_list (threads_to_read lg) p) (delivered_to ex p) (subs p)"
      by simp
    from count_list_nth [OF True] have "0 < count_list (threads_to_read lg) p"
      by (simp add: p_def)
    note c = c_start [OF q u this]
    show ?thesis
    proof (intro conjI)
      show "\<forall>a. thr_ok lg' iopc' (pcs a) (delivered_to (ex @ evs) a) (subs a) a"
        using ok
      proof (rule acting_step [where p = p])
        show "thr_ok lg' iopc' (pcs p) (delivered_to (ex @ evs) p) (subs p) p"
        proof (rule thr_okI)
          show "tls lg' p = Some t'" by (simp add: r tls_set_tls)
          from c show "tlq_ok p t' (pcs p) (io_rel_of (threads_to_read lg') iopc' p)
              (pend lg' iopc' p) (count_list (threads_to_read lg') p)
              (delivered_to (ex @ evs) p) (subs p)"
            by (simp add: r t'_def es_def set_tls_fields pend_def p_def [symmetric])
        qed
      qed (simp_all add: r tls_set_tls set_tls_fields pend_def p_def [symmetric])
      from True show "io_ok lg' iopc'" by (simp add: r set_tls_fields)
      from rng show "slots_in_range lg' (swap_request_slots_to_retry lg')"
        by (simp add: r slots_in_range_def set_tls_fields)
    qed
  qed
qed

lemma io_run:
  assumes st: "io_step lg (IO_run k es) = Some (Inr (lg', iopc', evs))"
    and ok: "\<forall>a. thr_ok lg (IO_run k es) (pcs a) (delivered_to ex a) (subs a) a"
    and io: "io_ok lg (IO_run k es)"
    and rng: "slots_in_range lg (swap_request_slots_to_retry lg)"
  shows "(\<forall>a. thr_ok lg' iopc' (pcs a) (delivered_to (ex @ evs) a) (subs a) a)
         \<and> io_ok lg' iopc' \<and> slots_in_range lg' (swap_request_slots_to_retry lg')"
proof (cases es)
  case Nil
  define p where "p = threads_to_read lg ! k"
  from io have k: "k < length (threads_to_read lg)" by simp
  from st Nil obtain t where t: "tls lg p = Some t"
    by (auto elim: with_tls_Inr simp: p_def)
  with st Nil
  have r: "lg' = (set_tls lg p (FinishReadingEntries t))
                   \<lparr> threads_to_read := (threads_to_read lg)[k := 0] \<rparr>"
    "iopc' = IO_process (Suc k)" "evs = []"
    by (simp_all add: with_tls_Some p_def [symmetric])
  from ok have "thr_ok lg (IO_run k es) (pcs p) (delivered_to ex p) (subs p) p" ..
  from thr_okD [OF this t]
  have q: "tlq_ok p t (pcs p) (Reading []) (pend lg (IO_run k es) p)
      (count_list (threads_to_read lg) p) (delivered_to ex p) (subs p)"
    by (simp add: Nil p_def)
  note c = c_finish [OF q]
  from tlq_okD(1) [OF q] have p0: "0 \<noteq> p" by simp
  from count_list_update_out(1) [OF k _ p0]
  have cnt: "count_list ((threads_to_read lg)[k := 0]) p = count_list (threads_to_read lg) p - 1"
    by (simp add: p_def)
  show ?thesis
  proof (intro conjI)
    show "\<forall>a. thr_ok lg' iopc' (pcs a) (delivered_to (ex @ evs) a) (subs a) a"
      using ok
    proof (rule acting_step [where p = p])
      show "thr_ok lg' iopc' (pcs p) (delivered_to (ex @ evs) p) (subs p) p"
      proof (rule thr_okI)
        show "tls lg' p = Some (FinishReadingEntries t)" by (simp add: r tls_set_tls)
        from c show "tlq_ok p (FinishReadingEntries t) (pcs p)
            (io_rel_of (threads_to_read lg') iopc' p)
            (pend lg' iopc' p) (count_list (threads_to_read lg') p)
            (delivered_to (ex @ evs) p) (subs p)"
          by (simp add: r set_tls_fields pend_def cnt)
      qed
    next
      fix a :: uintptr_t
      assume a: "a \<noteq> p" "a \<noteq> 0" "SwapRequestSlotIsReadable a"
      from k a(1) have "threads_to_read lg ! k \<noteq> a" by (simp add: p_def)
      from count_list_update_other [OF k this, of 0] a(2) this
      show "io_rel_of (threads_to_read lg') iopc' a = io_rel_of (threads_to_read lg) (IO_run k es) a
         \<and> pend lg' iopc' a = pend lg (IO_run k es) a
         \<and> count_list (threads_to_read lg') a = count_list (threads_to_read lg) a"
        by (simp add: r set_tls_fields pend_def)
    qed (simp_all add: r tls_set_tls)
    show "io_ok lg' iopc'" by (simp add: r)
    from rng show "slots_in_range lg' (swap_request_slots_to_retry lg')"
      by (simp add: r slots_in_range_def set_tls_fields)
  qed
next
  case (Cons e es')
  define p where "p = threads_to_read lg ! k"
  from io have k: "k < length (threads_to_read lg)" by simp
  from st Cons have run: "run_entry e lg = Inr lg'" and r: "iopc' = IO_run k es'" "evs = [(p, e)]"
    by (auto simp: p_def split: sum.splits)
  note s = run_entry_same [OF run]
  then have f: "threads_to_read lg' = threads_to_read lg"
    "thread_swap_request_slots lg' = thread_swap_request_slots lg"
    "threads_to_swap_deferred lg' = threads_to_swap_deferred lg"
    "swap_request_slots_to_retry lg' = swap_request_slots_to_retry lg"
    by (simp_all add: same_queues_def)
  have mid: "thr_ok lg' (IO_run k es) (pcs a) (delivered_to ex a) (subs a) a" for a
  proof -
    from ok have "thr_ok lg (IO_run k es) (pcs a) (delivered_to ex a) (subs a) a" ..
    then show ?thesis using s by (rule thr_ok_same_queues)
  qed
  show ?thesis
  proof (intro conjI)
    show "\<forall>a. thr_ok lg' iopc' (pcs a) (delivered_to (ex @ evs) a) (subs a) a"
    proof
      fix a
      show "thr_ok lg' iopc' (pcs a) (delivered_to (ex @ evs) a) (subs a) a"
      proof (cases "a = p")
        case False
        with mid [of a] show ?thesis
          by (simp add: r thr_ok_def pend_def delivered_to_append Cons f p_def
              split: option.splits)
      next
        case True
        show ?thesis
        proof (cases "tls lg' p")
          case None
          with mid [of p] True show ?thesis
            by (simp add: thr_ok_def Cons f p_def r)
        next
          case (Some t)
          from thr_okD [OF mid Some]
          have "tlq_ok p t (pcs p) (Reading (e # es')) (pend lg' (IO_run k es) p)
              (count_list (threads_to_read lg') p) (delivered_to ex p) (subs p)"
            by (simp add: Cons f p_def)
          from c_run [OF this] Some True show ?thesis
            by (simp add: thr_ok_def r f p_def [symmetric] pend_def delivered_to_append)
        qed
      qed
    qed
    from k show "io_ok lg' iopc'" by (simp add: r f)
    from rng show "slots_in_range lg' (swap_request_slots_to_retry lg')"
      by (simp add: slots_in_range_def f)
  qed
qed

lemma erase_orphans_fields:
  "thread_swap_request_slots (erase_orphans ps lg) = thread_swap_request_slots lg"
  "threads_to_swap_deferred (erase_orphans ps lg) = threads_to_swap_deferred lg"
  "threads_to_read (erase_orphans ps lg) = threads_to_read lg"
  "swap_request_slots_to_retry (erase_orphans ps lg) = swap_request_slots_to_retry lg"
  by (induction ps arbitrary: lg) simp_all

lemma io_flush_retire:
  assumes st: "io_step lg iopc = Some (Inr (lg', iopc', evs))"
    and pc: "iopc = IO_flush \<or> iopc = IO_retire"
    and ok: "\<forall>a. thr_ok lg iopc (pcs a) (delivered_to ex a) (subs a) a"
    and rng: "slots_in_range lg (swap_request_slots_to_retry lg)"
  shows "(\<forall>a. thr_ok lg' iopc' (pcs a) (delivered_to (ex @ evs) a) (subs a) a)
         \<and> io_ok lg' iopc' \<and> slots_in_range lg' (swap_request_slots_to_retry lg')"
proof -
  from st pc have f: "thread_swap_request_slots lg' = thread_swap_request_slots lg"
    "threads_to_swap_deferred lg' = threads_to_swap_deferred lg"
    "threads_to_read lg' = threads_to_read lg"
    "swap_request_slots_to_retry lg' = swap_request_slots_to_retry lg"
    and e: "evs = []" and i: "iopc' = IO_retire \<or> iopc' = IO_top"
    and t: "\<And>a. tls lg' a = tls lg a \<or> tls lg' a = None"
    by (auto simp: IOThread_flush_def IOThread_retire_def erase_orphans_fields
        tls_erase_orphans split: if_splits)
  have "thr_ok lg' iopc' (pcs a) (delivered_to (ex @ evs) a) (subs a) a" for a
  proof -
    from ok have o: "thr_ok lg iopc (pcs a) (delivered_to ex a) (subs a) a" ..
    from t [of a] have "thr_ok lg' iopc' (pcs a) (delivered_to ex a) (subs a) a"
    proof
      assume "tls lg' a = tls lg a"
      with o show ?thesis
        by (rule thr_ok_frame) (use pc i in \<open>auto simp: pend_def f\<close>)
    next
      assume n: "tls lg' a = None"
      show ?thesis
      proof (cases "tls lg a")
        case None
        with n have "tls lg' a = tls lg a" by simp
        with o show ?thesis
          by (rule thr_ok_frame) (use pc i in \<open>auto simp: pend_def f\<close>)
      next
        case (Some x)
        from tlq_okD(5) [OF thr_okD [OF o Some]] have "pcs a \<noteq> NotStarted"
          by auto
        with n show ?thesis
          by (simp add: thr_ok_def)
      qed
    qed
    with e show ?thesis by simp
  qed
  moreover from i have "io_ok lg' iopc'" by auto
  moreover from rng have "slots_in_range lg' (swap_request_slots_to_retry lg')"
    by (simp add: slots_in_range_def f)
  ultimately show ?thesis by simp
qed

lemma io_step_inv:
  assumes st: "io_step lg iopc = Some (Inr (lg', iopc', evs))"
    and ok: "\<forall>a. thr_ok lg iopc (pcs a) (delivered_to ex a) (subs a) a"
    and io: "io_ok lg iopc"
    and rng: "slots_in_range lg (swap_request_slots_to_retry lg)"
  shows "(\<forall>a. thr_ok lg' iopc' (pcs a) (delivered_to (ex @ evs) a) (subs a) a)
         \<and> io_ok lg' iopc' \<and> slots_in_range lg' (swap_request_slots_to_retry lg')"
proof (cases iopc)
  case IO_not_started
  with st show ?thesis by simp
next
  case IO_top
  from st ok rng show ?thesis unfolding IO_top by (rule io_top)
next
  case (IO_gather_retry ts xs)
  from st ok io rng show ?thesis unfolding IO_gather_retry by (rule io_gather_retry)
next
  case (IO_gather_retry_cas ts sr xs v)
  from st ok io rng show ?thesis unfolding IO_gather_retry_cas by (rule io_gather_retry_cas)
next
  case (IO_gather_new_load ts)
  from st ok rng show ?thesis unfolding IO_gather_new_load by (rule io_gather_new_load)
next
  case (IO_gather_new ts e)
  from st ok rng show ?thesis unfolding IO_gather_new by (rule io_gather_new)
next
  case (IO_gather_new_cas ts e v)
  from st ok io rng show ?thesis unfolding IO_gather_new_cas by (rule io_gather_new_cas)
next
  case (IO_swap ts)
  from st ok rng show ?thesis unfolding IO_swap by (rule io_swap)
next
  case (IO_swap_publish p ps)
  from st ok rng show ?thesis unfolding IO_swap_publish by (rule io_swap_publish)
next
  case (IO_process k)
  from st ok rng show ?thesis unfolding IO_process by (rule io_process)
next
  case (IO_run k es)
  from st ok io rng show ?thesis unfolding IO_run by (rule io_run)
next
  case IO_flush
  with io_flush_retire [OF st _ ok rng] show ?thesis by simp
next
  case IO_retire
  with io_flush_retire [OF st _ ok rng] show ?thesis by simp
next
  case IO_stopped
  with st show ?thesis by simp
qed

lemma inv_io:
  assumes inv: "sys_inv s"
    and st: "io_step (logger s) (io s) = Some (Inr (lg', iopc', evs))"
  shows "sys_inv (s\<lparr> logger := lg', io := iopc', executed := executed s @ evs \<rparr>)"
  using io_step_inv [OF st, of "threads s" "executed s" "submitted s"] inv
  by (simp add: sys_inv_def)


subsection \<open>Every reachable state satisfies the invariant\<close>

lemma count_list_writable:
  "SwapRequestSlotIsReadable a \<Longrightarrow>
   count_list (map (\<lambda>i. SwapRequestSlotIsWritableValue (f i)) xs) a = 0"
  by (induction xs) (simp_all add: readable_not_writable)

lemma inv_init: "sys_inv (init m)"
  by (simp add: sys_inv_def init_def thr_ok_def Logger_new_def pend_def delivered_to_def
      slots_in_range_def count_list_writable)

lemma tlq_ok_new:
  "a \<noteq> 0 \<Longrightarrow> SwapRequestSlotIsReadable a \<Longrightarrow>
   tlq_ok a (TlsLogger_new x y) Idle Neutral 0 0 [] []"
  by (simp add: tlq_ok_def tls_wf_def TlsLogger_new_def ainv_def abs_tlq_def)

lemma io_ok_cong:
  assumes "thread_swap_request_slots lg' = thread_swap_request_slots lg"
    "threads_to_read lg' = threads_to_read lg"
    "swap_request_id_read lg' = swap_request_id_read lg"
  shows "io_ok lg' iopc = io_ok lg iopc"
  using assms by (cases iopc) (simp_all add: slots_in_range_def slot_count_def)

lemma inv_logger:
  assumes inv: "sys_inv s"
    and f: "thread_swap_request_slots lg' = thread_swap_request_slots (logger s)"
      "threads_to_read lg' = threads_to_read (logger s)"
      "swap_request_id_read lg' = swap_request_id_read (logger s)"
      "threads_to_swap_deferred lg' = threads_to_swap_deferred (logger s)"
      "swap_request_slots_to_retry lg' = swap_request_slots_to_retry (logger s)"
      "tls lg' = tls (logger s)"
  shows "sys_inv (s\<lparr> logger := lg' \<rparr>)"
proof -
  have "thr_ok lg' (io s) (threads s a) (delivered_to (executed s) a) (submitted s a) a" for a
  proof -
    from inv have "thr_ok (logger s) (io s) (threads s a) (delivered_to (executed s) a)
        (submitted s a) a"
      by (simp add: sys_inv_def)
    moreover from f have "tls lg' a = tls (logger s) a" by simp
    ultimately show ?thesis
      by (rule thr_ok_frame) (simp add: f pend_def)
  qed
  with inv show ?thesis
    by (simp add: sys_inv_def io_ok_cong [OF f(1-3)] f slots_in_range_def)
qed

lemma inv_enter:
  assumes inv: "sys_inv s" and idle: "threads s this = Idle"
    and pc': "pc' = Log_load e c \<or> pc' = Unreg_erase"
    and f: "thread_swap_request_slots lg' = thread_swap_request_slots (logger s)"
      "threads_to_read lg' = threads_to_read (logger s)"
      "swap_request_id_read lg' = swap_request_id_read (logger s)"
      "threads_to_swap_deferred lg' = threads_to_swap_deferred (logger s)"
      "swap_request_slots_to_retry lg' = swap_request_slots_to_retry (logger s)"
      "tls lg' = tls (logger s)"
  shows "sys_inv (goto s this lg' pc')"
proof -
  from inv f have i: "sys_inv (s\<lparr> logger := lg' \<rparr>)" by (rule inv_logger)
  have "thr_ok lg' (io s) (threads (goto s this lg' pc') a) (delivered_to (executed s) a)
          (submitted (goto s this lg' pc') a) a" for a
  proof -
    from i have o: "thr_ok lg' (io s) (threads s a) (delivered_to (executed s) a)
        (submitted s a) a"
      by (simp add: sys_inv_def)
    show ?thesis
    proof (cases "a = this")
      case False
      with o show ?thesis by (simp add: goto_def)
    next
      case True
      show ?thesis
      proof (cases "tls lg' this")
        case None
        with True pc' show ?thesis
          by (auto simp: thr_ok_def goto_def)
      next
        case (Some t)
        from thr_okD [OF o [unfolded True] Some]
        have "tlq_ok this t Idle (io_rel_of (threads_to_read lg') (io s) this)
            (pend lg' (io s) this) (count_list (threads_to_read lg') this)
            (delivered_to (executed s) this) (submitted s this)"
          by (simp add: idle)
        from c_out [OF this, of pc'] pc' Some True show ?thesis
          by (auto simp: thr_ok_def goto_def)
      qed
    qed
  qed
  with i show ?thesis
    by (simp add: sys_inv_def goto_def)
qed

lemma inv_first_use:
  assumes inv: "sys_inv s" and ns: "threads s this = NotStarted"
    and a: "this \<noteq> 0" "SwapRequestSlotIsReadable this" and thr: "tls_logger_of thr = this"
  shows "sys_inv (goto s this (TlsLoggerWrapper_new (logger s) thr) Idle)"
proof -
  define lg' where "lg' = TlsLoggerWrapper_new (logger s) thr"
  have f: "thread_swap_request_slots lg' = thread_swap_request_slots (logger s)"
      "threads_to_read lg' = threads_to_read (logger s)"
      "swap_request_id_read lg' = swap_request_id_read (logger s)"
      "threads_to_swap_deferred lg' = threads_to_swap_deferred (logger s)"
      "swap_request_slots_to_retry lg' = swap_request_slots_to_retry (logger s)"
      "tls lg' = (tls (logger s))(this \<mapsto> TlsLogger_new (pid_tid_of thr) (tid_of thr))"
    by (simp_all add: lg'_def TlsLoggerWrapper_new_def RegisterTlsLogger_def Let_def
        LogErrorSync_def thr)
  have "thr_ok lg' (io s) (threads (goto s this lg' Idle) a) (delivered_to (executed s) a)
          (submitted (goto s this lg' Idle) a) a" for a
  proof -
    from inv have o: "thr_ok (logger s) (io s) (threads s a) (delivered_to (executed s) a)
        (submitted s a) a"
      by (simp add: sys_inv_def)
    show ?thesis
    proof (cases "a = this")
      case False
      with f have "tls lg' a = tls (logger s) a" by simp
      with o have "thr_ok lg' (io s) (threads s a) (delivered_to (executed s) a)
          (submitted s a) a"
        by (rule thr_ok_frame) (simp add: f pend_def)
      with False show ?thesis by (simp add: goto_def)
    next
      case True
      have n: "tls (logger s) this = None"
      proof (cases "tls (logger s) this")
        case (Some t)
        from tlq_okD(5) [OF thr_okD [OF o [unfolded True] Some]] ns show ?thesis by simp
      qed simp
      with o True ns a tlq_ok_new [OF a, of "pid_tid_of thr" "tid_of thr"] show ?thesis
        by (simp add: thr_ok_def goto_def f pend_def)
    qed
  qed
  moreover from inv have "io_ok (logger s) (io s)"
    "slots_in_range (logger s) (swap_request_slots_to_retry (logger s))"
    by (simp_all add: sys_inv_def)
  ultimately show ?thesis
    unfolding lg'_def [symmetric]
    by (simp add: sys_inv_def goto_def io_ok_cong [OF f(1-3)] f slots_in_range_def)
qed

lemma inv_next_promise: "sys_inv (s\<lparr> next_promise := n \<rparr>) = sys_inv s"
  by (simp add: sys_inv_def)

lemma inv_start_io:
  assumes inv: "sys_inv s" and io: "io s = IO_not_started"
  shows "sys_inv (s\<lparr> logger := (logger s)\<lparr> keep_io_thread_alive := True \<rparr>, io := IO_top \<rparr>)"
proof -
  have "thr_ok ((logger s)\<lparr> keep_io_thread_alive := True \<rparr>) IO_top (threads s a)
      (delivered_to (executed s) a) (submitted s a) a" for a
  proof -
    from inv have "thr_ok (logger s) (io s) (threads s a) (delivered_to (executed s) a)
        (submitted s a) a"
      by (simp add: sys_inv_def)
    then show ?thesis
      by (rule thr_ok_frame) (simp_all add: pend_def io)
  qed
  with inv show ?thesis
    by (simp add: sys_inv_def slots_in_range_def)
qed

lemma inv_step:
  assumes "step s s'" and inv: "sys_inv s"
  shows "sys_inv s'"
  using assms(1)
proof cases
  case (thread now this lg' pc')
  with inv_thread [OF inv thread(2)] show ?thesis by simp
next
  case (io_thread lg' io' evs)
  with inv_io [OF inv io_thread(2)] show ?thesis by simp
next
  case (first_use this thr)
  with inv_first_use [OF inv first_use(2-5)] show ?thesis by simp
next
  case (call_Log this x)
  from inv_enter [OF inv call_Log(2), of "Log_load (UserEntry x) Ret" "UserEntry x" Ret "logger s"]
    call_Log(1)
  show ?thesis by simp
next
  case (call_StopLogging this)
  from inv_enter [OF inv call_StopLogging(2),
      of "Log_load ContentionEntry (Then_flush (next_promise s))" ContentionEntry
         "Then_flush (next_promise s)" "logger s"]
    call_StopLogging(1)
  show ?thesis by (simp add: inv_next_promise)
next
  case (call_StopTracing this)
  from inv_enter [OF inv call_StopTracing(2),
      of "Log_load (FlushedEntry (next_promise s)) (Then_wait_tracing (next_promise s))"
         "FlushedEntry (next_promise s)" "Then_wait_tracing (next_promise s)" "logger s"]
    call_StopTracing(1)
  show ?thesis by (simp add: inv_next_promise)
next
  case (call_StartNewTrace this out origin)
  from inv have "sys_inv (s\<lparr> logger := StartNewTrace (logger s) out origin \<rparr>)"
    by (rule inv_logger) (simp_all add: StartNewTrace_def)
  with call_StartNewTrace(1) show ?thesis by simp
next
  case (call_StartLogging this summary detail now)
  from inv have "sys_inv (s\<lparr> logger := StartLogging (logger s) summary detail now \<rparr>)"
    by (rule inv_logger) (simp_all add: StartLogging_def)
  with call_StartLogging(1) show ?thesis by simp
next
  case (thread_exit this)
  from inv_enter [OF inv thread_exit(2), of Unreg_erase _ _ "UnRegister_adopt (logger s) this"]
    thread_exit(1)
  show ?thesis by (simp add: UnRegister_adopt_def)
next
  case StartIOThread
  with inv_start_io [OF inv StartIOThread(2)] show ?thesis by simp
next
  case StopIOThread
  from inv have "sys_inv (s\<lparr> logger := (logger s)\<lparr> keep_io_thread_alive := False \<rparr> \<rparr>)"
    by (rule inv_logger) simp_all
  with StopIOThread show ?thesis by simp
qed

lemma reachable_inv: "reachable m s \<Longrightarrow> sys_inv s"
  by (induction rule: reachable.induct) (auto intro: inv_init inv_step)


section \<open>Properties of the running program\<close>

subsection \<open>Unread swaps, the lock loop, and the order of delivery\<close>

lemma thread_step_unread:
  assumes st: "thread_step now lg this pc = Some (Inr (lg', pc'))"
    and t: "tls lg a = Some t" "tls lg' a = Some t'"
  shows "unread_swaps t' = unread_swaps t"
proof (cases "a = this")
  case False
  from thread_step_frame(8) [OF st False] t show ?thesis by simp
next
  case True
  show ?thesis
  proof (cases pc)
    case (Log_cas e i n c)
    with st t True show ?thesis
      by (auto simp: with_tls_def tls_set_tls split: if_splits)
  next
    case (Log_unlock i c)
    with st t True show ?thesis
      by (auto simp: with_tls_def tls_set_tls compare_exchange_strong_def split: if_splits)
  next
    case (Req_cas i r c)
    with st t True show ?thesis
      by (auto simp: with_tls_def tls_set_tls compare_exchange_strong_def
          RequestSwapBuffersSlotRetried_def split: if_splits)
  qed (use st t True in \<open>auto simp: with_tls_def tls_set_tls UnRegister_erase_def
         split: if_splits\<close>)
qed

lemma io_step_unread:
  assumes st: "io_step lg iopc = Some (Inr (lg', iopc', evs))"
    and t: "tls lg a = Some t" "tls lg' a = Some t'"
    and ne: "unread_swaps t' \<noteq> unread_swaps t"
  shows "(\<exists>ps. iopc = IO_swap_publish a ps
            \<and> t' = t\<lparr> i_write := i_read t, i_read := i_read t XOR 1,
                       unread_swaps := unread_swaps t + 1 \<rparr>)
         \<or> (\<exists>k. iopc = IO_run k [] \<and> threads_to_read lg ! k = a
               \<and> t' = FinishReadingEntries t)"
proof (cases iopc)
  case IO_top
  with st t ne show ?thesis by (auto split: if_splits)
next
  case (IO_gather_retry ts xs)
  with st t ne show ?thesis
    by (cases xs) (auto simp: Let_def retry_got_def split: if_splits)
next
  case (IO_gather_retry_cas ts sr xs v)
  with st t ne show ?thesis
    by (auto simp: compare_exchange_strong_def retry_got_def split: if_splits)
next
  case (IO_gather_new_load ts)
  with st t ne show ?thesis by auto
next
  case (IO_gather_new ts e)
  with st t ne show ?thesis
    by (auto simp: Let_def new_got_def retry_later_fields split: if_splits)
next
  case (IO_gather_new_cas ts e v)
  with st t ne show ?thesis
    by (auto simp: compare_exchange_strong_def Let_def new_got_def retry_later_fields
        split: if_splits)
next
  case (IO_swap ts)
  with st t ne show ?thesis
    by (cases ts) (auto simp: with_tls_def tls_set_tls compare_exchange_strong_def
        split: if_splits option.splits)
next
  case (IO_swap_publish p ps)
  with st t ne show ?thesis
    by (auto simp: with_tls_def tls_set_tls split: if_splits option.splits)
next
  case (IO_process k)
  with st t ne show ?thesis
    by (auto simp: with_tls_def tls_set_tls StartReadingEntries_def compare_exchange_strong_def
        split: if_splits option.splits)
next
  case (IO_run k es)
  show ?thesis
  proof (cases es)
    case Nil
    with st t ne IO_run show ?thesis
      by (auto simp: with_tls_def tls_set_tls split: if_splits option.splits)
  next
    case (Cons e es')
    with st IO_run have "run_entry e lg = Inr lg'"
      by (auto split: sum.splits)
    from run_entry_same [OF this] have "rel_option same_queue (tls lg a) (tls lg' a)"
      by (simp add: same_queues_def)
    with t ne show ?thesis
      by (auto simp: same_queue_def)
  qed
next
  case IO_flush
  with st t ne show ?thesis by (auto simp: IOThread_flush_def)
next
  case IO_retire
  with st t ne show ?thesis
    by (auto simp: IOThread_retire_def tls_erase_orphans split: if_splits)
qed (use st in simp_all)

lemma step_unread:
  assumes st: "step s s'" and inv: "sys_inv s"
    and t: "tls (logger s) a = Some t" "tls (logger s') a = Some t'"
    and ne: "unread_swaps t' \<noteq> unread_swaps t"
  shows "(\<exists>ps. io s = IO_swap_publish a ps
            \<and> t' = t\<lparr> i_write := i_read t, i_read := i_read t XOR 1,
                       unread_swaps := unread_swaps t + 1 \<rparr>)
         \<or> (\<exists>k. io s = IO_run k [] \<and> threads_to_read (logger s) ! k = a
               \<and> t' = FinishReadingEntries t)"
  using st
proof cases
  case (thread now this lg' pc')
  with thread_step_unread [OF thread(2) t(1), of t'] t(2) ne show ?thesis
    by (simp add: goto_def)
next
  case (io_thread lg' io' evs)
  with io_step_unread [OF io_thread(2) t(1), of t'] t(2) ne show ?thesis
    by simp
next
  case (first_use this thr)
  from inv have o: "thr_ok (logger s) (io s) (threads s a) (delivered_to (executed s) a)
        (submitted s a) a"
    by (simp add: sys_inv_def)
  from tlq_okD(5) [OF thr_okD [OF o t(1)]] have "threads s a \<noteq> NotStarted" by auto
  with first_use have "a \<noteq> this" by auto
  with first_use t ne show ?thesis
    by (simp add: goto_def TlsLoggerWrapper_new_def RegisterTlsLogger_def Let_def
        LogErrorSync_def split: if_splits)
qed (use t ne in \<open>auto simp: goto_def UnRegister_adopt_def StartNewTrace_def StartLogging_def\<close>)

lemma reachable_tlq_ok:
  assumes "reachable m s" "tls (logger s) a = Some t"
  shows "tlq_ok a t (threads s a) (io_rel_of (threads_to_read (logger s)) (io s) a)
           (pend (logger s) (io s) a) (count_list (threads_to_read (logger s)) a)
           (delivered_to (executed s) a) (submitted s a)"
proof -
  from reachable_inv [OF assms(1)]
  have "thr_ok (logger s) (io s) (threads s a) (delivered_to (executed s) a) (submitted s a) a"
    by (simp add: sys_inv_def)
  from thr_okD [OF this assms(2)] show ?thesis .
qed

lemma ainv_unread: "ainv q pc rel pd nt dlv sub \<Longrightarrow> unread_n q = 0 \<or> unread_n q = 1"
  unfolding ainv_def by simp

lemma ainv_fifo:
  "ainv q pc rel pd nt dlv sub \<Longrightarrow> dlv @ unread_part rel (read_buf q) @ write_buf q @ in_flight pc = sub"
  unfolding ainv_def by simp

lemma io_step_evs:
  assumes st: "io_step lg iopc = Some (Inr (lg', iopc', evs))"
  shows "evs = [] \<or> (\<exists>k e es. iopc = IO_run k (e # es) \<and> iopc' = IO_run k es
                           \<and> evs = [(threads_to_read lg ! k, e)])"
proof (cases iopc)
  case (IO_gather_retry ts xs)
  with st show ?thesis
    by (cases xs) (auto simp: Let_def split: if_splits prod.splits)
next
  case (IO_swap ts)
  with st show ?thesis
    by (cases ts) (auto simp: with_tls_def split: if_splits prod.splits option.splits bool.splits)
next
  case (IO_run k es)
  with st show ?thesis
    by (cases es) (auto simp: with_tls_def split: option.splits sum.splits)
qed (use st in \<open>auto simp: with_tls_def Let_def
       split: if_splits prod.splits option.splits bool.splits\<close>)

text \<open>
  C6. In every reachable state, \<open>unread_swaps\<close> of every TlsLogger is 0 or 1. When
  the I/O thread comes to a TlsLogger in \<^verbatim>\<open>threads_to_swap\<close> (line 362), its step is
  this: if \<^verbatim>\<open>ReadBufferHasBeenConsumed\<close> holds (that is, \<open>unread_swaps = 0\<close>), it
  goes into \<^verbatim>\<open>SwapBuffers\<close>, whose CAS succeeds; otherwise it leaves the TlsLogger
  as it is and appends it to \<open>threads_to_swap_deferred\<close>, where the next iteration
  starts. The I/O thread gets into \<^verbatim>\<open>SwapBuffers\<close> by no other step. A step of
  the program that changes \<open>unread_swaps\<close> is either the last step of
  \<^verbatim>\<open>SwapBuffers\<close>, from 0 to 1, or \<^verbatim>\<open>FinishReadingEntries\<close>, from 1 to 0.
\<close>

theorem unread_swaps_zero_or_one:
  fixes s :: "'a system"
  assumes r: "reachable m s" and t: "tls (logger s) a = Some t"
  shows "(unread_swaps t = 0 \<or> unread_swaps t = 1)
    \<and> (\<forall>ps.
          io s = IO_swap (a # ps) \<longrightarrow>
          io_step (logger s) (io s) =
            (if ReadBufferHasBeenConsumed t
             then Some (Inr (set_tls (logger s) a
                               (t\<lparr> entry_states := (entry_states t)[unat (i_read t) := Unlocked] \<rparr>),
                             IO_swap_publish a ps, []))
             else Some (Inr ((logger s)\<lparr> threads_to_swap_deferred :=
                                            threads_to_swap_deferred (logger s) @ [a] \<rparr>,
                             IO_swap ps, []))))
    \<and> (\<forall>(lg :: 'a Logger) iopc lg' ps evs.
          io_step lg iopc = Some (Inr (lg', IO_swap_publish a ps, evs)) \<longrightarrow>
          iopc = IO_swap (a # ps)
          \<and> (\<exists>t0. tls lg a = Some t0 \<and> ReadBufferHasBeenConsumed t0))
    \<and> (\<forall>s' t'.
          step s s' \<longrightarrow> tls (logger s') a = Some t' \<longrightarrow> unread_swaps t' \<noteq> unread_swaps t \<longrightarrow>
          (\<exists>ps. io s = IO_swap_publish a ps \<and> unread_swaps t = 0 \<and> unread_swaps t' = 1)
          \<or> (\<exists>k. io s = IO_run k [] \<and> threads_to_read (logger s) ! k = a
                \<and> t' = FinishReadingEntries t \<and> unread_swaps t = 1 \<and> unread_swaps t' = 0))"
proof (intro conjI allI impI)
  note q = reachable_tlq_ok [OF r t]
  from ainv_unread [OF tlq_okD(6) [OF q]]
  show u: "unread_swaps t = 0 \<or> unread_swaps t = 1"
    by (simp add: abs_tlq_def)
  {
    fix ps
    assume i: "io s = IO_swap (a # ps)"
    from q i have "ainv (abs_tlq t) (abs_pc t (threads s a)) Neutral
        (pend (logger s) (io s) a) (count_list (threads_to_read (logger s)) a)
        (delivered_to (executed s) a) (submitted s a)"
      by (simp add: tlq_ok_def)
    then have "unread_swaps t = 0 \<longrightarrow> entry_states t ! unat (i_read t) = ReadLock"
      unfolding ainv_def by (simp add: abs_tlq_def)
    with t i show "io_step (logger s) (io s) =
            (if ReadBufferHasBeenConsumed t
             then Some (Inr (set_tls (logger s) a
                               (t\<lparr> entry_states := (entry_states t)[unat (i_read t) := Unlocked] \<rparr>),
                             IO_swap_publish a ps, []))
             else Some (Inr ((logger s)\<lparr> threads_to_swap_deferred :=
                                            threads_to_swap_deferred (logger s) @ [a] \<rparr>,
                             IO_swap ps, [])))"
      by (simp add: with_tls_def ReadBufferHasBeenConsumed_def compare_exchange_strong_def)
  }
  {
    fix lg :: "'a Logger" and iopc lg' ps evs
    assume st: "io_step lg iopc = Some (Inr (lg', IO_swap_publish a ps, evs))"
    have both: "iopc = IO_swap (a # ps)
        \<and> (\<exists>t0. tls lg a = Some t0 \<and> ReadBufferHasBeenConsumed t0)"
    proof (cases iopc)
      case (IO_gather_retry ts xs)
      with st show ?thesis
        by (cases xs) (auto simp: Let_def split: if_splits prod.splits)
    next
      case (IO_swap ts)
      with st show ?thesis
        by (cases ts) (auto simp: with_tls_def split: if_splits prod.splits option.splits
            bool.splits)
    next
      case (IO_run k es)
      with st show ?thesis
        by (cases es) (auto simp: with_tls_def split: option.splits sum.splits)
    qed (use st in \<open>auto simp: with_tls_def Let_def
           split: if_splits prod.splits option.splits bool.splits\<close>)
    from both show "iopc = IO_swap (a # ps)" ..
    from both show "\<exists>t0. tls lg a = Some t0 \<and> ReadBufferHasBeenConsumed t0" ..
  }
  {
    fix s' t'
    assume st: "step s s'" and t': "tls (logger s') a = Some t'"
      and ne: "unread_swaps t' \<noteq> unread_swaps t"
    from step_unread [OF st reachable_inv [OF r] t t' ne]
    show "(\<exists>ps. io s = IO_swap_publish a ps \<and> unread_swaps t = 0 \<and> unread_swaps t' = 1)
          \<or> (\<exists>k. io s = IO_run k [] \<and> threads_to_read (logger s) ! k = a
                \<and> t' = FinishReadingEntries t \<and> unread_swaps t = 1 \<and> unread_swaps t' = 0)"
    proof (elim disjE exE conjE)
      fix ps
      assume i: "io s = IO_swap_publish a ps"
        and e: "t' = t\<lparr> i_write := i_read t, i_read := i_read t XOR 1,
                       unread_swaps := unread_swaps t + 1 \<rparr>"
      from q i have "ainv (abs_tlq t) (abs_pc t (threads s a)) Midswap
          (pend (logger s) (io s) a) (count_list (threads_to_read (logger s)) a)
          (delivered_to (executed s) a) (submitted s a)"
        by (simp add: tlq_ok_def)
      then have "unread_swaps t = 0"
        unfolding ainv_def by (simp add: abs_tlq_def)
      with i e show ?thesis by simp
    next
      fix k
      assume i: "io s = IO_run k []" and k: "threads_to_read (logger s) ! k = a"
        and e: "t' = FinishReadingEntries t"
      from q i k have "ainv (abs_tlq t) (abs_pc t (threads s a)) (Reading [])
          (pend (logger s) (io s) a) (count_list (threads_to_read (logger s)) a)
          (delivered_to (executed s) a) (submitted s a)"
        by (simp add: tlq_ok_def)
      then have "unread_swaps t = 1"
        unfolding ainv_def by (simp add: abs_tlq_def)
      with i k e show ?thesis by (simp add: FinishReadingEntries_def)
    qed
  }
qed




subsection \<open>The invariant of the barriers\<close>

lemma Log_return_promise:
  "promise_of (Log_return c) = Some k \<Longrightarrow> cont_promise c = Some k"
  "barrier_sent (Log_return c) = Some k \<Longrightarrow>
     cont_sent c = Some k \<or> FlushedEntry k \<in> set (entering (Log_return c))"
  "FlushedEntry k \<in> set (entering (Log_return c)) \<Longrightarrow> cont_promise c = Some k"
  by (cases c; simp)+

lemma thread_step_promise:
  assumes st: "thread_step now lg this pc = Some (Inr (lg', pc'))"
  shows "promises lg' = promises lg"
    and "promise_of pc' = Some k \<Longrightarrow> promise_of pc = Some k"
    and "FlushedEntry k \<in> set (entering pc') \<Longrightarrow> promise_of pc = Some k"
    and "barrier_sent pc' = Some k \<Longrightarrow>
           barrier_sent pc = Some k \<or> FlushedEntry k \<in> set (entering pc')"
    and "tls lg a \<noteq> None \<Longrightarrow> tls lg' a \<noteq> None"
proof -
  have "promises lg' = promises lg
    \<and> (promise_of pc' = Some k \<longrightarrow> promise_of pc = Some k)
    \<and> (FlushedEntry k \<in> set (entering pc') \<longrightarrow> promise_of pc = Some k)
    \<and> (barrier_sent pc' = Some k \<longrightarrow>
           barrier_sent pc = Some k \<or> FlushedEntry k \<in> set (entering pc'))
    \<and> (tls lg a \<noteq> None \<longrightarrow> tls lg' a \<noteq> None)"
  proof (cases pc)
    case (Log_load e c)
    with st show ?thesis
      by (auto simp: with_tls_def split: option.splits)
  next
    case (Log_cas e i n c)
    with st show ?thesis
      by (auto simp: with_tls_def set_tls_def split: option.splits if_splits)
  next
    case (Log_append e i c)
    with st show ?thesis
      by (auto simp: with_tls_def set_tls_def split: option.splits)
  next
    case (Log_unlock i c)
    with st show ?thesis
      by (auto simp: with_tls_def set_tls_def compare_exchange_strong_def
          dest: Log_return_promise split: option.splits if_splits)
  next
    case (Req_fetch i c)
    with st show ?thesis by auto
  next
    case (Req_cas i r c)
    with st show ?thesis
      by (auto simp: with_tls_def set_tls_def compare_exchange_strong_def
          dest: Log_return_promise split: option.splits if_splits)
  next
    case Unreg_erase
    with st show ?thesis by (auto simp: UnRegister_erase_def)
  next
    case (Wait_logging j)
    with st show ?thesis by (auto split: if_splits)
  next
    case (Wait_tracing j)
    with st show ?thesis by (auto split: if_splits)
  qed (use st in simp_all)
  then show "promises lg' = promises lg"
    and "promise_of pc' = Some k \<Longrightarrow> promise_of pc = Some k"
    and "FlushedEntry k \<in> set (entering pc') \<Longrightarrow> promise_of pc = Some k"
    and "barrier_sent pc' = Some k \<Longrightarrow>
           barrier_sent pc = Some k \<or> FlushedEntry k \<in> set (entering pc')"
    and "tls lg a \<noteq> None \<Longrightarrow> tls lg' a \<noteq> None"
    by blast+
qed

lemma CollectAll_promises:
  "CollectAll ps lg = Inr lg1 \<Longrightarrow> promises lg1 = promises lg"
proof (induction ps arbitrary: lg)
  case Nil
  then show ?case by simp
next
  case (Cons p ps)
  then obtain la where a: "CollectTlsLoggerStats lg p = Inr la" and b: "CollectAll ps la = Inr lg1"
    by (auto split: sum.splits)
  from a have "promises la = promises lg"
    by (auto simp: CollectTlsLoggerStats_def split: option.splits prod.splits)
  with Cons.IH [OF b] show ?case by simp
qed

lemma run_entry_promises:
  assumes "run_entry e lg = Inr lg1" "k \<in> promises lg1"
  shows "k \<in> promises lg \<or> e = FlushedEntry k"
proof (cases e)
  case (OrphanEntry p)
  with assms show ?thesis
    by (auto simp: CollectTlsLoggerStats_def split: sum.splits option.splits prod.splits)
next
  case ContentionEntry
  with assms show ?thesis
    by (auto simp: log_contention_counters_def split: sum.splits dest!: CollectAll_promises)
qed (use assms in auto)

lemma erase_orphans_promises: "promises (erase_orphans ps lg) = promises lg"
  by (induction ps arbitrary: lg) simp_all

lemma io_step_promises:
  assumes st: "io_step lg iopc = Some (Inr (lg', iopc', evs))" and k: "k \<in> promises lg'"
  shows "k \<in> promises lg \<or> (\<exists>p. (p, FlushedEntry k) \<in> set evs)"
proof (cases iopc)
  case IO_top
  with st k show ?thesis by (auto split: if_splits)
next
  case (IO_gather_retry ts xs)
  with st k show ?thesis
    by (cases xs) (auto simp: Let_def retry_got_def split: if_splits)
next
  case (IO_gather_retry_cas ts sr xs v)
  with st k show ?thesis
    by (auto simp: compare_exchange_strong_def retry_got_def split: if_splits)
next
  case (IO_gather_new_load ts)
  with st k show ?thesis by auto
next
  case (IO_gather_new ts e)
  with st k show ?thesis
    by (auto simp: Let_def new_got_def retry_later_def split: if_splits)
next
  case (IO_gather_new_cas ts e v)
  with st k show ?thesis
    by (auto simp: compare_exchange_strong_def Let_def new_got_def retry_later_def
        split: if_splits)
next
  case (IO_swap ts)
  with st k show ?thesis
    by (cases ts) (auto simp: with_tls_def set_tls_def compare_exchange_strong_def
        split: if_splits option.splits)
next
  case (IO_swap_publish p ps)
  with st k show ?thesis
    by (auto simp: with_tls_def set_tls_def split: if_splits option.splits)
next
  case (IO_process j)
  with st k show ?thesis
    by (auto simp: with_tls_def set_tls_def StartReadingEntries_def compare_exchange_strong_def
        split: if_splits option.splits)
next
  case (IO_run j es)
  show ?thesis
  proof (cases es)
    case Nil
    with st k IO_run show ?thesis
      by (auto simp: with_tls_def set_tls_def split: if_splits option.splits)
  next
    case (Cons e es')
    with st IO_run have "run_entry e lg = Inr lg'" "evs = [(threads_to_read lg ! j, e)]"
      by (auto split: sum.splits)
    with run_entry_promises [OF this(1) k] show ?thesis by auto
  qed
next
  case IO_flush
  with st k show ?thesis by (auto simp: IOThread_flush_def)
next
  case IO_retire
  with st k show ?thesis
    by (auto simp: IOThread_retire_def erase_orphans_promises split: if_splits)
qed (use st in simp_all)

lemma io_step_reading:
  assumes st: "io_step lg iopc = Some (Inr (lg', iopc', evs))"
    and io': "iopc' = IO_run j es"
    and old: "\<And>j es. iopc = IO_run j es \<Longrightarrow> tls lg (threads_to_read lg ! j) \<noteq> None"
  shows "tls lg' (threads_to_read lg' ! j) \<noteq> None"
proof (cases iopc)
  case IO_top
  with st io' show ?thesis by (auto split: if_splits)
next
  case (IO_gather_retry ts xs)
  with st io' show ?thesis
    by (cases xs) (auto simp: Let_def split: if_splits prod.splits)
next
  case (IO_gather_retry_cas ts sr xs v)
  with st io' show ?thesis
    by (auto simp: compare_exchange_strong_def split: if_splits prod.splits)
next
  case (IO_gather_new_load ts)
  with st io' show ?thesis by auto
next
  case (IO_gather_new ts e)
  with st io' show ?thesis
    by (auto simp: Let_def split: if_splits prod.splits)
next
  case (IO_gather_new_cas ts e v)
  with st io' show ?thesis
    by (auto simp: compare_exchange_strong_def split: if_splits prod.splits)
next
  case (IO_swap ts)
  with st io' show ?thesis
    by (cases ts) (auto simp: with_tls_def compare_exchange_strong_def
        split: if_splits option.splits)
next
  case (IO_swap_publish p ps)
  with st io' show ?thesis
    by (auto simp: with_tls_def split: if_splits option.splits)
next
  case (IO_process i)
  with st io' show ?thesis
    by (auto simp: with_tls_def tls_set_tls set_tls_fields split: if_splits option.splits)
next
  case (IO_run i xs)
  show ?thesis
  proof (cases xs)
    case Nil
    with st io' IO_run show ?thesis
      by (auto simp: with_tls_def split: if_splits option.splits)
  next
    case (Cons e es')
    with st IO_run io' have run: "run_entry e lg = Inr lg'" and j: "i = j"
      by (auto split: sum.splits)
    from run_entry_same [OF run]
    have "rel_option same_queue (tls lg (threads_to_read lg ! j)) (tls lg' (threads_to_read lg ! j))"
      and "threads_to_read lg' = threads_to_read lg"
      by (simp_all add: same_queues_def)
    with old [OF IO_run] j show ?thesis
      by (cases "tls lg' (threads_to_read lg ! j)") auto
  qed
next
  case IO_flush
  with st io' show ?thesis by auto
next
  case IO_retire
  with st io' show ?thesis by auto
qed (use st in simp_all)

lemma barrier_goto:
  assumes inv: "barrier_inv s"
    and l: "promises lg' = promises (logger s)"
      "threads_to_read lg' = threads_to_read (logger s)"
      "\<And>a. tls (logger s) a \<noteq> None \<Longrightarrow> tls lg' a \<noteq> None"
    and o: "\<And>k. promise_of pc' = Some k \<or> FlushedEntry k \<in> set (entering pc') \<Longrightarrow>
              promise_of (threads s this) = Some k \<or> (next_promise s \<le> k \<and> k < n')"
    and b: "\<And>k. barrier_sent pc' = Some k \<Longrightarrow>
              barrier_sent (threads s this) = Some k \<or> FlushedEntry k \<in> set (entering pc')"
    and n: "next_promise s \<le> n'"
  shows "barrier_inv ((goto s this lg' pc')\<lparr> next_promise := n' \<rparr>)"
proof -
  define s' where "s' = (goto s this lg' pc')\<lparr> next_promise := n' \<rparr>"
  have f: "logger s' = lg'" "executed s' = executed s" "io s' = io s" "next_promise s' = n'"
    "threads s' = (threads s)(this := pc')"
    "submitted s' = (submitted s)(this := submitted s this @ entering pc')"
    by (simp_all add: s'_def goto_def)
  have ow: "owns s p k \<or> (p = this \<and> next_promise s \<le> k \<and> k < n')" if "owns s' p k" for p k
    using that o [of k] by (auto simp: owns_def f split: if_splits)
  from inv have i1: "\<And>k. k \<in> promises (logger s) \<Longrightarrow> \<exists>p. (p, FlushedEntry k) \<in> set (executed s)"
    and i2: "\<And>p k. barrier_sent (threads s p) = Some k \<Longrightarrow> FlushedEntry k \<in> set (submitted s p)"
    and i3: "\<And>p e. (p, e) \<in> set (executed s) \<Longrightarrow> e \<in> set (submitted s p)"
    and i4: "\<And>j es. io s = IO_run j es \<Longrightarrow>
            tls (logger s) (threads_to_read (logger s) ! j) \<noteq> None"
    and i5: "\<And>p k. owns s p k \<Longrightarrow> k < next_promise s"
    and i6: "\<And>p q k. owns s p k \<Longrightarrow> owns s q k \<Longrightarrow> p = q"
    unfolding barrier_inv_def by blast+
  have "\<forall>k. k \<in> promises (logger s') \<longrightarrow> (\<exists>p. (p, FlushedEntry k) \<in> set (executed s'))"
    using i1 by (simp add: f l)
  moreover have "\<forall>p k. barrier_sent (threads s' p) = Some k \<longrightarrow>
      FlushedEntry k \<in> set (submitted s' p)"
    using i2 b by (auto simp: f)
  moreover have "\<forall>p e. (p, e) \<in> set (executed s') \<longrightarrow> e \<in> set (submitted s' p)"
    using i3 by (auto simp: f)
  moreover have "\<forall>j es. io s' = IO_run j es \<longrightarrow>
            tls (logger s') (threads_to_read (logger s') ! j) \<noteq> None"
    using i4 l(3) by (auto simp: f l(2))
  moreover have "\<forall>p k. owns s' p k \<longrightarrow> k < next_promise s'"
    using ow i5 n by (fastforce simp: f)
  moreover have "\<forall>p q k. owns s' p k \<longrightarrow> owns s' q k \<longrightarrow> p = q"
  proof (intro allI impI)
    fix p q k
    assume "owns s' p k" "owns s' q k"
    from ow [OF this(1)] ow [OF this(2)] show "p = q"
      using i5 [of p k] i5 [of q k] i6 [of p k q] by auto
  qed
  ultimately show ?thesis
    unfolding s'_def [symmetric] barrier_inv_def by blast
qed

lemma barrier_goto_same:
  assumes inv: "barrier_inv s"
    and l: "promises lg' = promises (logger s)"
      "threads_to_read lg' = threads_to_read (logger s)"
      "\<And>a. tls (logger s) a \<noteq> None \<Longrightarrow> tls lg' a \<noteq> None"
    and o: "\<And>k. promise_of pc' = Some k \<or> FlushedEntry k \<in> set (entering pc') \<Longrightarrow>
              promise_of (threads s this) = Some k"
    and b: "\<And>k. barrier_sent pc' = Some k \<Longrightarrow>
              barrier_sent (threads s this) = Some k \<or> FlushedEntry k \<in> set (entering pc')"
  shows "barrier_inv (goto s this lg' pc')"
proof -
  from inv l have "barrier_inv ((goto s this lg' pc')\<lparr> next_promise := next_promise s \<rparr>)"
    by (rule barrier_goto) (use o b in auto)
  then show ?thesis by (simp add: goto_def)
qed

lemma barrier_thread:
  assumes inv: "barrier_inv s"
    and st: "thread_step now (logger s) this (threads s this) = Some (Inr (lg', pc'))"
  shows "barrier_inv (goto s this lg' pc')"
  using inv thread_step_promise(1) [OF st] thread_step_frame(1) [OF st]
proof (rule barrier_goto_same)
  show "tls (logger s) a \<noteq> None \<Longrightarrow> tls lg' a \<noteq> None" for a
    by (rule thread_step_promise(5) [OF st])
  show "promise_of pc' = Some k \<or> FlushedEntry k \<in> set (entering pc') \<Longrightarrow>
          promise_of (threads s this) = Some k" for k
    using thread_step_promise(2,3) [OF st] by blast
  show "barrier_sent pc' = Some k \<Longrightarrow>
          barrier_sent (threads s this) = Some k \<or> FlushedEntry k \<in> set (entering pc')" for k
    by (rule thread_step_promise(4) [OF st])
qed

lemma barrier_io:
  assumes inv: "barrier_inv s" and sinv: "sys_inv s"
    and st: "io_step (logger s) (io s) = Some (Inr (lg', io', evs))"
  shows "barrier_inv (s\<lparr> logger := lg', io := io', executed := executed s @ evs \<rparr>)"
proof -
  define s' where "s' = s\<lparr> logger := lg', io := io', executed := executed s @ evs \<rparr>"
  have f: "logger s' = lg'" "executed s' = executed s @ evs" "io s' = io'"
    "next_promise s' = next_promise s" "threads s' = threads s" "submitted s' = submitted s"
    by (simp_all add: s'_def)
  have ow: "owns s' p k = owns s p k" for p k
    by (simp add: owns_def f)
  from inv have i1: "\<And>k. k \<in> promises (logger s) \<Longrightarrow> \<exists>p. (p, FlushedEntry k) \<in> set (executed s)"
    and i2: "\<And>p k. barrier_sent (threads s p) = Some k \<Longrightarrow> FlushedEntry k \<in> set (submitted s p)"
    and i3: "\<And>p e. (p, e) \<in> set (executed s) \<Longrightarrow> e \<in> set (submitted s p)"
    and i4: "\<And>j es. io s = IO_run j es \<Longrightarrow>
            tls (logger s) (threads_to_read (logger s) ! j) \<noteq> None"
    and i5: "\<And>p k. owns s p k \<Longrightarrow> k < next_promise s"
    and i6: "\<And>p q k. owns s p k \<Longrightarrow> owns s q k \<Longrightarrow> p = q"
    unfolding barrier_inv_def by blast+
  have "\<forall>k. k \<in> promises (logger s') \<longrightarrow> (\<exists>p. (p, FlushedEntry k) \<in> set (executed s'))"
    using io_step_promises [OF st] i1 by (fastforce simp: f)
  moreover have "\<forall>p k. barrier_sent (threads s' p) = Some k \<longrightarrow>
      FlushedEntry k \<in> set (submitted s' p)"
    using i2 by (simp add: f)
  moreover have "\<forall>p e. (p, e) \<in> set (executed s') \<longrightarrow> e \<in> set (submitted s' p)"
  proof (intro allI impI)
    fix p e
    assume pe: "(p, e) \<in> set (executed s')"
    from io_step_evs [OF st] show "e \<in> set (submitted s' p)"
    proof (elim disjE exE conjE)
      assume "evs = []"
      with pe i3 show ?thesis by (simp add: f)
    next
      fix k e' es
      assume i: "io s = IO_run k (e' # es)"
        and e: "evs = [(threads_to_read (logger s) ! k, e')]"
      show ?thesis
      proof (cases "(p, e) \<in> set (executed s)")
        case True
        with i3 show ?thesis by (simp add: f)
      next
        case False
        with pe e have p: "p = threads_to_read (logger s) ! k" and e': "e' = e"
          by (simp_all add: f)
        from i4 [OF i] p obtain t where t: "tls (logger s) p = Some t" by auto
        from sinv have "thr_ok (logger s) (io s) (threads s p) (delivered_to (executed s) p)
            (submitted s p) p"
          by (simp add: sys_inv_def)
        note eq = ainv_fifo [OF tlq_okD(6) [OF thr_okD [OF this t]]]
        have "e \<in> set (delivered_to (executed s) p
            @ unread_part (io_rel_of (threads_to_read (logger s)) (io s) p) (read_buf (abs_tlq t))
            @ write_buf (abs_tlq t) @ in_flight (abs_pc t (threads s p)))"
          using i p e' by simp
        then have "e \<in> set (submitted s p)"
          unfolding eq .
        then show ?thesis by (simp add: f)
      qed
    qed
  qed
  moreover have "\<forall>j es. io s' = IO_run j es \<longrightarrow>
            tls (logger s') (threads_to_read (logger s') ! j) \<noteq> None"
    using io_step_reading [OF st _ i4] by (simp add: f)
  moreover have "\<forall>p k. owns s' p k \<longrightarrow> k < next_promise s'"
    using i5 by (simp add: ow f)
  moreover have "\<forall>p q k. owns s' p k \<longrightarrow> owns s' q k \<longrightarrow> p = q"
    using i6 by (simp add: ow)
  ultimately show ?thesis
    unfolding s'_def [symmetric] barrier_inv_def by blast
qed

lemma barrier_logger:
  assumes inv: "barrier_inv s"
    and l: "promises lg' = promises (logger s)"
      "threads_to_read lg' = threads_to_read (logger s)"
      "tls lg' = tls (logger s)"
    and i: "io' = io s \<or> io' = IO_top"
  shows "barrier_inv (s\<lparr> logger := lg', io := io' \<rparr>)"
  using inv i unfolding barrier_inv_def owns_def
  by (elim disjE; simp add: l)

lemma barrier_init: "barrier_inv (init m)"
  by (simp add: barrier_inv_def init_def Logger_new_def owns_def)

lemma barrier_step:
  assumes "step s s'" and inv: "barrier_inv s" and sinv: "sys_inv s"
  shows "barrier_inv s'"
  using assms(1)
proof cases
  case (thread now this lg' pc')
  with barrier_thread [OF inv thread(2)] show ?thesis by simp
next
  case (io_thread lg' io' evs)
  with barrier_io [OF inv sinv io_thread(2)] show ?thesis by simp
next
  case (first_use this thr)
  from inv have "barrier_inv (goto s this (TlsLoggerWrapper_new (logger s) thr) Idle)"
    by (rule barrier_goto_same)
       (simp_all add: TlsLoggerWrapper_new_def RegisterTlsLogger_def Let_def LogErrorSync_def)
  with first_use show ?thesis by simp
next
  case (call_Log this x)
  from inv have "barrier_inv (goto s this (logger s) (Log_load (UserEntry x) Ret))"
    by (rule barrier_goto_same) simp_all
  with call_Log show ?thesis by simp
next
  case (call_StopLogging this)
  from inv have "barrier_inv ((goto s this (logger s)
      (Log_load ContentionEntry (Then_flush (next_promise s))))
        \<lparr> next_promise := Suc (next_promise s) \<rparr>)"
    by (rule barrier_goto) simp_all
  with call_StopLogging show ?thesis by simp
next
  case (call_StopTracing this)
  from inv have "barrier_inv ((goto s this (logger s)
      (Log_load (FlushedEntry (next_promise s)) (Then_wait_tracing (next_promise s))))
        \<lparr> next_promise := Suc (next_promise s) \<rparr>)"
    by (rule barrier_goto) auto
  with call_StopTracing show ?thesis by simp
next
  case (call_StartNewTrace this out origin)
  from inv have "barrier_inv (s\<lparr> logger := StartNewTrace (logger s) out origin, io := io s \<rparr>)"
    by (rule barrier_logger) (simp_all add: StartNewTrace_def)
  with call_StartNewTrace show ?thesis by simp
next
  case (call_StartLogging this summary detail now)
  from inv have "barrier_inv (s\<lparr> logger := StartLogging (logger s) summary detail now,
      io := io s \<rparr>)"
    by (rule barrier_logger) (simp_all add: StartLogging_def)
  with call_StartLogging show ?thesis by simp
next
  case (thread_exit this)
  from inv have "barrier_inv (goto s this (UnRegister_adopt (logger s) this) Unreg_erase)"
    by (rule barrier_goto_same) (simp_all add: UnRegister_adopt_def)
  with thread_exit show ?thesis by simp
next
  case StartIOThread
  from inv have "barrier_inv (s\<lparr> logger := (logger s)\<lparr> keep_io_thread_alive := True \<rparr>,
      io := IO_top \<rparr>)"
    by (rule barrier_logger) simp_all
  with StartIOThread show ?thesis by simp
next
  case StopIOThread
  from inv have "barrier_inv (s\<lparr> logger := (logger s)\<lparr> keep_io_thread_alive := False \<rparr>,
      io := io s \<rparr>)"
    by (rule barrier_logger) simp_all
  with StopIOThread show ?thesis by simp
qed

lemma reachable_barrier: "reachable m s \<Longrightarrow> barrier_inv s"
proof (induction rule: reachable.induct)
  case init
  show ?case by (rule barrier_init)
next
  case (step s s')
  from barrier_step [OF step(2) step(3) reachable_inv [OF step(1)]] show ?case .
qed


subsection \<open>The example run\<close>

lemma thread_stepI:
  assumes "thread_step now (logger s) this (threads s this)
             = Some (Inr (logger s', threads s' this))"
    and "s' = goto s this (logger s') (threads s' this)"
  shows "step s s'"
  by (subst assms(2)) (rule step.thread [OF assms(1)])

lemma io_stepI:
  assumes "io_step (logger s) (io s) = Some (Inr (logger s', io s', evs))"
    and "s' = s\<lparr> logger := logger s', io := io s', executed := executed s @ evs \<rparr>"
  shows "step s s'"
  by (subst assms(2)) (rule step.io_thread [OF assms(1)])

lemmas ex_defs = ex_sys_def ex_lg_def ex_q_def ex_tls_def TlsLogger_new_def Logger_new_def
  goto_def with_tls_def set_tls_def compare_exchange_strong_def
  SwapRequestSlotIsReadable_def SwapRequestSlotIsWritableValue_def slot_count_def upt_rec

lemma ex_step_1:
  "step (init 1)
     ex_idle"
proof -
  have "step (init 1) (goto (init 1) 8 (TlsLoggerWrapper_new (logger (init 1)) ex_thread) Idle)"
    by (rule step.first_use) (simp_all add: init_def SwapRequestSlotIsReadable_def ex_thread_def)
  also have "goto (init 1) 8 (TlsLoggerWrapper_new (logger (init 1)) ex_thread) Idle = ex_idle"
    by (simp add: ex_defs ex_idle_def init_def TlsLoggerWrapper_new_def RegisterTlsLogger_def Let_def
        ex_thread_def fcard_fempty)
  finally show ?thesis .
qed

lemma ex_run_1: "reachable 1 ex_idle"
  by (rule reachable.step [OF reachable.init ex_step_1])

lemma ex_step_2:
  "step ex_idle
     (ex_sys (ex_lg [1, 3] 0 0 [] False [] {}
        (ex_q [ReadLock, Unlocked] [[], []] 0 1 0 0 0))
        (Log_load (UserEntry 7) Ret) IO_not_started
        [UserEntry 7]
        [] 0)"
proof -
  have "step ex_idle (goto ex_idle 8 (logger ex_idle) (Log_load (UserEntry 7) Ret))"
    by (rule step.call_Log) (simp add: ex_sys_def ex_idle_def)
  also have "goto ex_idle 8 (logger ex_idle) (Log_load (UserEntry 7) Ret) =
      (ex_sys (ex_lg [1, 3] 0 0 [] False [] {}
      (ex_q [ReadLock, Unlocked] [[], []] 0 1 0 0 0))
      (Log_load (UserEntry 7) Ret) IO_not_started
      [UserEntry 7]
      [] 0)"
    by (simp add: ex_sys_def goto_def ex_idle_def)
  finally show ?thesis .
qed

lemma ex_run_2: "reachable 1 (ex_sys (ex_lg [1, 3] 0 0 [] False [] {}
        (ex_q [ReadLock, Unlocked] [[], []] 0 1 0 0 0))
        (Log_load (UserEntry 7) Ret) IO_not_started
        [UserEntry 7]
        [] 0)"
  by (rule reachable.step [OF ex_run_1 ex_step_2])

lemma ex_step_3:
  "step (ex_sys (ex_lg [1, 3] 0 0 [] False [] {}
        (ex_q [ReadLock, Unlocked] [[], []] 0 1 0 0 0))
        (Log_load (UserEntry 7) Ret) IO_not_started
        [UserEntry 7]
        [] 0)
     (ex_sys (ex_lg [1, 3] 0 0 [] False [] {}
        (ex_q [ReadLock, Unlocked] [[], []] 0 1 0 0 0))
        (Log_cas (UserEntry 7) 1 0 Ret) IO_not_started
        [UserEntry 7]
        [] 0)"
  by (rule thread_stepI [where this = 8 and now = 0]) (simp_all add: ex_defs)

lemma ex_run_3: "reachable 1 (ex_sys (ex_lg [1, 3] 0 0 [] False [] {}
        (ex_q [ReadLock, Unlocked] [[], []] 0 1 0 0 0))
        (Log_cas (UserEntry 7) 1 0 Ret) IO_not_started
        [UserEntry 7]
        [] 0)"
  by (rule reachable.step [OF ex_run_2 ex_step_3])

lemma ex_step_4:
  "step (ex_sys (ex_lg [1, 3] 0 0 [] False [] {}
        (ex_q [ReadLock, Unlocked] [[], []] 0 1 0 0 0))
        (Log_cas (UserEntry 7) 1 0 Ret) IO_not_started
        [UserEntry 7]
        [] 0)
     (ex_sys (ex_lg [1, 3] 0 0 [] False [] {}
        (ex_q [ReadLock, WriteLock] [[], []] 0 1 0 0 0))
        (Log_append (UserEntry 7) 1 Ret) IO_not_started
        [UserEntry 7]
        [] 0)"
  by (rule thread_stepI [where this = 8 and now = 0]) (simp_all add: ex_defs)

lemma ex_run_4: "reachable 1 (ex_sys (ex_lg [1, 3] 0 0 [] False [] {}
        (ex_q [ReadLock, WriteLock] [[], []] 0 1 0 0 0))
        (Log_append (UserEntry 7) 1 Ret) IO_not_started
        [UserEntry 7]
        [] 0)"
  by (rule reachable.step [OF ex_run_3 ex_step_4])

lemma ex_step_5:
  "step (ex_sys (ex_lg [1, 3] 0 0 [] False [] {}
        (ex_q [ReadLock, WriteLock] [[], []] 0 1 0 0 0))
        (Log_append (UserEntry 7) 1 Ret) IO_not_started
        [UserEntry 7]
        [] 0)
     (ex_sys (ex_lg [1, 3] 0 0 [] False [] {}
        (ex_q [ReadLock, WriteLock] [[], [UserEntry 7]] 0 1 0 0 0))
        (Log_unlock 1 Ret) IO_not_started
        [UserEntry 7]
        [] 0)"
  by (rule thread_stepI [where this = 8 and now = 0]) (simp_all add: ex_defs)

lemma ex_run_5: "reachable 1 (ex_sys (ex_lg [1, 3] 0 0 [] False [] {}
        (ex_q [ReadLock, WriteLock] [[], [UserEntry 7]] 0 1 0 0 0))
        (Log_unlock 1 Ret) IO_not_started
        [UserEntry 7]
        [] 0)"
  by (rule reachable.step [OF ex_run_4 ex_step_5])

lemma ex_step_6:
  "step (ex_sys (ex_lg [1, 3] 0 0 [] False [] {}
        (ex_q [ReadLock, WriteLock] [[], [UserEntry 7]] 0 1 0 0 0))
        (Log_unlock 1 Ret) IO_not_started
        [UserEntry 7]
        [] 0)
     (ex_sys (ex_lg [1, 3] 0 0 [] False [] {}
        (ex_q [ReadLock, Unlocked] [[], [UserEntry 7]] 0 1 0 0 0))
        (Req_fetch 1 Ret) IO_not_started
        [UserEntry 7]
        [] 0)"
  by (rule thread_stepI [where this = 8 and now = 0]) (simp_all add: ex_defs)

lemma ex_run_6: "reachable 1 (ex_sys (ex_lg [1, 3] 0 0 [] False [] {}
        (ex_q [ReadLock, Unlocked] [[], [UserEntry 7]] 0 1 0 0 0))
        (Req_fetch 1 Ret) IO_not_started
        [UserEntry 7]
        [] 0)"
  by (rule reachable.step [OF ex_run_5 ex_step_6])

lemma ex_step_7:
  "step (ex_sys (ex_lg [1, 3] 0 0 [] False [] {}
        (ex_q [ReadLock, Unlocked] [[], [UserEntry 7]] 0 1 0 0 0))
        (Req_fetch 1 Ret) IO_not_started
        [UserEntry 7]
        [] 0)
     (ex_sys (ex_lg [1, 3] 1 0 [] False [] {}
        (ex_q [ReadLock, Unlocked] [[], [UserEntry 7]] 0 1 0 0 0))
        (Req_cas 1 0 Ret) IO_not_started
        [UserEntry 7]
        [] 0)"
  by (rule thread_stepI [where this = 8 and now = 0]) (simp_all add: ex_defs)

lemma ex_run_7: "reachable 1 (ex_sys (ex_lg [1, 3] 1 0 [] False [] {}
        (ex_q [ReadLock, Unlocked] [[], [UserEntry 7]] 0 1 0 0 0))
        (Req_cas 1 0 Ret) IO_not_started
        [UserEntry 7]
        [] 0)"
  by (rule reachable.step [OF ex_run_6 ex_step_7])

lemma ex_step_8:
  "step (ex_sys (ex_lg [1, 3] 1 0 [] False [] {}
        (ex_q [ReadLock, Unlocked] [[], [UserEntry 7]] 0 1 0 0 0))
        (Req_cas 1 0 Ret) IO_not_started
        [UserEntry 7]
        [] 0)
     (ex_sys (ex_lg [8, 3] 1 0 [] False [] {}
        (ex_q [ReadLock, Unlocked] [[], [UserEntry 7]] 0 1 0 1 0))
        Idle IO_not_started
        [UserEntry 7]
        [] 0)"
  by (rule thread_stepI [where this = 8 and now = 0]) (simp_all add: ex_defs)

lemma ex_run_8: "reachable 1 (ex_sys (ex_lg [8, 3] 1 0 [] False [] {}
        (ex_q [ReadLock, Unlocked] [[], [UserEntry 7]] 0 1 0 1 0))
        Idle IO_not_started
        [UserEntry 7]
        [] 0)"
  by (rule reachable.step [OF ex_run_7 ex_step_8])

lemma ex_step_9:
  "step (ex_sys (ex_lg [8, 3] 1 0 [] False [] {}
        (ex_q [ReadLock, Unlocked] [[], [UserEntry 7]] 0 1 0 1 0))
        Idle IO_not_started
        [UserEntry 7]
        [] 0)
     (ex_sys (ex_lg [8, 3] 1 0 [] False [] {}
        (ex_q [ReadLock, Unlocked] [[], [UserEntry 7]] 0 1 0 1 0))
        (Log_load (FlushedEntry 0) (Then_wait_tracing 0)) IO_not_started
        [UserEntry 7, FlushedEntry 0]
        [] 1)"
proof -
  let ?s = "ex_sys (ex_lg [8, 3] 1 0 [] False [] {}
      (ex_q [ReadLock, Unlocked] [[], [UserEntry 7]] 0 1 0 1 0))
      Idle IO_not_started
      [UserEntry 7]
      [] 0"
  have "threads ?s 8 = Idle" by (simp add: ex_sys_def)
  then have "step ?s ((goto ?s 8 (logger ?s)
      (Log_load (FlushedEntry (next_promise ?s)) (Then_wait_tracing (next_promise ?s))))
        \<lparr> next_promise := Suc (next_promise ?s) \<rparr>)"
    by (rule step.call_StopTracing)
  also have "(goto ?s 8 (logger ?s)
      (Log_load (FlushedEntry (next_promise ?s)) (Then_wait_tracing (next_promise ?s))))
        \<lparr> next_promise := Suc (next_promise ?s) \<rparr>
    = (ex_sys (ex_lg [8, 3] 1 0 [] False [] {}
      (ex_q [ReadLock, Unlocked] [[], [UserEntry 7]] 0 1 0 1 0))
      (Log_load (FlushedEntry 0) (Then_wait_tracing 0)) IO_not_started
      [UserEntry 7, FlushedEntry 0]
      [] 1)"
    by (simp add: ex_sys_def goto_def)
  finally show ?thesis .
qed

lemma ex_run_9: "reachable 1 (ex_sys (ex_lg [8, 3] 1 0 [] False [] {}
        (ex_q [ReadLock, Unlocked] [[], [UserEntry 7]] 0 1 0 1 0))
        (Log_load (FlushedEntry 0) (Then_wait_tracing 0)) IO_not_started
        [UserEntry 7, FlushedEntry 0]
        [] 1)"
  by (rule reachable.step [OF ex_run_8 ex_step_9])

lemma ex_step_10:
  "step (ex_sys (ex_lg [8, 3] 1 0 [] False [] {}
        (ex_q [ReadLock, Unlocked] [[], [UserEntry 7]] 0 1 0 1 0))
        (Log_load (FlushedEntry 0) (Then_wait_tracing 0)) IO_not_started
        [UserEntry 7, FlushedEntry 0]
        [] 1)
     (ex_sys (ex_lg [8, 3] 1 0 [] False [] {}
        (ex_q [ReadLock, Unlocked] [[], [UserEntry 7]] 0 1 0 1 0))
        (Log_cas (FlushedEntry 0) 1 0 (Then_wait_tracing 0)) IO_not_started
        [UserEntry 7, FlushedEntry 0]
        [] 1)"
  by (rule thread_stepI [where this = 8 and now = 0]) (simp_all add: ex_defs)

lemma ex_run_10: "reachable 1 (ex_sys (ex_lg [8, 3] 1 0 [] False [] {}
        (ex_q [ReadLock, Unlocked] [[], [UserEntry 7]] 0 1 0 1 0))
        (Log_cas (FlushedEntry 0) 1 0 (Then_wait_tracing 0)) IO_not_started
        [UserEntry 7, FlushedEntry 0]
        [] 1)"
  by (rule reachable.step [OF ex_run_9 ex_step_10])

lemma ex_step_11:
  "step (ex_sys (ex_lg [8, 3] 1 0 [] False [] {}
        (ex_q [ReadLock, Unlocked] [[], [UserEntry 7]] 0 1 0 1 0))
        (Log_cas (FlushedEntry 0) 1 0 (Then_wait_tracing 0)) IO_not_started
        [UserEntry 7, FlushedEntry 0]
        [] 1)
     (ex_sys (ex_lg [8, 3] 1 0 [] True [] {}
        (ex_q [ReadLock, Unlocked] [[], [UserEntry 7]] 0 1 0 1 0))
        (Log_cas (FlushedEntry 0) 1 0 (Then_wait_tracing 0)) IO_top
        [UserEntry 7, FlushedEntry 0]
        [] 1)"
proof -
  let ?s = "ex_sys (ex_lg [8, 3] 1 0 [] False [] {}
      (ex_q [ReadLock, Unlocked] [[], [UserEntry 7]] 0 1 0 1 0))
      (Log_cas (FlushedEntry 0) 1 0 (Then_wait_tracing 0)) IO_not_started
      [UserEntry 7, FlushedEntry 0]
      [] 1"
  have "io ?s = IO_not_started" by (simp add: ex_sys_def)
  then have "step ?s
      (?s\<lparr> logger := (logger ?s)\<lparr> keep_io_thread_alive := True \<rparr>, io := IO_top \<rparr>)"
    by (rule step.StartIOThread)
  also have "?s\<lparr> logger := (logger ?s)\<lparr> keep_io_thread_alive := True \<rparr>, io := IO_top \<rparr>
    = (ex_sys (ex_lg [8, 3] 1 0 [] True [] {}
      (ex_q [ReadLock, Unlocked] [[], [UserEntry 7]] 0 1 0 1 0))
      (Log_cas (FlushedEntry 0) 1 0 (Then_wait_tracing 0)) IO_top
      [UserEntry 7, FlushedEntry 0]
      [] 1)"
    by (simp add: ex_sys_def ex_lg_def)
  finally show ?thesis .
qed

lemma ex_run_11: "reachable 1 (ex_sys (ex_lg [8, 3] 1 0 [] True [] {}
        (ex_q [ReadLock, Unlocked] [[], [UserEntry 7]] 0 1 0 1 0))
        (Log_cas (FlushedEntry 0) 1 0 (Then_wait_tracing 0)) IO_top
        [UserEntry 7, FlushedEntry 0]
        [] 1)"
  by (rule reachable.step [OF ex_run_10 ex_step_11])

lemma ex_step_12:
  "step (ex_sys (ex_lg [8, 3] 1 0 [] True [] {}
        (ex_q [ReadLock, Unlocked] [[], [UserEntry 7]] 0 1 0 1 0))
        (Log_cas (FlushedEntry 0) 1 0 (Then_wait_tracing 0)) IO_top
        [UserEntry 7, FlushedEntry 0]
        [] 1)
     (ex_sys (ex_lg [8, 3] 1 0 [] True [] {}
        (ex_q [ReadLock, Unlocked] [[], [UserEntry 7]] 0 1 0 1 0))
        (Log_cas (FlushedEntry 0) 1 0 (Then_wait_tracing 0)) (IO_gather_new_load [])
        [UserEntry 7, FlushedEntry 0]
        [] 1)"
  by (rule io_stepI [where evs = "[]"])
     (simp_all add: ex_defs Let_def new_got_def ReadBufferHasBeenConsumed_def
        StartReadingEntries_def FinishReadingEntries_def RemoveValue_def IOThread_flush_def
        IOThread_retire_def)

lemma ex_run_12: "reachable 1 (ex_sys (ex_lg [8, 3] 1 0 [] True [] {}
        (ex_q [ReadLock, Unlocked] [[], [UserEntry 7]] 0 1 0 1 0))
        (Log_cas (FlushedEntry 0) 1 0 (Then_wait_tracing 0)) (IO_gather_new_load [])
        [UserEntry 7, FlushedEntry 0]
        [] 1)"
  by (rule reachable.step [OF ex_run_11 ex_step_12])

lemma ex_step_13:
  "step (ex_sys (ex_lg [8, 3] 1 0 [] True [] {}
        (ex_q [ReadLock, Unlocked] [[], [UserEntry 7]] 0 1 0 1 0))
        (Log_cas (FlushedEntry 0) 1 0 (Then_wait_tracing 0)) (IO_gather_new_load [])
        [UserEntry 7, FlushedEntry 0]
        [] 1)
     (ex_sys (ex_lg [8, 3] 1 0 [] True [] {}
        (ex_q [ReadLock, Unlocked] [[], [UserEntry 7]] 0 1 0 1 0))
        (Log_cas (FlushedEntry 0) 1 0 (Then_wait_tracing 0)) (IO_gather_new [] 1)
        [UserEntry 7, FlushedEntry 0]
        [] 1)"
  by (rule io_stepI [where evs = "[]"])
     (simp_all add: ex_defs Let_def new_got_def ReadBufferHasBeenConsumed_def
        StartReadingEntries_def FinishReadingEntries_def RemoveValue_def IOThread_flush_def
        IOThread_retire_def)

lemma ex_run_13: "reachable 1 (ex_sys (ex_lg [8, 3] 1 0 [] True [] {}
        (ex_q [ReadLock, Unlocked] [[], [UserEntry 7]] 0 1 0 1 0))
        (Log_cas (FlushedEntry 0) 1 0 (Then_wait_tracing 0)) (IO_gather_new [] 1)
        [UserEntry 7, FlushedEntry 0]
        [] 1)"
  by (rule reachable.step [OF ex_run_12 ex_step_13])

lemma ex_step_14:
  "step (ex_sys (ex_lg [8, 3] 1 0 [] True [] {}
        (ex_q [ReadLock, Unlocked] [[], [UserEntry 7]] 0 1 0 1 0))
        (Log_cas (FlushedEntry 0) 1 0 (Then_wait_tracing 0)) (IO_gather_new [] 1)
        [UserEntry 7, FlushedEntry 0]
        [] 1)
     (ex_sys (ex_lg [8, 3] 1 0 [] True [] {}
        (ex_q [ReadLock, Unlocked] [[], [UserEntry 7]] 0 1 0 1 0))
        (Log_cas (FlushedEntry 0) 1 0 (Then_wait_tracing 0)) (IO_gather_new_cas [] 1 8)
        [UserEntry 7, FlushedEntry 0]
        [] 1)"
  by (rule io_stepI [where evs = "[]"])
     (simp_all add: ex_defs Let_def new_got_def ReadBufferHasBeenConsumed_def
        StartReadingEntries_def FinishReadingEntries_def RemoveValue_def IOThread_flush_def
        IOThread_retire_def)

lemma ex_run_14: "reachable 1 (ex_sys (ex_lg [8, 3] 1 0 [] True [] {}
        (ex_q [ReadLock, Unlocked] [[], [UserEntry 7]] 0 1 0 1 0))
        (Log_cas (FlushedEntry 0) 1 0 (Then_wait_tracing 0)) (IO_gather_new_cas [] 1 8)
        [UserEntry 7, FlushedEntry 0]
        [] 1)"
  by (rule reachable.step [OF ex_run_13 ex_step_14])

lemma ex_step_15:
  "step (ex_sys (ex_lg [8, 3] 1 0 [] True [] {}
        (ex_q [ReadLock, Unlocked] [[], [UserEntry 7]] 0 1 0 1 0))
        (Log_cas (FlushedEntry 0) 1 0 (Then_wait_tracing 0)) (IO_gather_new_cas [] 1 8)
        [UserEntry 7, FlushedEntry 0]
        [] 1)
     (ex_sys (ex_lg [5, 3] 1 1 [] True [] {}
        (ex_q [ReadLock, Unlocked] [[], [UserEntry 7]] 0 1 0 1 0))
        (Log_cas (FlushedEntry 0) 1 0 (Then_wait_tracing 0)) (IO_gather_new [8] 1)
        [UserEntry 7, FlushedEntry 0]
        [] 1)"
  by (rule io_stepI [where evs = "[]"])
     (simp_all add: ex_defs Let_def new_got_def ReadBufferHasBeenConsumed_def
        StartReadingEntries_def FinishReadingEntries_def RemoveValue_def IOThread_flush_def
        IOThread_retire_def)

lemma ex_run_15: "reachable 1 (ex_sys (ex_lg [5, 3] 1 1 [] True [] {}
        (ex_q [ReadLock, Unlocked] [[], [UserEntry 7]] 0 1 0 1 0))
        (Log_cas (FlushedEntry 0) 1 0 (Then_wait_tracing 0)) (IO_gather_new [8] 1)
        [UserEntry 7, FlushedEntry 0]
        [] 1)"
  by (rule reachable.step [OF ex_run_14 ex_step_15])

lemma ex_step_16:
  "step (ex_sys (ex_lg [5, 3] 1 1 [] True [] {}
        (ex_q [ReadLock, Unlocked] [[], [UserEntry 7]] 0 1 0 1 0))
        (Log_cas (FlushedEntry 0) 1 0 (Then_wait_tracing 0)) (IO_gather_new [8] 1)
        [UserEntry 7, FlushedEntry 0]
        [] 1)
     ex_swapping"
  by (rule io_stepI [where evs = "[]"])
     (simp_all add: ex_defs ex_swapping_def Let_def new_got_def ReadBufferHasBeenConsumed_def
        StartReadingEntries_def FinishReadingEntries_def RemoveValue_def IOThread_flush_def
        IOThread_retire_def)

lemma ex_run_16: "reachable 1 ex_swapping"
  by (rule reachable.step [OF ex_run_15 ex_step_16])

lemma ex_step_17:
  "step ex_swapping
     ex_unlocked"
  by (rule io_stepI [where evs = "[]"])
     (simp_all add: ex_defs ex_swapping_def ex_unlocked_def Let_def new_got_def ReadBufferHasBeenConsumed_def
        StartReadingEntries_def FinishReadingEntries_def RemoveValue_def IOThread_flush_def
        IOThread_retire_def)

lemma ex_run_17: "reachable 1 ex_unlocked"
  by (rule reachable.step [OF ex_run_16 ex_step_17])

lemma ex_step_18:
  "step ex_unlocked
     ex_published"
  by (rule io_stepI [where evs = "[]"])
     (simp_all add: ex_defs ex_unlocked_def ex_published_def Let_def new_got_def ReadBufferHasBeenConsumed_def
        StartReadingEntries_def FinishReadingEntries_def RemoveValue_def IOThread_flush_def
        IOThread_retire_def)

lemma ex_run_18: "reachable 1 ex_published"
  by (rule reachable.step [OF ex_run_17 ex_step_18])

lemma ex_step_19:
  "step ex_published
     (ex_sys (ex_lg [5, 3] 1 1 [8] True [] {}
        (ex_q [Unlocked, Unlocked] [[], [UserEntry 7]] 1 0 1 1 0))
        (Log_cas (FlushedEntry 0) 1 0 (Then_wait_tracing 0)) (IO_process 0)
        [UserEntry 7, FlushedEntry 0]
        [] 1)"
  by (rule io_stepI [where evs = "[]"])
     (simp_all add: ex_defs ex_published_def Let_def new_got_def ReadBufferHasBeenConsumed_def
        StartReadingEntries_def FinishReadingEntries_def RemoveValue_def IOThread_flush_def
        IOThread_retire_def)

lemma ex_run_19: "reachable 1 (ex_sys (ex_lg [5, 3] 1 1 [8] True [] {}
        (ex_q [Unlocked, Unlocked] [[], [UserEntry 7]] 1 0 1 1 0))
        (Log_cas (FlushedEntry 0) 1 0 (Then_wait_tracing 0)) (IO_process 0)
        [UserEntry 7, FlushedEntry 0]
        [] 1)"
  by (rule reachable.step [OF ex_run_18 ex_step_19])

lemma ex_step_20:
  "step (ex_sys (ex_lg [5, 3] 1 1 [8] True [] {}
        (ex_q [Unlocked, Unlocked] [[], [UserEntry 7]] 1 0 1 1 0))
        (Log_cas (FlushedEntry 0) 1 0 (Then_wait_tracing 0)) (IO_process 0)
        [UserEntry 7, FlushedEntry 0]
        [] 1)
     ex_contended"
  by (rule io_stepI [where evs = "[]"])
     (simp_all add: ex_defs ex_contended_def Let_def new_got_def ReadBufferHasBeenConsumed_def
        StartReadingEntries_def FinishReadingEntries_def RemoveValue_def IOThread_flush_def
        IOThread_retire_def)

lemma ex_run_20: "reachable 1 ex_contended"
  by (rule reachable.step [OF ex_run_19 ex_step_20])

lemma ex_step_21:
  "step ex_contended
     (ex_sys (ex_lg [5, 3] 1 1 [8] True
           [SetCurrentTracePidTidString ''pid 1 tid 1'']
           {}
        (ex_q [Unlocked, ReadLock] [[], [UserEntry 7]] 1 0 1 1 1))
        (Log_cas (FlushedEntry 0) 0 1 (Then_wait_tracing 0)) (IO_run 0 [UserEntry 7])
        [UserEntry 7, FlushedEntry 0]
        [] 1)"
  by (rule thread_stepI [where this = 8 and now = 0]) (simp_all add: ex_defs ex_contended_def)

lemma ex_run_21: "reachable 1 (ex_sys (ex_lg [5, 3] 1 1 [8] True
           [SetCurrentTracePidTidString ''pid 1 tid 1'']
           {}
        (ex_q [Unlocked, ReadLock] [[], [UserEntry 7]] 1 0 1 1 1))
        (Log_cas (FlushedEntry 0) 0 1 (Then_wait_tracing 0)) (IO_run 0 [UserEntry 7])
        [UserEntry 7, FlushedEntry 0]
        [] 1)"
  by (rule reachable.step [OF ex_run_20 ex_step_21])

lemma ex_step_22:
  "step (ex_sys (ex_lg [5, 3] 1 1 [8] True
           [SetCurrentTracePidTidString ''pid 1 tid 1'']
           {}
        (ex_q [Unlocked, ReadLock] [[], [UserEntry 7]] 1 0 1 1 1))
        (Log_cas (FlushedEntry 0) 0 1 (Then_wait_tracing 0)) (IO_run 0 [UserEntry 7])
        [UserEntry 7, FlushedEntry 0]
        [] 1)
     (ex_sys (ex_lg [5, 3] 1 1 [8] True
           [SetCurrentTracePidTidString ''pid 1 tid 1'']
           {}
        (ex_q [WriteLock, ReadLock] [[], [UserEntry 7]] 1 0 1 1 1))
        (Log_append (FlushedEntry 0) 0 (Then_wait_tracing 0)) (IO_run 0 [UserEntry 7])
        [UserEntry 7, FlushedEntry 0]
        [] 1)"
  by (rule thread_stepI [where this = 8 and now = 0]) (simp_all add: ex_defs)

lemma ex_run_22: "reachable 1 (ex_sys (ex_lg [5, 3] 1 1 [8] True
           [SetCurrentTracePidTidString ''pid 1 tid 1'']
           {}
        (ex_q [WriteLock, ReadLock] [[], [UserEntry 7]] 1 0 1 1 1))
        (Log_append (FlushedEntry 0) 0 (Then_wait_tracing 0)) (IO_run 0 [UserEntry 7])
        [UserEntry 7, FlushedEntry 0]
        [] 1)"
  by (rule reachable.step [OF ex_run_21 ex_step_22])

lemma ex_step_23:
  "step (ex_sys (ex_lg [5, 3] 1 1 [8] True
           [SetCurrentTracePidTidString ''pid 1 tid 1'']
           {}
        (ex_q [WriteLock, ReadLock] [[], [UserEntry 7]] 1 0 1 1 1))
        (Log_append (FlushedEntry 0) 0 (Then_wait_tracing 0)) (IO_run 0 [UserEntry 7])
        [UserEntry 7, FlushedEntry 0]
        [] 1)
     (ex_sys (ex_lg [5, 3] 1 1 [8] True
           [SetCurrentTracePidTidString ''pid 1 tid 1'']
           {}
        (ex_q [WriteLock, ReadLock] [[FlushedEntry 0], [UserEntry 7]] 1 0 1 1 1))
        (Log_unlock 0 (Then_wait_tracing 0)) (IO_run 0 [UserEntry 7])
        [UserEntry 7, FlushedEntry 0]
        [] 1)"
  by (rule thread_stepI [where this = 8 and now = 0]) (simp_all add: ex_defs)

lemma ex_run_23: "reachable 1 (ex_sys (ex_lg [5, 3] 1 1 [8] True
           [SetCurrentTracePidTidString ''pid 1 tid 1'']
           {}
        (ex_q [WriteLock, ReadLock] [[FlushedEntry 0], [UserEntry 7]] 1 0 1 1 1))
        (Log_unlock 0 (Then_wait_tracing 0)) (IO_run 0 [UserEntry 7])
        [UserEntry 7, FlushedEntry 0]
        [] 1)"
  by (rule reachable.step [OF ex_run_22 ex_step_23])

lemma ex_step_24:
  "step (ex_sys (ex_lg [5, 3] 1 1 [8] True
           [SetCurrentTracePidTidString ''pid 1 tid 1'']
           {}
        (ex_q [WriteLock, ReadLock] [[FlushedEntry 0], [UserEntry 7]] 1 0 1 1 1))
        (Log_unlock 0 (Then_wait_tracing 0)) (IO_run 0 [UserEntry 7])
        [UserEntry 7, FlushedEntry 0]
        [] 1)
     (ex_sys (ex_lg [5, 3] 1 1 [8] True
           [SetCurrentTracePidTidString ''pid 1 tid 1'']
           {}
        (ex_q [Unlocked, ReadLock] [[FlushedEntry 0], [UserEntry 7]] 1 0 1 1 1))
        (Req_fetch 0 (Then_wait_tracing 0)) (IO_run 0 [UserEntry 7])
        [UserEntry 7, FlushedEntry 0]
        [] 1)"
  by (rule thread_stepI [where this = 8 and now = 0]) (simp_all add: ex_defs)

lemma ex_run_24: "reachable 1 (ex_sys (ex_lg [5, 3] 1 1 [8] True
           [SetCurrentTracePidTidString ''pid 1 tid 1'']
           {}
        (ex_q [Unlocked, ReadLock] [[FlushedEntry 0], [UserEntry 7]] 1 0 1 1 1))
        (Req_fetch 0 (Then_wait_tracing 0)) (IO_run 0 [UserEntry 7])
        [UserEntry 7, FlushedEntry 0]
        [] 1)"
  by (rule reachable.step [OF ex_run_23 ex_step_24])

lemma ex_step_25:
  "step (ex_sys (ex_lg [5, 3] 1 1 [8] True
           [SetCurrentTracePidTidString ''pid 1 tid 1'']
           {}
        (ex_q [Unlocked, ReadLock] [[FlushedEntry 0], [UserEntry 7]] 1 0 1 1 1))
        (Req_fetch 0 (Then_wait_tracing 0)) (IO_run 0 [UserEntry 7])
        [UserEntry 7, FlushedEntry 0]
        [] 1)
     (ex_sys (ex_lg [5, 3] 2 1 [8] True
           [SetCurrentTracePidTidString ''pid 1 tid 1'']
           {}
        (ex_q [Unlocked, ReadLock] [[FlushedEntry 0], [UserEntry 7]] 1 0 1 1 1))
        (Req_cas 0 1 (Then_wait_tracing 0)) (IO_run 0 [UserEntry 7])
        [UserEntry 7, FlushedEntry 0]
        [] 1)"
  by (rule thread_stepI [where this = 8 and now = 0]) (simp_all add: ex_defs)

lemma ex_run_25: "reachable 1 (ex_sys (ex_lg [5, 3] 2 1 [8] True
           [SetCurrentTracePidTidString ''pid 1 tid 1'']
           {}
        (ex_q [Unlocked, ReadLock] [[FlushedEntry 0], [UserEntry 7]] 1 0 1 1 1))
        (Req_cas 0 1 (Then_wait_tracing 0)) (IO_run 0 [UserEntry 7])
        [UserEntry 7, FlushedEntry 0]
        [] 1)"
  by (rule reachable.step [OF ex_run_24 ex_step_25])

lemma ex_step_26:
  "step (ex_sys (ex_lg [5, 3] 2 1 [8] True
           [SetCurrentTracePidTidString ''pid 1 tid 1'']
           {}
        (ex_q [Unlocked, ReadLock] [[FlushedEntry 0], [UserEntry 7]] 1 0 1 1 1))
        (Req_cas 0 1 (Then_wait_tracing 0)) (IO_run 0 [UserEntry 7])
        [UserEntry 7, FlushedEntry 0]
        [] 1)
     (ex_sys (ex_lg [5, 8] 2 1 [8] True
           [SetCurrentTracePidTidString ''pid 1 tid 1'']
           {}
        (ex_q [Unlocked, ReadLock] [[FlushedEntry 0], [UserEntry 7]] 1 0 1 0 1))
        (Wait_tracing 0) (IO_run 0 [UserEntry 7])
        [UserEntry 7, FlushedEntry 0]
        [] 1)"
  by (rule thread_stepI [where this = 8 and now = 0]) (simp_all add: ex_defs)

lemma ex_run_26: "reachable 1 (ex_sys (ex_lg [5, 8] 2 1 [8] True
           [SetCurrentTracePidTidString ''pid 1 tid 1'']
           {}
        (ex_q [Unlocked, ReadLock] [[FlushedEntry 0], [UserEntry 7]] 1 0 1 0 1))
        (Wait_tracing 0) (IO_run 0 [UserEntry 7])
        [UserEntry 7, FlushedEntry 0]
        [] 1)"
  by (rule reachable.step [OF ex_run_25 ex_step_26])

lemma ex_step_27:
  "step (ex_sys (ex_lg [5, 8] 2 1 [8] True
           [SetCurrentTracePidTidString ''pid 1 tid 1'']
           {}
        (ex_q [Unlocked, ReadLock] [[FlushedEntry 0], [UserEntry 7]] 1 0 1 0 1))
        (Wait_tracing 0) (IO_run 0 [UserEntry 7])
        [UserEntry 7, FlushedEntry 0]
        [] 1)
     ex_reading"
  by (rule io_stepI [where evs = "[(8, UserEntry 7)]"])
     (simp_all add: ex_defs ex_reading_def Let_def new_got_def ReadBufferHasBeenConsumed_def
        StartReadingEntries_def FinishReadingEntries_def RemoveValue_def IOThread_flush_def
        IOThread_retire_def)

lemma ex_run_27: "reachable 1 ex_reading"
  by (rule reachable.step [OF ex_run_26 ex_step_27])

lemma ex_step_28:
  "step ex_reading
     ex_consumed"
  by (rule io_stepI [where evs = "[]"])
     (simp_all add: ex_defs ex_reading_def ex_consumed_def Let_def new_got_def ReadBufferHasBeenConsumed_def
        StartReadingEntries_def FinishReadingEntries_def RemoveValue_def IOThread_flush_def
        IOThread_retire_def)

lemma ex_run_28: "reachable 1 ex_consumed"
  by (rule reachable.step [OF ex_run_27 ex_step_28])

lemma ex_step_29:
  "step ex_consumed
     (ex_sys (ex_lg [5, 8] 2 1 [] True
           [SetCurrentTracePidTidString ''pid 1 tid 1'', Invoked 7]
           {}
        (ex_q [Unlocked, ReadLock] [[FlushedEntry 0], []] 1 0 0 0 1))
        (Wait_tracing 0) IO_flush
        [UserEntry 7, FlushedEntry 0]
        [(8, UserEntry 7)] 1)"
  by (rule io_stepI [where evs = "[]"])
     (simp_all add: ex_defs ex_consumed_def Let_def new_got_def ReadBufferHasBeenConsumed_def
        StartReadingEntries_def FinishReadingEntries_def RemoveValue_def IOThread_flush_def
        IOThread_retire_def)

lemma ex_run_29: "reachable 1 (ex_sys (ex_lg [5, 8] 2 1 [] True
           [SetCurrentTracePidTidString ''pid 1 tid 1'', Invoked 7]
           {}
        (ex_q [Unlocked, ReadLock] [[FlushedEntry 0], []] 1 0 0 0 1))
        (Wait_tracing 0) IO_flush
        [UserEntry 7, FlushedEntry 0]
        [(8, UserEntry 7)] 1)"
  by (rule reachable.step [OF ex_run_28 ex_step_29])

lemma ex_step_30:
  "step (ex_sys (ex_lg [5, 8] 2 1 [] True
           [SetCurrentTracePidTidString ''pid 1 tid 1'', Invoked 7]
           {}
        (ex_q [Unlocked, ReadLock] [[FlushedEntry 0], []] 1 0 0 0 1))
        (Wait_tracing 0) IO_flush
        [UserEntry 7, FlushedEntry 0]
        [(8, UserEntry 7)] 1)
     (ex_sys (ex_lg [5, 8] 2 1 [] True
           [SetCurrentTracePidTidString ''pid 1 tid 1'', Invoked 7, Flush]
           {}
        (ex_q [Unlocked, ReadLock] [[FlushedEntry 0], []] 1 0 0 0 1))
        (Wait_tracing 0) IO_retire
        [UserEntry 7, FlushedEntry 0]
        [(8, UserEntry 7)] 1)"
  by (rule io_stepI [where evs = "[]"])
     (simp_all add: ex_defs Let_def new_got_def ReadBufferHasBeenConsumed_def
        StartReadingEntries_def FinishReadingEntries_def RemoveValue_def IOThread_flush_def
        IOThread_retire_def)

lemma ex_run_30: "reachable 1 (ex_sys (ex_lg [5, 8] 2 1 [] True
           [SetCurrentTracePidTidString ''pid 1 tid 1'', Invoked 7, Flush]
           {}
        (ex_q [Unlocked, ReadLock] [[FlushedEntry 0], []] 1 0 0 0 1))
        (Wait_tracing 0) IO_retire
        [UserEntry 7, FlushedEntry 0]
        [(8, UserEntry 7)] 1)"
  by (rule reachable.step [OF ex_run_29 ex_step_30])

lemma ex_step_31:
  "step (ex_sys (ex_lg [5, 8] 2 1 [] True
           [SetCurrentTracePidTidString ''pid 1 tid 1'', Invoked 7, Flush]
           {}
        (ex_q [Unlocked, ReadLock] [[FlushedEntry 0], []] 1 0 0 0 1))
        (Wait_tracing 0) IO_retire
        [UserEntry 7, FlushedEntry 0]
        [(8, UserEntry 7)] 1)
     (ex_sys (ex_lg [5, 8] 2 1 [] True
           [SetCurrentTracePidTidString ''pid 1 tid 1'', Invoked 7, Flush]
           {}
        (ex_q [Unlocked, ReadLock] [[FlushedEntry 0], []] 1 0 0 0 1))
        (Wait_tracing 0) IO_top
        [UserEntry 7, FlushedEntry 0]
        [(8, UserEntry 7)] 1)"
  by (rule io_stepI [where evs = "[]"])
     (simp_all add: ex_defs Let_def new_got_def ReadBufferHasBeenConsumed_def
        StartReadingEntries_def FinishReadingEntries_def RemoveValue_def IOThread_flush_def
        IOThread_retire_def)

lemma ex_run_31: "reachable 1 (ex_sys (ex_lg [5, 8] 2 1 [] True
           [SetCurrentTracePidTidString ''pid 1 tid 1'', Invoked 7, Flush]
           {}
        (ex_q [Unlocked, ReadLock] [[FlushedEntry 0], []] 1 0 0 0 1))
        (Wait_tracing 0) IO_top
        [UserEntry 7, FlushedEntry 0]
        [(8, UserEntry 7)] 1)"
  by (rule reachable.step [OF ex_run_30 ex_step_31])

lemma ex_step_32:
  "step (ex_sys (ex_lg [5, 8] 2 1 [] True
           [SetCurrentTracePidTidString ''pid 1 tid 1'', Invoked 7, Flush]
           {}
        (ex_q [Unlocked, ReadLock] [[FlushedEntry 0], []] 1 0 0 0 1))
        (Wait_tracing 0) IO_top
        [UserEntry 7, FlushedEntry 0]
        [(8, UserEntry 7)] 1)
     (ex_sys (ex_lg [5, 8] 2 1 [] True
           [SetCurrentTracePidTidString ''pid 1 tid 1'', Invoked 7, Flush]
           {}
        (ex_q [Unlocked, ReadLock] [[FlushedEntry 0], []] 1 0 0 0 1))
        (Wait_tracing 0) (IO_gather_new_load [])
        [UserEntry 7, FlushedEntry 0]
        [(8, UserEntry 7)] 1)"
  by (rule io_stepI [where evs = "[]"])
     (simp_all add: ex_defs Let_def new_got_def ReadBufferHasBeenConsumed_def
        StartReadingEntries_def FinishReadingEntries_def RemoveValue_def IOThread_flush_def
        IOThread_retire_def)

lemma ex_run_32: "reachable 1 (ex_sys (ex_lg [5, 8] 2 1 [] True
           [SetCurrentTracePidTidString ''pid 1 tid 1'', Invoked 7, Flush]
           {}
        (ex_q [Unlocked, ReadLock] [[FlushedEntry 0], []] 1 0 0 0 1))
        (Wait_tracing 0) (IO_gather_new_load [])
        [UserEntry 7, FlushedEntry 0]
        [(8, UserEntry 7)] 1)"
  by (rule reachable.step [OF ex_run_31 ex_step_32])

lemma ex_step_33:
  "step (ex_sys (ex_lg [5, 8] 2 1 [] True
           [SetCurrentTracePidTidString ''pid 1 tid 1'', Invoked 7, Flush]
           {}
        (ex_q [Unlocked, ReadLock] [[FlushedEntry 0], []] 1 0 0 0 1))
        (Wait_tracing 0) (IO_gather_new_load [])
        [UserEntry 7, FlushedEntry 0]
        [(8, UserEntry 7)] 1)
     (ex_sys (ex_lg [5, 8] 2 1 [] True
           [SetCurrentTracePidTidString ''pid 1 tid 1'', Invoked 7, Flush]
           {}
        (ex_q [Unlocked, ReadLock] [[FlushedEntry 0], []] 1 0 0 0 1))
        (Wait_tracing 0) (IO_gather_new [] 2)
        [UserEntry 7, FlushedEntry 0]
        [(8, UserEntry 7)] 1)"
  by (rule io_stepI [where evs = "[]"])
     (simp_all add: ex_defs Let_def new_got_def ReadBufferHasBeenConsumed_def
        StartReadingEntries_def FinishReadingEntries_def RemoveValue_def IOThread_flush_def
        IOThread_retire_def)

lemma ex_run_33: "reachable 1 (ex_sys (ex_lg [5, 8] 2 1 [] True
           [SetCurrentTracePidTidString ''pid 1 tid 1'', Invoked 7, Flush]
           {}
        (ex_q [Unlocked, ReadLock] [[FlushedEntry 0], []] 1 0 0 0 1))
        (Wait_tracing 0) (IO_gather_new [] 2)
        [UserEntry 7, FlushedEntry 0]
        [(8, UserEntry 7)] 1)"
  by (rule reachable.step [OF ex_run_32 ex_step_33])

lemma ex_step_34:
  "step (ex_sys (ex_lg [5, 8] 2 1 [] True
           [SetCurrentTracePidTidString ''pid 1 tid 1'', Invoked 7, Flush]
           {}
        (ex_q [Unlocked, ReadLock] [[FlushedEntry 0], []] 1 0 0 0 1))
        (Wait_tracing 0) (IO_gather_new [] 2)
        [UserEntry 7, FlushedEntry 0]
        [(8, UserEntry 7)] 1)
     (ex_sys (ex_lg [5, 8] 2 1 [] True
           [SetCurrentTracePidTidString ''pid 1 tid 1'', Invoked 7, Flush]
           {}
        (ex_q [Unlocked, ReadLock] [[FlushedEntry 0], []] 1 0 0 0 1))
        (Wait_tracing 0) (IO_gather_new_cas [] 2 8)
        [UserEntry 7, FlushedEntry 0]
        [(8, UserEntry 7)] 1)"
  by (rule io_stepI [where evs = "[]"])
     (simp_all add: ex_defs Let_def new_got_def ReadBufferHasBeenConsumed_def
        StartReadingEntries_def FinishReadingEntries_def RemoveValue_def IOThread_flush_def
        IOThread_retire_def)

lemma ex_run_34: "reachable 1 (ex_sys (ex_lg [5, 8] 2 1 [] True
           [SetCurrentTracePidTidString ''pid 1 tid 1'', Invoked 7, Flush]
           {}
        (ex_q [Unlocked, ReadLock] [[FlushedEntry 0], []] 1 0 0 0 1))
        (Wait_tracing 0) (IO_gather_new_cas [] 2 8)
        [UserEntry 7, FlushedEntry 0]
        [(8, UserEntry 7)] 1)"
  by (rule reachable.step [OF ex_run_33 ex_step_34])

lemma ex_step_35:
  "step (ex_sys (ex_lg [5, 8] 2 1 [] True
           [SetCurrentTracePidTidString ''pid 1 tid 1'', Invoked 7, Flush]
           {}
        (ex_q [Unlocked, ReadLock] [[FlushedEntry 0], []] 1 0 0 0 1))
        (Wait_tracing 0) (IO_gather_new_cas [] 2 8)
        [UserEntry 7, FlushedEntry 0]
        [(8, UserEntry 7)] 1)
     (ex_sys (ex_lg [5, 7] 2 2 [] True
           [SetCurrentTracePidTidString ''pid 1 tid 1'', Invoked 7, Flush]
           {}
        (ex_q [Unlocked, ReadLock] [[FlushedEntry 0], []] 1 0 0 0 1))
        (Wait_tracing 0) (IO_gather_new [8] 2)
        [UserEntry 7, FlushedEntry 0]
        [(8, UserEntry 7)] 1)"
  by (rule io_stepI [where evs = "[]"])
     (simp_all add: ex_defs Let_def new_got_def ReadBufferHasBeenConsumed_def
        StartReadingEntries_def FinishReadingEntries_def RemoveValue_def IOThread_flush_def
        IOThread_retire_def)

lemma ex_run_35: "reachable 1 (ex_sys (ex_lg [5, 7] 2 2 [] True
           [SetCurrentTracePidTidString ''pid 1 tid 1'', Invoked 7, Flush]
           {}
        (ex_q [Unlocked, ReadLock] [[FlushedEntry 0], []] 1 0 0 0 1))
        (Wait_tracing 0) (IO_gather_new [8] 2)
        [UserEntry 7, FlushedEntry 0]
        [(8, UserEntry 7)] 1)"
  by (rule reachable.step [OF ex_run_34 ex_step_35])

lemma ex_step_36:
  "step (ex_sys (ex_lg [5, 7] 2 2 [] True
           [SetCurrentTracePidTidString ''pid 1 tid 1'', Invoked 7, Flush]
           {}
        (ex_q [Unlocked, ReadLock] [[FlushedEntry 0], []] 1 0 0 0 1))
        (Wait_tracing 0) (IO_gather_new [8] 2)
        [UserEntry 7, FlushedEntry 0]
        [(8, UserEntry 7)] 1)
     (ex_sys (ex_lg [5, 7] 2 2 [] True
           [SetCurrentTracePidTidString ''pid 1 tid 1'', Invoked 7, Flush]
           {}
        (ex_q [Unlocked, ReadLock] [[FlushedEntry 0], []] 1 0 0 0 1))
        (Wait_tracing 0) (IO_swap [8])
        [UserEntry 7, FlushedEntry 0]
        [(8, UserEntry 7)] 1)"
  by (rule io_stepI [where evs = "[]"])
     (simp_all add: ex_defs Let_def new_got_def ReadBufferHasBeenConsumed_def
        StartReadingEntries_def FinishReadingEntries_def RemoveValue_def IOThread_flush_def
        IOThread_retire_def)

lemma ex_run_36: "reachable 1 (ex_sys (ex_lg [5, 7] 2 2 [] True
           [SetCurrentTracePidTidString ''pid 1 tid 1'', Invoked 7, Flush]
           {}
        (ex_q [Unlocked, ReadLock] [[FlushedEntry 0], []] 1 0 0 0 1))
        (Wait_tracing 0) (IO_swap [8])
        [UserEntry 7, FlushedEntry 0]
        [(8, UserEntry 7)] 1)"
  by (rule reachable.step [OF ex_run_35 ex_step_36])

lemma ex_step_37:
  "step (ex_sys (ex_lg [5, 7] 2 2 [] True
           [SetCurrentTracePidTidString ''pid 1 tid 1'', Invoked 7, Flush]
           {}
        (ex_q [Unlocked, ReadLock] [[FlushedEntry 0], []] 1 0 0 0 1))
        (Wait_tracing 0) (IO_swap [8])
        [UserEntry 7, FlushedEntry 0]
        [(8, UserEntry 7)] 1)
     (ex_sys (ex_lg [5, 7] 2 2 [] True
           [SetCurrentTracePidTidString ''pid 1 tid 1'', Invoked 7, Flush]
           {}
        (ex_q [Unlocked, Unlocked] [[FlushedEntry 0], []] 1 0 0 0 1))
        (Wait_tracing 0) (IO_swap_publish 8 [])
        [UserEntry 7, FlushedEntry 0]
        [(8, UserEntry 7)] 1)"
  by (rule io_stepI [where evs = "[]"])
     (simp_all add: ex_defs Let_def new_got_def ReadBufferHasBeenConsumed_def
        StartReadingEntries_def FinishReadingEntries_def RemoveValue_def IOThread_flush_def
        IOThread_retire_def)

lemma ex_run_37: "reachable 1 (ex_sys (ex_lg [5, 7] 2 2 [] True
           [SetCurrentTracePidTidString ''pid 1 tid 1'', Invoked 7, Flush]
           {}
        (ex_q [Unlocked, Unlocked] [[FlushedEntry 0], []] 1 0 0 0 1))
        (Wait_tracing 0) (IO_swap_publish 8 [])
        [UserEntry 7, FlushedEntry 0]
        [(8, UserEntry 7)] 1)"
  by (rule reachable.step [OF ex_run_36 ex_step_37])

lemma ex_step_38:
  "step (ex_sys (ex_lg [5, 7] 2 2 [] True
           [SetCurrentTracePidTidString ''pid 1 tid 1'', Invoked 7, Flush]
           {}
        (ex_q [Unlocked, Unlocked] [[FlushedEntry 0], []] 1 0 0 0 1))
        (Wait_tracing 0) (IO_swap_publish 8 [])
        [UserEntry 7, FlushedEntry 0]
        [(8, UserEntry 7)] 1)
     (ex_sys (ex_lg [5, 7] 2 2 [8] True
           [SetCurrentTracePidTidString ''pid 1 tid 1'', Invoked 7, Flush]
           {}
        (ex_q [Unlocked, Unlocked] [[FlushedEntry 0], []] 0 1 1 0 1))
        (Wait_tracing 0) (IO_swap [])
        [UserEntry 7, FlushedEntry 0]
        [(8, UserEntry 7)] 1)"
  by (rule io_stepI [where evs = "[]"])
     (simp_all add: ex_defs Let_def new_got_def ReadBufferHasBeenConsumed_def
        StartReadingEntries_def FinishReadingEntries_def RemoveValue_def IOThread_flush_def
        IOThread_retire_def)

lemma ex_run_38: "reachable 1 (ex_sys (ex_lg [5, 7] 2 2 [8] True
           [SetCurrentTracePidTidString ''pid 1 tid 1'', Invoked 7, Flush]
           {}
        (ex_q [Unlocked, Unlocked] [[FlushedEntry 0], []] 0 1 1 0 1))
        (Wait_tracing 0) (IO_swap [])
        [UserEntry 7, FlushedEntry 0]
        [(8, UserEntry 7)] 1)"
  by (rule reachable.step [OF ex_run_37 ex_step_38])

lemma ex_step_39:
  "step (ex_sys (ex_lg [5, 7] 2 2 [8] True
           [SetCurrentTracePidTidString ''pid 1 tid 1'', Invoked 7, Flush]
           {}
        (ex_q [Unlocked, Unlocked] [[FlushedEntry 0], []] 0 1 1 0 1))
        (Wait_tracing 0) (IO_swap [])
        [UserEntry 7, FlushedEntry 0]
        [(8, UserEntry 7)] 1)
     (ex_sys (ex_lg [5, 7] 2 2 [8] True
           [SetCurrentTracePidTidString ''pid 1 tid 1'', Invoked 7, Flush]
           {}
        (ex_q [Unlocked, Unlocked] [[FlushedEntry 0], []] 0 1 1 0 1))
        (Wait_tracing 0) (IO_process 0)
        [UserEntry 7, FlushedEntry 0]
        [(8, UserEntry 7)] 1)"
  by (rule io_stepI [where evs = "[]"])
     (simp_all add: ex_defs Let_def new_got_def ReadBufferHasBeenConsumed_def
        StartReadingEntries_def FinishReadingEntries_def RemoveValue_def IOThread_flush_def
        IOThread_retire_def)

lemma ex_run_39: "reachable 1 (ex_sys (ex_lg [5, 7] 2 2 [8] True
           [SetCurrentTracePidTidString ''pid 1 tid 1'', Invoked 7, Flush]
           {}
        (ex_q [Unlocked, Unlocked] [[FlushedEntry 0], []] 0 1 1 0 1))
        (Wait_tracing 0) (IO_process 0)
        [UserEntry 7, FlushedEntry 0]
        [(8, UserEntry 7)] 1)"
  by (rule reachable.step [OF ex_run_38 ex_step_39])

lemma ex_step_40:
  "step (ex_sys (ex_lg [5, 7] 2 2 [8] True
           [SetCurrentTracePidTidString ''pid 1 tid 1'', Invoked 7, Flush]
           {}
        (ex_q [Unlocked, Unlocked] [[FlushedEntry 0], []] 0 1 1 0 1))
        (Wait_tracing 0) (IO_process 0)
        [UserEntry 7, FlushedEntry 0]
        [(8, UserEntry 7)] 1)
     (ex_sys (ex_lg [5, 7] 2 2 [8] True
           [SetCurrentTracePidTidString ''pid 1 tid 1'', Invoked 7, Flush,
            SetCurrentTracePidTidString ''pid 1 tid 1'']
           {}
        (ex_q [ReadLock, Unlocked] [[FlushedEntry 0], []] 0 1 1 0 1))
        (Wait_tracing 0) (IO_run 0 [FlushedEntry 0])
        [UserEntry 7, FlushedEntry 0]
        [(8, UserEntry 7)] 1)"
  by (rule io_stepI [where evs = "[]"])
     (simp_all add: ex_defs Let_def new_got_def ReadBufferHasBeenConsumed_def
        StartReadingEntries_def FinishReadingEntries_def RemoveValue_def IOThread_flush_def
        IOThread_retire_def)

lemma ex_run_40: "reachable 1 (ex_sys (ex_lg [5, 7] 2 2 [8] True
           [SetCurrentTracePidTidString ''pid 1 tid 1'', Invoked 7, Flush,
            SetCurrentTracePidTidString ''pid 1 tid 1'']
           {}
        (ex_q [ReadLock, Unlocked] [[FlushedEntry 0], []] 0 1 1 0 1))
        (Wait_tracing 0) (IO_run 0 [FlushedEntry 0])
        [UserEntry 7, FlushedEntry 0]
        [(8, UserEntry 7)] 1)"
  by (rule reachable.step [OF ex_run_39 ex_step_40])

lemma ex_step_41:
  "step (ex_sys (ex_lg [5, 7] 2 2 [8] True
           [SetCurrentTracePidTidString ''pid 1 tid 1'', Invoked 7, Flush,
            SetCurrentTracePidTidString ''pid 1 tid 1'']
           {}
        (ex_q [ReadLock, Unlocked] [[FlushedEntry 0], []] 0 1 1 0 1))
        (Wait_tracing 0) (IO_run 0 [FlushedEntry 0])
        [UserEntry 7, FlushedEntry 0]
        [(8, UserEntry 7)] 1)
     ex_waiting"
  by (rule io_stepI [where evs = "[(8, FlushedEntry 0)]"])
     (simp_all add: ex_defs ex_waiting_def Let_def new_got_def ReadBufferHasBeenConsumed_def
        StartReadingEntries_def FinishReadingEntries_def RemoveValue_def IOThread_flush_def
        IOThread_retire_def)

lemma ex_run_41: "reachable 1 ex_waiting"
  by (rule reachable.step [OF ex_run_40 ex_step_41])

lemma ex_step_42:
  "step ex_waiting
     ex_returned"
  by (rule thread_stepI [where this = 8 and now = 0]) (simp_all add: ex_defs ex_waiting_def ex_returned_def)

lemma ex_run_42: "reachable 1 ex_returned"
  by (rule reachable.step [OF ex_run_41 ex_step_42])


subsection \<open>The example run with a deferred swap\<close>

lemma ex_step_d1:
  "step (ex_sys (ex_lg [8, 3] 1 0 [] False [] {}
        (ex_q [ReadLock, Unlocked] [[], [UserEntry 7]] 0 1 0 1 0))
        Idle IO_not_started
        [UserEntry 7]
        [] 0)
     (ex_sys (ex_lg [8, 3] 1 0 [] False [] {}
        (ex_q [ReadLock, Unlocked] [[], [UserEntry 7]] 0 1 0 1 0))
        (Log_load (UserEntry 7) Ret) IO_not_started
        [UserEntry 7, UserEntry 7]
        [] 0)"
proof -
  have "step (ex_sys (ex_lg [8, 3] 1 0 [] False [] {}
      (ex_q [ReadLock, Unlocked] [[], [UserEntry 7]] 0 1 0 1 0))
      Idle IO_not_started
      [UserEntry 7]
      [] 0) (goto (ex_sys (ex_lg [8, 3] 1 0 [] False [] {}
      (ex_q [ReadLock, Unlocked] [[], [UserEntry 7]] 0 1 0 1 0))
      Idle IO_not_started
      [UserEntry 7]
      [] 0) 8 (logger (ex_sys (ex_lg [8, 3] 1 0 [] False [] {}
      (ex_q [ReadLock, Unlocked] [[], [UserEntry 7]] 0 1 0 1 0))
      Idle IO_not_started
      [UserEntry 7]
      [] 0)) (Log_load (UserEntry 7) Ret))"
    by (rule step.call_Log) (simp add: ex_sys_def)
  also have "goto (ex_sys (ex_lg [8, 3] 1 0 [] False [] {}
      (ex_q [ReadLock, Unlocked] [[], [UserEntry 7]] 0 1 0 1 0))
      Idle IO_not_started
      [UserEntry 7]
      [] 0) 8 (logger (ex_sys (ex_lg [8, 3] 1 0 [] False [] {}
      (ex_q [ReadLock, Unlocked] [[], [UserEntry 7]] 0 1 0 1 0))
      Idle IO_not_started
      [UserEntry 7]
      [] 0)) (Log_load (UserEntry 7) Ret) =
      (ex_sys (ex_lg [8, 3] 1 0 [] False [] {}
      (ex_q [ReadLock, Unlocked] [[], [UserEntry 7]] 0 1 0 1 0))
      (Log_load (UserEntry 7) Ret) IO_not_started
      [UserEntry 7, UserEntry 7]
      [] 0)"
    by (simp add: ex_sys_def goto_def)
  finally show ?thesis .
qed

lemma ex_run_d1: "reachable 1 (ex_sys (ex_lg [8, 3] 1 0 [] False [] {}
        (ex_q [ReadLock, Unlocked] [[], [UserEntry 7]] 0 1 0 1 0))
        (Log_load (UserEntry 7) Ret) IO_not_started
        [UserEntry 7, UserEntry 7]
        [] 0)"
  by (rule reachable.step [OF ex_run_8 ex_step_d1])

lemma ex_step_d2:
  "step (ex_sys (ex_lg [8, 3] 1 0 [] False [] {}
        (ex_q [ReadLock, Unlocked] [[], [UserEntry 7]] 0 1 0 1 0))
        (Log_load (UserEntry 7) Ret) IO_not_started
        [UserEntry 7, UserEntry 7]
        [] 0)
     (ex_sys (ex_lg [8, 3] 1 0 [] False [] {}
        (ex_q [ReadLock, Unlocked] [[], [UserEntry 7]] 0 1 0 1 0))
        (Log_cas (UserEntry 7) 1 0 Ret) IO_not_started
        [UserEntry 7, UserEntry 7]
        [] 0)"
  by (rule thread_stepI [where this = 8 and now = 0]) (simp_all add: ex_defs)

lemma ex_run_d2: "reachable 1 (ex_sys (ex_lg [8, 3] 1 0 [] False [] {}
        (ex_q [ReadLock, Unlocked] [[], [UserEntry 7]] 0 1 0 1 0))
        (Log_cas (UserEntry 7) 1 0 Ret) IO_not_started
        [UserEntry 7, UserEntry 7]
        [] 0)"
  by (rule reachable.step [OF ex_run_d1 ex_step_d2])

lemma ex_step_d3:
  "step (ex_sys (ex_lg [8, 3] 1 0 [] False [] {}
        (ex_q [ReadLock, Unlocked] [[], [UserEntry 7]] 0 1 0 1 0))
        (Log_cas (UserEntry 7) 1 0 Ret) IO_not_started
        [UserEntry 7, UserEntry 7]
        [] 0)
     (ex_sys (ex_lg [8, 3] 1 0 [] False [] {}
        (ex_q [ReadLock, WriteLock] [[], [UserEntry 7]] 0 1 0 1 0))
        (Log_append (UserEntry 7) 1 Ret) IO_not_started
        [UserEntry 7, UserEntry 7]
        [] 0)"
  by (rule thread_stepI [where this = 8 and now = 0]) (simp_all add: ex_defs)

lemma ex_run_d3: "reachable 1 (ex_sys (ex_lg [8, 3] 1 0 [] False [] {}
        (ex_q [ReadLock, WriteLock] [[], [UserEntry 7]] 0 1 0 1 0))
        (Log_append (UserEntry 7) 1 Ret) IO_not_started
        [UserEntry 7, UserEntry 7]
        [] 0)"
  by (rule reachable.step [OF ex_run_d2 ex_step_d3])

lemma ex_step_d4:
  "step (ex_sys (ex_lg [8, 3] 1 0 [] False [] {}
        (ex_q [ReadLock, WriteLock] [[], [UserEntry 7]] 0 1 0 1 0))
        (Log_append (UserEntry 7) 1 Ret) IO_not_started
        [UserEntry 7, UserEntry 7]
        [] 0)
     (ex_sys (ex_lg [8, 3] 1 0 [] True [] {}
        (ex_q [ReadLock, WriteLock] [[], [UserEntry 7]] 0 1 0 1 0))
        (Log_append (UserEntry 7) 1 Ret) IO_top
        [UserEntry 7, UserEntry 7]
        [] 0)"
proof -
  let ?s = "ex_sys (ex_lg [8, 3] 1 0 [] False [] {}
      (ex_q [ReadLock, WriteLock] [[], [UserEntry 7]] 0 1 0 1 0))
      (Log_append (UserEntry 7) 1 Ret) IO_not_started
      [UserEntry 7, UserEntry 7]
      [] 0"
  have "io ?s = IO_not_started" by (simp add: ex_sys_def)
  then have "step ?s
      (?s\<lparr> logger := (logger ?s)\<lparr> keep_io_thread_alive := True \<rparr>, io := IO_top \<rparr>)"
    by (rule step.StartIOThread)
  also have "?s\<lparr> logger := (logger ?s)\<lparr> keep_io_thread_alive := True \<rparr>, io := IO_top \<rparr>
    = (ex_sys (ex_lg [8, 3] 1 0 [] True [] {}
      (ex_q [ReadLock, WriteLock] [[], [UserEntry 7]] 0 1 0 1 0))
      (Log_append (UserEntry 7) 1 Ret) IO_top
      [UserEntry 7, UserEntry 7]
      [] 0)"
    by (simp add: ex_sys_def ex_lg_def)
  finally show ?thesis .
qed

lemma ex_run_d4: "reachable 1 (ex_sys (ex_lg [8, 3] 1 0 [] True [] {}
        (ex_q [ReadLock, WriteLock] [[], [UserEntry 7]] 0 1 0 1 0))
        (Log_append (UserEntry 7) 1 Ret) IO_top
        [UserEntry 7, UserEntry 7]
        [] 0)"
  by (rule reachable.step [OF ex_run_d3 ex_step_d4])

lemma ex_step_d5:
  "step (ex_sys (ex_lg [8, 3] 1 0 [] True [] {}
        (ex_q [ReadLock, WriteLock] [[], [UserEntry 7]] 0 1 0 1 0))
        (Log_append (UserEntry 7) 1 Ret) IO_top
        [UserEntry 7, UserEntry 7]
        [] 0)
     (ex_sys (ex_lg [8, 3] 1 0 [] True [] {}
        (ex_q [ReadLock, WriteLock] [[], [UserEntry 7]] 0 1 0 1 0))
        (Log_append (UserEntry 7) 1 Ret) (IO_gather_new_load [])
        [UserEntry 7, UserEntry 7]
        [] 0)"
  by (rule io_stepI [where evs = "[]"])
     (simp_all add: ex_defs Let_def new_got_def ReadBufferHasBeenConsumed_def
        StartReadingEntries_def FinishReadingEntries_def RemoveValue_def IOThread_flush_def
        IOThread_retire_def)

lemma ex_run_d5: "reachable 1 (ex_sys (ex_lg [8, 3] 1 0 [] True [] {}
        (ex_q [ReadLock, WriteLock] [[], [UserEntry 7]] 0 1 0 1 0))
        (Log_append (UserEntry 7) 1 Ret) (IO_gather_new_load [])
        [UserEntry 7, UserEntry 7]
        [] 0)"
  by (rule reachable.step [OF ex_run_d4 ex_step_d5])

lemma ex_step_d6:
  "step (ex_sys (ex_lg [8, 3] 1 0 [] True [] {}
        (ex_q [ReadLock, WriteLock] [[], [UserEntry 7]] 0 1 0 1 0))
        (Log_append (UserEntry 7) 1 Ret) (IO_gather_new_load [])
        [UserEntry 7, UserEntry 7]
        [] 0)
     (ex_sys (ex_lg [8, 3] 1 0 [] True [] {}
        (ex_q [ReadLock, WriteLock] [[], [UserEntry 7]] 0 1 0 1 0))
        (Log_append (UserEntry 7) 1 Ret) (IO_gather_new [] 1)
        [UserEntry 7, UserEntry 7]
        [] 0)"
  by (rule io_stepI [where evs = "[]"])
     (simp_all add: ex_defs Let_def new_got_def ReadBufferHasBeenConsumed_def
        StartReadingEntries_def FinishReadingEntries_def RemoveValue_def IOThread_flush_def
        IOThread_retire_def)

lemma ex_run_d6: "reachable 1 (ex_sys (ex_lg [8, 3] 1 0 [] True [] {}
        (ex_q [ReadLock, WriteLock] [[], [UserEntry 7]] 0 1 0 1 0))
        (Log_append (UserEntry 7) 1 Ret) (IO_gather_new [] 1)
        [UserEntry 7, UserEntry 7]
        [] 0)"
  by (rule reachable.step [OF ex_run_d5 ex_step_d6])

lemma ex_step_d7:
  "step (ex_sys (ex_lg [8, 3] 1 0 [] True [] {}
        (ex_q [ReadLock, WriteLock] [[], [UserEntry 7]] 0 1 0 1 0))
        (Log_append (UserEntry 7) 1 Ret) (IO_gather_new [] 1)
        [UserEntry 7, UserEntry 7]
        [] 0)
     (ex_sys (ex_lg [8, 3] 1 0 [] True [] {}
        (ex_q [ReadLock, WriteLock] [[], [UserEntry 7]] 0 1 0 1 0))
        (Log_append (UserEntry 7) 1 Ret) (IO_gather_new_cas [] 1 8)
        [UserEntry 7, UserEntry 7]
        [] 0)"
  by (rule io_stepI [where evs = "[]"])
     (simp_all add: ex_defs Let_def new_got_def ReadBufferHasBeenConsumed_def
        StartReadingEntries_def FinishReadingEntries_def RemoveValue_def IOThread_flush_def
        IOThread_retire_def)

lemma ex_run_d7: "reachable 1 (ex_sys (ex_lg [8, 3] 1 0 [] True [] {}
        (ex_q [ReadLock, WriteLock] [[], [UserEntry 7]] 0 1 0 1 0))
        (Log_append (UserEntry 7) 1 Ret) (IO_gather_new_cas [] 1 8)
        [UserEntry 7, UserEntry 7]
        [] 0)"
  by (rule reachable.step [OF ex_run_d6 ex_step_d7])

lemma ex_step_d8:
  "step (ex_sys (ex_lg [8, 3] 1 0 [] True [] {}
        (ex_q [ReadLock, WriteLock] [[], [UserEntry 7]] 0 1 0 1 0))
        (Log_append (UserEntry 7) 1 Ret) (IO_gather_new_cas [] 1 8)
        [UserEntry 7, UserEntry 7]
        [] 0)
     (ex_sys (ex_lg [5, 3] 1 1 [] True [] {}
        (ex_q [ReadLock, WriteLock] [[], [UserEntry 7]] 0 1 0 1 0))
        (Log_append (UserEntry 7) 1 Ret) (IO_gather_new [8] 1)
        [UserEntry 7, UserEntry 7]
        [] 0)"
  by (rule io_stepI [where evs = "[]"])
     (simp_all add: ex_defs Let_def new_got_def ReadBufferHasBeenConsumed_def
        StartReadingEntries_def FinishReadingEntries_def RemoveValue_def IOThread_flush_def
        IOThread_retire_def)

lemma ex_run_d8: "reachable 1 (ex_sys (ex_lg [5, 3] 1 1 [] True [] {}
        (ex_q [ReadLock, WriteLock] [[], [UserEntry 7]] 0 1 0 1 0))
        (Log_append (UserEntry 7) 1 Ret) (IO_gather_new [8] 1)
        [UserEntry 7, UserEntry 7]
        [] 0)"
  by (rule reachable.step [OF ex_run_d7 ex_step_d8])

lemma ex_step_d9:
  "step (ex_sys (ex_lg [5, 3] 1 1 [] True [] {}
        (ex_q [ReadLock, WriteLock] [[], [UserEntry 7]] 0 1 0 1 0))
        (Log_append (UserEntry 7) 1 Ret) (IO_gather_new [8] 1)
        [UserEntry 7, UserEntry 7]
        [] 0)
     (ex_sys (ex_lg [5, 3] 1 1 [] True [] {}
        (ex_q [ReadLock, WriteLock] [[], [UserEntry 7]] 0 1 0 1 0))
        (Log_append (UserEntry 7) 1 Ret) (IO_swap [8])
        [UserEntry 7, UserEntry 7]
        [] 0)"
  by (rule io_stepI [where evs = "[]"])
     (simp_all add: ex_defs Let_def new_got_def ReadBufferHasBeenConsumed_def
        StartReadingEntries_def FinishReadingEntries_def RemoveValue_def IOThread_flush_def
        IOThread_retire_def)

lemma ex_run_d9: "reachable 1 (ex_sys (ex_lg [5, 3] 1 1 [] True [] {}
        (ex_q [ReadLock, WriteLock] [[], [UserEntry 7]] 0 1 0 1 0))
        (Log_append (UserEntry 7) 1 Ret) (IO_swap [8])
        [UserEntry 7, UserEntry 7]
        [] 0)"
  by (rule reachable.step [OF ex_run_d8 ex_step_d9])

lemma ex_step_d10:
  "step (ex_sys (ex_lg [5, 3] 1 1 [] True [] {}
        (ex_q [ReadLock, WriteLock] [[], [UserEntry 7]] 0 1 0 1 0))
        (Log_append (UserEntry 7) 1 Ret) (IO_swap [8])
        [UserEntry 7, UserEntry 7]
        [] 0)
     (ex_sys (ex_lg [5, 3] 1 1 [] True [] {}
        (ex_q [Unlocked, WriteLock] [[], [UserEntry 7]] 0 1 0 1 0))
        (Log_append (UserEntry 7) 1 Ret) (IO_swap_publish 8 [])
        [UserEntry 7, UserEntry 7]
        [] 0)"
  by (rule io_stepI [where evs = "[]"])
     (simp_all add: ex_defs Let_def new_got_def ReadBufferHasBeenConsumed_def
        StartReadingEntries_def FinishReadingEntries_def RemoveValue_def IOThread_flush_def
        IOThread_retire_def)

lemma ex_run_d10: "reachable 1 (ex_sys (ex_lg [5, 3] 1 1 [] True [] {}
        (ex_q [Unlocked, WriteLock] [[], [UserEntry 7]] 0 1 0 1 0))
        (Log_append (UserEntry 7) 1 Ret) (IO_swap_publish 8 [])
        [UserEntry 7, UserEntry 7]
        [] 0)"
  by (rule reachable.step [OF ex_run_d9 ex_step_d10])

lemma ex_step_d11:
  "step (ex_sys (ex_lg [5, 3] 1 1 [] True [] {}
        (ex_q [Unlocked, WriteLock] [[], [UserEntry 7]] 0 1 0 1 0))
        (Log_append (UserEntry 7) 1 Ret) (IO_swap_publish 8 [])
        [UserEntry 7, UserEntry 7]
        [] 0)
     (ex_sys (ex_lg [5, 3] 1 1 [8] True [] {}
        (ex_q [Unlocked, WriteLock] [[], [UserEntry 7]] 1 0 1 1 0))
        (Log_append (UserEntry 7) 1 Ret) (IO_swap [])
        [UserEntry 7, UserEntry 7]
        [] 0)"
  by (rule io_stepI [where evs = "[]"])
     (simp_all add: ex_defs Let_def new_got_def ReadBufferHasBeenConsumed_def
        StartReadingEntries_def FinishReadingEntries_def RemoveValue_def IOThread_flush_def
        IOThread_retire_def)

lemma ex_run_d11: "reachable 1 (ex_sys (ex_lg [5, 3] 1 1 [8] True [] {}
        (ex_q [Unlocked, WriteLock] [[], [UserEntry 7]] 1 0 1 1 0))
        (Log_append (UserEntry 7) 1 Ret) (IO_swap [])
        [UserEntry 7, UserEntry 7]
        [] 0)"
  by (rule reachable.step [OF ex_run_d10 ex_step_d11])

lemma ex_step_d12:
  "step (ex_sys (ex_lg [5, 3] 1 1 [8] True [] {}
        (ex_q [Unlocked, WriteLock] [[], [UserEntry 7]] 1 0 1 1 0))
        (Log_append (UserEntry 7) 1 Ret) (IO_swap [])
        [UserEntry 7, UserEntry 7]
        [] 0)
     ex_blocked"
  by (rule io_stepI [where evs = "[]"])
     (simp_all add: ex_defs ex_blocked_def Let_def new_got_def ReadBufferHasBeenConsumed_def
        StartReadingEntries_def FinishReadingEntries_def RemoveValue_def IOThread_flush_def
        IOThread_retire_def)

lemma ex_run_d12: "reachable 1 ex_blocked"
  by (rule reachable.step [OF ex_run_d11 ex_step_d12])

lemma ex_step_d13:
  "step ex_blocked
     ex_retried"
  by (rule io_stepI [where evs = "[]"])
     (simp_all add: ex_defs ex_blocked_def ex_retried_def Let_def new_got_def ReadBufferHasBeenConsumed_def
        StartReadingEntries_def FinishReadingEntries_def RemoveValue_def IOThread_flush_def
        IOThread_retire_def)

lemma ex_run_d13: "reachable 1 ex_retried"
  by (rule reachable.step [OF ex_run_d12 ex_step_d13])

lemma ex_step_d14:
  "step ex_retried
     (ex_sys ((ex_lg [5, 3] 1 1 [8] True [] {}
        (ex_q [Unlocked, WriteLock] [[], [UserEntry 7]] 1 0 1 1 0))
        \<lparr> start_reading_entries_retry_count := 1 \<rparr>)
        (Log_append (UserEntry 7) 1 Ret) IO_flush
        [UserEntry 7, UserEntry 7]
        [] 0)"
  by (rule io_stepI [where evs = "[]"])
     (simp_all add: ex_defs ex_retried_def Let_def new_got_def ReadBufferHasBeenConsumed_def
        StartReadingEntries_def FinishReadingEntries_def RemoveValue_def IOThread_flush_def
        IOThread_retire_def)

lemma ex_run_d14: "reachable 1 (ex_sys ((ex_lg [5, 3] 1 1 [8] True [] {}
        (ex_q [Unlocked, WriteLock] [[], [UserEntry 7]] 1 0 1 1 0))
        \<lparr> start_reading_entries_retry_count := 1 \<rparr>)
        (Log_append (UserEntry 7) 1 Ret) IO_flush
        [UserEntry 7, UserEntry 7]
        [] 0)"
  by (rule reachable.step [OF ex_run_d13 ex_step_d14])

lemma ex_step_d15:
  "step (ex_sys ((ex_lg [5, 3] 1 1 [8] True [] {}
        (ex_q [Unlocked, WriteLock] [[], [UserEntry 7]] 1 0 1 1 0))
        \<lparr> start_reading_entries_retry_count := 1 \<rparr>)
        (Log_append (UserEntry 7) 1 Ret) IO_flush
        [UserEntry 7, UserEntry 7]
        [] 0)
     (ex_sys ((ex_lg [5, 3] 1 1 [8] True [Flush] {}
        (ex_q [Unlocked, WriteLock] [[], [UserEntry 7]] 1 0 1 1 0))
        \<lparr> start_reading_entries_retry_count := 1 \<rparr>)
        (Log_append (UserEntry 7) 1 Ret) IO_retire
        [UserEntry 7, UserEntry 7]
        [] 0)"
  by (rule io_stepI [where evs = "[]"])
     (simp_all add: ex_defs Let_def new_got_def ReadBufferHasBeenConsumed_def
        StartReadingEntries_def FinishReadingEntries_def RemoveValue_def IOThread_flush_def
        IOThread_retire_def)

lemma ex_run_d15: "reachable 1 (ex_sys ((ex_lg [5, 3] 1 1 [8] True [Flush] {}
        (ex_q [Unlocked, WriteLock] [[], [UserEntry 7]] 1 0 1 1 0))
        \<lparr> start_reading_entries_retry_count := 1 \<rparr>)
        (Log_append (UserEntry 7) 1 Ret) IO_retire
        [UserEntry 7, UserEntry 7]
        [] 0)"
  by (rule reachable.step [OF ex_run_d14 ex_step_d15])

lemma ex_step_d16:
  "step (ex_sys ((ex_lg [5, 3] 1 1 [8] True [Flush] {}
        (ex_q [Unlocked, WriteLock] [[], [UserEntry 7]] 1 0 1 1 0))
        \<lparr> start_reading_entries_retry_count := 1 \<rparr>)
        (Log_append (UserEntry 7) 1 Ret) IO_retire
        [UserEntry 7, UserEntry 7]
        [] 0)
     (ex_sys ((ex_lg [5, 3] 1 1 [8] True [Flush] {}
        (ex_q [Unlocked, WriteLock] [[], [UserEntry 7]] 1 0 1 1 0))
        \<lparr> start_reading_entries_retry_count := 1 \<rparr>)
        (Log_append (UserEntry 7) 1 Ret) IO_top
        [UserEntry 7, UserEntry 7]
        [] 0)"
  by (rule io_stepI [where evs = "[]"])
     (simp_all add: ex_defs Let_def new_got_def ReadBufferHasBeenConsumed_def
        StartReadingEntries_def FinishReadingEntries_def RemoveValue_def IOThread_flush_def
        IOThread_retire_def)

lemma ex_run_d16: "reachable 1 (ex_sys ((ex_lg [5, 3] 1 1 [8] True [Flush] {}
        (ex_q [Unlocked, WriteLock] [[], [UserEntry 7]] 1 0 1 1 0))
        \<lparr> start_reading_entries_retry_count := 1 \<rparr>)
        (Log_append (UserEntry 7) 1 Ret) IO_top
        [UserEntry 7, UserEntry 7]
        [] 0)"
  by (rule reachable.step [OF ex_run_d15 ex_step_d16])

lemma ex_step_d17:
  "step (ex_sys ((ex_lg [5, 3] 1 1 [8] True [Flush] {}
        (ex_q [Unlocked, WriteLock] [[], [UserEntry 7]] 1 0 1 1 0))
        \<lparr> start_reading_entries_retry_count := 1 \<rparr>)
        (Log_append (UserEntry 7) 1 Ret) IO_top
        [UserEntry 7, UserEntry 7]
        [] 0)
     (ex_sys ((ex_lg [5, 3] 1 1 [8] True [Flush] {}
        (ex_q [Unlocked, WriteLock] [[], [UserEntry 7, UserEntry 7]] 1 0 1 1 0))
        \<lparr> start_reading_entries_retry_count := 1 \<rparr>)
        (Log_unlock 1 Ret) IO_top
        [UserEntry 7, UserEntry 7]
        [] 0)"
  by (rule thread_stepI [where this = 8 and now = 0]) (simp_all add: ex_defs)

lemma ex_run_d17: "reachable 1 (ex_sys ((ex_lg [5, 3] 1 1 [8] True [Flush] {}
        (ex_q [Unlocked, WriteLock] [[], [UserEntry 7, UserEntry 7]] 1 0 1 1 0))
        \<lparr> start_reading_entries_retry_count := 1 \<rparr>)
        (Log_unlock 1 Ret) IO_top
        [UserEntry 7, UserEntry 7]
        [] 0)"
  by (rule reachable.step [OF ex_run_d16 ex_step_d17])

lemma ex_step_d18:
  "step (ex_sys ((ex_lg [5, 3] 1 1 [8] True [Flush] {}
        (ex_q [Unlocked, WriteLock] [[], [UserEntry 7, UserEntry 7]] 1 0 1 1 0))
        \<lparr> start_reading_entries_retry_count := 1 \<rparr>)
        (Log_unlock 1 Ret) IO_top
        [UserEntry 7, UserEntry 7]
        [] 0)
     (ex_sys ((ex_lg [5, 3] 1 1 [8] True [Flush] {}
        (ex_q [Unlocked, Unlocked] [[], [UserEntry 7, UserEntry 7]] 1 0 1 1 0))
        \<lparr> start_reading_entries_retry_count := 1 \<rparr>)
        Idle IO_top
        [UserEntry 7, UserEntry 7]
        [] 0)"
  by (rule thread_stepI [where this = 8 and now = 0]) (simp_all add: ex_defs)

lemma ex_run_d18: "reachable 1 (ex_sys ((ex_lg [5, 3] 1 1 [8] True [Flush] {}
        (ex_q [Unlocked, Unlocked] [[], [UserEntry 7, UserEntry 7]] 1 0 1 1 0))
        \<lparr> start_reading_entries_retry_count := 1 \<rparr>)
        Idle IO_top
        [UserEntry 7, UserEntry 7]
        [] 0)"
  by (rule reachable.step [OF ex_run_d17 ex_step_d18])

lemma ex_step_d19:
  "step (ex_sys ((ex_lg [5, 3] 1 1 [8] True [Flush] {}
        (ex_q [Unlocked, Unlocked] [[], [UserEntry 7, UserEntry 7]] 1 0 1 1 0))
        \<lparr> start_reading_entries_retry_count := 1 \<rparr>)
        Idle IO_top
        [UserEntry 7, UserEntry 7]
        [] 0)
     (ex_sys ((ex_lg [5, 3] 1 1 [8] True [Flush] {}
        (ex_q [Unlocked, Unlocked] [[], [UserEntry 7, UserEntry 7]] 1 0 1 1 0))
        \<lparr> start_reading_entries_retry_count := 1 \<rparr>)
        (Log_load (UserEntry 7) Ret) IO_top
        [UserEntry 7, UserEntry 7, UserEntry 7]
        [] 0)"
proof -
  have "step (ex_sys ((ex_lg [5, 3] 1 1 [8] True [Flush] {}
      (ex_q [Unlocked, Unlocked] [[], [UserEntry 7, UserEntry 7]] 1 0 1 1 0))
      \<lparr> start_reading_entries_retry_count := 1 \<rparr>)
      Idle IO_top
      [UserEntry 7, UserEntry 7]
      [] 0) (goto (ex_sys ((ex_lg [5, 3] 1 1 [8] True [Flush] {}
      (ex_q [Unlocked, Unlocked] [[], [UserEntry 7, UserEntry 7]] 1 0 1 1 0))
      \<lparr> start_reading_entries_retry_count := 1 \<rparr>)
      Idle IO_top
      [UserEntry 7, UserEntry 7]
      [] 0) 8 (logger (ex_sys ((ex_lg [5, 3] 1 1 [8] True [Flush] {}
      (ex_q [Unlocked, Unlocked] [[], [UserEntry 7, UserEntry 7]] 1 0 1 1 0))
      \<lparr> start_reading_entries_retry_count := 1 \<rparr>)
      Idle IO_top
      [UserEntry 7, UserEntry 7]
      [] 0)) (Log_load (UserEntry 7) Ret))"
    by (rule step.call_Log) (simp add: ex_sys_def)
  also have "goto (ex_sys ((ex_lg [5, 3] 1 1 [8] True [Flush] {}
      (ex_q [Unlocked, Unlocked] [[], [UserEntry 7, UserEntry 7]] 1 0 1 1 0))
      \<lparr> start_reading_entries_retry_count := 1 \<rparr>)
      Idle IO_top
      [UserEntry 7, UserEntry 7]
      [] 0) 8 (logger (ex_sys ((ex_lg [5, 3] 1 1 [8] True [Flush] {}
      (ex_q [Unlocked, Unlocked] [[], [UserEntry 7, UserEntry 7]] 1 0 1 1 0))
      \<lparr> start_reading_entries_retry_count := 1 \<rparr>)
      Idle IO_top
      [UserEntry 7, UserEntry 7]
      [] 0)) (Log_load (UserEntry 7) Ret) =
      (ex_sys ((ex_lg [5, 3] 1 1 [8] True [Flush] {}
      (ex_q [Unlocked, Unlocked] [[], [UserEntry 7, UserEntry 7]] 1 0 1 1 0))
      \<lparr> start_reading_entries_retry_count := 1 \<rparr>)
      (Log_load (UserEntry 7) Ret) IO_top
      [UserEntry 7, UserEntry 7, UserEntry 7]
      [] 0)"
    by (simp add: ex_sys_def goto_def)
  finally show ?thesis .
qed

lemma ex_run_d19: "reachable 1 (ex_sys ((ex_lg [5, 3] 1 1 [8] True [Flush] {}
        (ex_q [Unlocked, Unlocked] [[], [UserEntry 7, UserEntry 7]] 1 0 1 1 0))
        \<lparr> start_reading_entries_retry_count := 1 \<rparr>)
        (Log_load (UserEntry 7) Ret) IO_top
        [UserEntry 7, UserEntry 7, UserEntry 7]
        [] 0)"
  by (rule reachable.step [OF ex_run_d18 ex_step_d19])

lemma ex_step_d20:
  "step (ex_sys ((ex_lg [5, 3] 1 1 [8] True [Flush] {}
        (ex_q [Unlocked, Unlocked] [[], [UserEntry 7, UserEntry 7]] 1 0 1 1 0))
        \<lparr> start_reading_entries_retry_count := 1 \<rparr>)
        (Log_load (UserEntry 7) Ret) IO_top
        [UserEntry 7, UserEntry 7, UserEntry 7]
        [] 0)
     (ex_sys ((ex_lg [5, 3] 1 1 [8] True [Flush] {}
        (ex_q [Unlocked, Unlocked] [[], [UserEntry 7, UserEntry 7]] 1 0 1 1 0))
        \<lparr> start_reading_entries_retry_count := 1 \<rparr>)
        (Log_cas (UserEntry 7) 0 0 Ret) IO_top
        [UserEntry 7, UserEntry 7, UserEntry 7]
        [] 0)"
  by (rule thread_stepI [where this = 8 and now = 0]) (simp_all add: ex_defs)

lemma ex_run_d20: "reachable 1 (ex_sys ((ex_lg [5, 3] 1 1 [8] True [Flush] {}
        (ex_q [Unlocked, Unlocked] [[], [UserEntry 7, UserEntry 7]] 1 0 1 1 0))
        \<lparr> start_reading_entries_retry_count := 1 \<rparr>)
        (Log_cas (UserEntry 7) 0 0 Ret) IO_top
        [UserEntry 7, UserEntry 7, UserEntry 7]
        [] 0)"
  by (rule reachable.step [OF ex_run_d19 ex_step_d20])

lemma ex_step_d21:
  "step (ex_sys ((ex_lg [5, 3] 1 1 [8] True [Flush] {}
        (ex_q [Unlocked, Unlocked] [[], [UserEntry 7, UserEntry 7]] 1 0 1 1 0))
        \<lparr> start_reading_entries_retry_count := 1 \<rparr>)
        (Log_cas (UserEntry 7) 0 0 Ret) IO_top
        [UserEntry 7, UserEntry 7, UserEntry 7]
        [] 0)
     (ex_sys ((ex_lg [5, 3] 1 1 [8] True [Flush] {}
        (ex_q [WriteLock, Unlocked] [[], [UserEntry 7, UserEntry 7]] 1 0 1 1 0))
        \<lparr> start_reading_entries_retry_count := 1 \<rparr>)
        (Log_append (UserEntry 7) 0 Ret) IO_top
        [UserEntry 7, UserEntry 7, UserEntry 7]
        [] 0)"
  by (rule thread_stepI [where this = 8 and now = 0]) (simp_all add: ex_defs)

lemma ex_run_d21: "reachable 1 (ex_sys ((ex_lg [5, 3] 1 1 [8] True [Flush] {}
        (ex_q [WriteLock, Unlocked] [[], [UserEntry 7, UserEntry 7]] 1 0 1 1 0))
        \<lparr> start_reading_entries_retry_count := 1 \<rparr>)
        (Log_append (UserEntry 7) 0 Ret) IO_top
        [UserEntry 7, UserEntry 7, UserEntry 7]
        [] 0)"
  by (rule reachable.step [OF ex_run_d20 ex_step_d21])

lemma ex_step_d22:
  "step (ex_sys ((ex_lg [5, 3] 1 1 [8] True [Flush] {}
        (ex_q [WriteLock, Unlocked] [[], [UserEntry 7, UserEntry 7]] 1 0 1 1 0))
        \<lparr> start_reading_entries_retry_count := 1 \<rparr>)
        (Log_append (UserEntry 7) 0 Ret) IO_top
        [UserEntry 7, UserEntry 7, UserEntry 7]
        [] 0)
     (ex_sys ((ex_lg [5, 3] 1 1 [8] True [Flush] {}
        (ex_q [WriteLock, Unlocked] [[UserEntry 7], [UserEntry 7, UserEntry 7]] 1 0 1 1 0))
        \<lparr> start_reading_entries_retry_count := 1 \<rparr>)
        (Log_unlock 0 Ret) IO_top
        [UserEntry 7, UserEntry 7, UserEntry 7]
        [] 0)"
  by (rule thread_stepI [where this = 8 and now = 0]) (simp_all add: ex_defs)

lemma ex_run_d22: "reachable 1 (ex_sys ((ex_lg [5, 3] 1 1 [8] True [Flush] {}
        (ex_q [WriteLock, Unlocked] [[UserEntry 7], [UserEntry 7, UserEntry 7]] 1 0 1 1 0))
        \<lparr> start_reading_entries_retry_count := 1 \<rparr>)
        (Log_unlock 0 Ret) IO_top
        [UserEntry 7, UserEntry 7, UserEntry 7]
        [] 0)"
  by (rule reachable.step [OF ex_run_d21 ex_step_d22])

lemma ex_step_d23:
  "step (ex_sys ((ex_lg [5, 3] 1 1 [8] True [Flush] {}
        (ex_q [WriteLock, Unlocked] [[UserEntry 7], [UserEntry 7, UserEntry 7]] 1 0 1 1 0))
        \<lparr> start_reading_entries_retry_count := 1 \<rparr>)
        (Log_unlock 0 Ret) IO_top
        [UserEntry 7, UserEntry 7, UserEntry 7]
        [] 0)
     (ex_sys ((ex_lg [5, 3] 1 1 [8] True [Flush] {}
        (ex_q [Unlocked, Unlocked] [[UserEntry 7], [UserEntry 7, UserEntry 7]] 1 0 1 1 0))
        \<lparr> start_reading_entries_retry_count := 1 \<rparr>)
        (Req_fetch 0 Ret) IO_top
        [UserEntry 7, UserEntry 7, UserEntry 7]
        [] 0)"
  by (rule thread_stepI [where this = 8 and now = 0]) (simp_all add: ex_defs)

lemma ex_run_d23: "reachable 1 (ex_sys ((ex_lg [5, 3] 1 1 [8] True [Flush] {}
        (ex_q [Unlocked, Unlocked] [[UserEntry 7], [UserEntry 7, UserEntry 7]] 1 0 1 1 0))
        \<lparr> start_reading_entries_retry_count := 1 \<rparr>)
        (Req_fetch 0 Ret) IO_top
        [UserEntry 7, UserEntry 7, UserEntry 7]
        [] 0)"
  by (rule reachable.step [OF ex_run_d22 ex_step_d23])

lemma ex_step_d24:
  "step (ex_sys ((ex_lg [5, 3] 1 1 [8] True [Flush] {}
        (ex_q [Unlocked, Unlocked] [[UserEntry 7], [UserEntry 7, UserEntry 7]] 1 0 1 1 0))
        \<lparr> start_reading_entries_retry_count := 1 \<rparr>)
        (Req_fetch 0 Ret) IO_top
        [UserEntry 7, UserEntry 7, UserEntry 7]
        [] 0)
     (ex_sys ((ex_lg [5, 3] 2 1 [8] True [Flush] {}
        (ex_q [Unlocked, Unlocked] [[UserEntry 7], [UserEntry 7, UserEntry 7]] 1 0 1 1 0))
        \<lparr> start_reading_entries_retry_count := 1 \<rparr>)
        (Req_cas 0 1 Ret) IO_top
        [UserEntry 7, UserEntry 7, UserEntry 7]
        [] 0)"
  by (rule thread_stepI [where this = 8 and now = 0]) (simp_all add: ex_defs)

lemma ex_run_d24: "reachable 1 (ex_sys ((ex_lg [5, 3] 2 1 [8] True [Flush] {}
        (ex_q [Unlocked, Unlocked] [[UserEntry 7], [UserEntry 7, UserEntry 7]] 1 0 1 1 0))
        \<lparr> start_reading_entries_retry_count := 1 \<rparr>)
        (Req_cas 0 1 Ret) IO_top
        [UserEntry 7, UserEntry 7, UserEntry 7]
        [] 0)"
  by (rule reachable.step [OF ex_run_d23 ex_step_d24])

lemma ex_step_d25:
  "step (ex_sys ((ex_lg [5, 3] 2 1 [8] True [Flush] {}
        (ex_q [Unlocked, Unlocked] [[UserEntry 7], [UserEntry 7, UserEntry 7]] 1 0 1 1 0))
        \<lparr> start_reading_entries_retry_count := 1 \<rparr>)
        (Req_cas 0 1 Ret) IO_top
        [UserEntry 7, UserEntry 7, UserEntry 7]
        [] 0)
     (ex_sys ((ex_lg [5, 8] 2 1 [8] True [Flush] {}
        (ex_q [Unlocked, Unlocked] [[UserEntry 7], [UserEntry 7, UserEntry 7]] 1 0 1 0 0))
        \<lparr> start_reading_entries_retry_count := 1 \<rparr>)
        Idle IO_top
        [UserEntry 7, UserEntry 7, UserEntry 7]
        [] 0)"
  by (rule thread_stepI [where this = 8 and now = 0]) (simp_all add: ex_defs)

lemma ex_run_d25: "reachable 1 (ex_sys ((ex_lg [5, 8] 2 1 [8] True [Flush] {}
        (ex_q [Unlocked, Unlocked] [[UserEntry 7], [UserEntry 7, UserEntry 7]] 1 0 1 0 0))
        \<lparr> start_reading_entries_retry_count := 1 \<rparr>)
        Idle IO_top
        [UserEntry 7, UserEntry 7, UserEntry 7]
        [] 0)"
  by (rule reachable.step [OF ex_run_d24 ex_step_d25])

lemma ex_step_d26:
  "step (ex_sys ((ex_lg [5, 8] 2 1 [8] True [Flush] {}
        (ex_q [Unlocked, Unlocked] [[UserEntry 7], [UserEntry 7, UserEntry 7]] 1 0 1 0 0))
        \<lparr> start_reading_entries_retry_count := 1 \<rparr>)
        Idle IO_top
        [UserEntry 7, UserEntry 7, UserEntry 7]
        [] 0)
     (ex_sys ((ex_lg [5, 8] 2 1 [8] True [Flush] {}
        (ex_q [Unlocked, Unlocked] [[UserEntry 7], [UserEntry 7, UserEntry 7]] 1 0 1 0 0))
        \<lparr> start_reading_entries_retry_count := 1 \<rparr>)
        Idle (IO_gather_new_load [])
        [UserEntry 7, UserEntry 7, UserEntry 7]
        [] 0)"
  by (rule io_stepI [where evs = "[]"])
     (simp_all add: ex_defs Let_def new_got_def ReadBufferHasBeenConsumed_def
        StartReadingEntries_def FinishReadingEntries_def RemoveValue_def IOThread_flush_def
        IOThread_retire_def)

lemma ex_run_d26: "reachable 1 (ex_sys ((ex_lg [5, 8] 2 1 [8] True [Flush] {}
        (ex_q [Unlocked, Unlocked] [[UserEntry 7], [UserEntry 7, UserEntry 7]] 1 0 1 0 0))
        \<lparr> start_reading_entries_retry_count := 1 \<rparr>)
        Idle (IO_gather_new_load [])
        [UserEntry 7, UserEntry 7, UserEntry 7]
        [] 0)"
  by (rule reachable.step [OF ex_run_d25 ex_step_d26])

lemma ex_step_d27:
  "step (ex_sys ((ex_lg [5, 8] 2 1 [8] True [Flush] {}
        (ex_q [Unlocked, Unlocked] [[UserEntry 7], [UserEntry 7, UserEntry 7]] 1 0 1 0 0))
        \<lparr> start_reading_entries_retry_count := 1 \<rparr>)
        Idle (IO_gather_new_load [])
        [UserEntry 7, UserEntry 7, UserEntry 7]
        [] 0)
     (ex_sys ((ex_lg [5, 8] 2 1 [8] True [Flush] {}
        (ex_q [Unlocked, Unlocked] [[UserEntry 7], [UserEntry 7, UserEntry 7]] 1 0 1 0 0))
        \<lparr> start_reading_entries_retry_count := 1 \<rparr>)
        Idle (IO_gather_new [] 2)
        [UserEntry 7, UserEntry 7, UserEntry 7]
        [] 0)"
  by (rule io_stepI [where evs = "[]"])
     (simp_all add: ex_defs Let_def new_got_def ReadBufferHasBeenConsumed_def
        StartReadingEntries_def FinishReadingEntries_def RemoveValue_def IOThread_flush_def
        IOThread_retire_def)

lemma ex_run_d27: "reachable 1 (ex_sys ((ex_lg [5, 8] 2 1 [8] True [Flush] {}
        (ex_q [Unlocked, Unlocked] [[UserEntry 7], [UserEntry 7, UserEntry 7]] 1 0 1 0 0))
        \<lparr> start_reading_entries_retry_count := 1 \<rparr>)
        Idle (IO_gather_new [] 2)
        [UserEntry 7, UserEntry 7, UserEntry 7]
        [] 0)"
  by (rule reachable.step [OF ex_run_d26 ex_step_d27])

lemma ex_step_d28:
  "step (ex_sys ((ex_lg [5, 8] 2 1 [8] True [Flush] {}
        (ex_q [Unlocked, Unlocked] [[UserEntry 7], [UserEntry 7, UserEntry 7]] 1 0 1 0 0))
        \<lparr> start_reading_entries_retry_count := 1 \<rparr>)
        Idle (IO_gather_new [] 2)
        [UserEntry 7, UserEntry 7, UserEntry 7]
        [] 0)
     (ex_sys ((ex_lg [5, 8] 2 1 [8] True [Flush] {}
        (ex_q [Unlocked, Unlocked] [[UserEntry 7], [UserEntry 7, UserEntry 7]] 1 0 1 0 0))
        \<lparr> start_reading_entries_retry_count := 1 \<rparr>)
        Idle (IO_gather_new_cas [] 2 8)
        [UserEntry 7, UserEntry 7, UserEntry 7]
        [] 0)"
  by (rule io_stepI [where evs = "[]"])
     (simp_all add: ex_defs Let_def new_got_def ReadBufferHasBeenConsumed_def
        StartReadingEntries_def FinishReadingEntries_def RemoveValue_def IOThread_flush_def
        IOThread_retire_def)

lemma ex_run_d28: "reachable 1 (ex_sys ((ex_lg [5, 8] 2 1 [8] True [Flush] {}
        (ex_q [Unlocked, Unlocked] [[UserEntry 7], [UserEntry 7, UserEntry 7]] 1 0 1 0 0))
        \<lparr> start_reading_entries_retry_count := 1 \<rparr>)
        Idle (IO_gather_new_cas [] 2 8)
        [UserEntry 7, UserEntry 7, UserEntry 7]
        [] 0)"
  by (rule reachable.step [OF ex_run_d27 ex_step_d28])

lemma ex_step_d29:
  "step (ex_sys ((ex_lg [5, 8] 2 1 [8] True [Flush] {}
        (ex_q [Unlocked, Unlocked] [[UserEntry 7], [UserEntry 7, UserEntry 7]] 1 0 1 0 0))
        \<lparr> start_reading_entries_retry_count := 1 \<rparr>)
        Idle (IO_gather_new_cas [] 2 8)
        [UserEntry 7, UserEntry 7, UserEntry 7]
        [] 0)
     (ex_sys ((ex_lg [5, 7] 2 2 [8] True [Flush] {}
        (ex_q [Unlocked, Unlocked] [[UserEntry 7], [UserEntry 7, UserEntry 7]] 1 0 1 0 0))
        \<lparr> start_reading_entries_retry_count := 1 \<rparr>)
        Idle (IO_gather_new [8] 2)
        [UserEntry 7, UserEntry 7, UserEntry 7]
        [] 0)"
  by (rule io_stepI [where evs = "[]"])
     (simp_all add: ex_defs Let_def new_got_def ReadBufferHasBeenConsumed_def
        StartReadingEntries_def FinishReadingEntries_def RemoveValue_def IOThread_flush_def
        IOThread_retire_def)

lemma ex_run_d29: "reachable 1 (ex_sys ((ex_lg [5, 7] 2 2 [8] True [Flush] {}
        (ex_q [Unlocked, Unlocked] [[UserEntry 7], [UserEntry 7, UserEntry 7]] 1 0 1 0 0))
        \<lparr> start_reading_entries_retry_count := 1 \<rparr>)
        Idle (IO_gather_new [8] 2)
        [UserEntry 7, UserEntry 7, UserEntry 7]
        [] 0)"
  by (rule reachable.step [OF ex_run_d28 ex_step_d29])

lemma ex_step_d30:
  "step (ex_sys ((ex_lg [5, 7] 2 2 [8] True [Flush] {}
        (ex_q [Unlocked, Unlocked] [[UserEntry 7], [UserEntry 7, UserEntry 7]] 1 0 1 0 0))
        \<lparr> start_reading_entries_retry_count := 1 \<rparr>)
        Idle (IO_gather_new [8] 2)
        [UserEntry 7, UserEntry 7, UserEntry 7]
        [] 0)
     ex_deferring"
  by (rule io_stepI [where evs = "[]"])
     (simp_all add: ex_defs ex_deferring_def Let_def new_got_def ReadBufferHasBeenConsumed_def
        StartReadingEntries_def FinishReadingEntries_def RemoveValue_def IOThread_flush_def
        IOThread_retire_def)

lemma ex_run_d30: "reachable 1 ex_deferring"
  by (rule reachable.step [OF ex_run_d29 ex_step_d30])

lemma ex_step_d31:
  "step ex_deferring
     ex_deferred"
  by (rule io_stepI [where evs = "[]"])
     (simp_all add: ex_defs ex_deferring_def ex_deferred_def Let_def new_got_def ReadBufferHasBeenConsumed_def
        StartReadingEntries_def FinishReadingEntries_def RemoveValue_def IOThread_flush_def
        IOThread_retire_def)

lemma ex_run_d31: "reachable 1 ex_deferred"
  by (rule reachable.step [OF ex_run_d30 ex_step_d31])


subsection \<open>Barriers\<close>








text \<open>
  In the example runs: a swap that is carried out, a swap that is deferred, the last
  step of a swap, and the end of reading.
\<close>

theorem unread_swaps_zero_or_one_witness:
  "reachable 1 ex_swapping \<and> io ex_swapping = IO_swap [8]
   \<and> tls (logger ex_swapping) 8
       = Some (ex_q [ReadLock, Unlocked] [[], [UserEntry 7]] 0 1 0 1 0)
   \<and> ReadBufferHasBeenConsumed (ex_q [ReadLock, Unlocked] [[], [UserEntry 7]] 0 1 0 1 0)
   \<and> io_step (logger ex_swapping) (io ex_swapping)
       = Some (Inr (logger ex_unlocked, IO_swap_publish 8 [], []))
   \<and> reachable 1 ex_deferring \<and> io ex_deferring = IO_swap [8]
   \<and> tls (logger ex_deferring) 8
       = Some (ex_q [Unlocked, Unlocked] [[UserEntry 7], [UserEntry 7, UserEntry 7]] 1 0 1 0 0)
   \<and> \<not> ReadBufferHasBeenConsumed
         (ex_q [Unlocked, Unlocked] [[UserEntry 7], [UserEntry 7, UserEntry 7]] 1 0 1 0 0)
   \<and> io_step (logger ex_deferring) (io ex_deferring)
       = Some (Inr (logger ex_deferred, IO_swap [], []))
   \<and> threads_to_swap_deferred (logger ex_deferred) = [8]
   \<and> tls (logger ex_deferred) 8 = tls (logger ex_deferring) 8
   \<and> reachable 1 ex_unlocked \<and> step ex_unlocked ex_published
   \<and> io ex_unlocked = IO_swap_publish 8 []
   \<and> tls (logger ex_unlocked) 8
       = Some (ex_q [Unlocked, Unlocked] [[], [UserEntry 7]] 0 1 0 1 0)
   \<and> tls (logger ex_published) 8
       = Some (ex_q [Unlocked, Unlocked] [[], [UserEntry 7]] 1 0 1 1 0)
   \<and> unread_swaps (ex_q [Unlocked, Unlocked] [[], [UserEntry 7]] 0 1 0 1 0) = 0
   \<and> unread_swaps (ex_q [Unlocked, Unlocked] [[], [UserEntry 7]] 1 0 1 1 0) = 1
   \<and> reachable 1 ex_reading \<and> step ex_reading ex_consumed
   \<and> io ex_reading = IO_run 0 [] \<and> threads_to_read (logger ex_reading) ! 0 = 8
   \<and> tls (logger ex_reading) 8
       = Some (ex_q [Unlocked, ReadLock] [[FlushedEntry 0], [UserEntry 7]] 1 0 1 0 1)
   \<and> tls (logger ex_consumed) 8
       = Some (FinishReadingEntries
                 (ex_q [Unlocked, ReadLock] [[FlushedEntry 0], [UserEntry 7]] 1 0 1 0 1))
   \<and> unread_swaps (ex_q [Unlocked, ReadLock] [[FlushedEntry 0], [UserEntry 7]] 1 0 1 0 1) = 1
   \<and> unread_swaps (FinishReadingEntries
         (ex_q [Unlocked, ReadLock] [[FlushedEntry 0], [UserEntry 7]] 1 0 1 0 1)) = 0"
proof -
  let ?qa = "ex_q [ReadLock, Unlocked] [[], [UserEntry 7]] 0 1 0 1 0"
  let ?qb = "ex_q [Unlocked, Unlocked] [[], [UserEntry 7]] 0 1 0 1 0"
  let ?qc = "ex_q [Unlocked, Unlocked] [[], [UserEntry 7]] 1 0 1 1 0"
  let ?qd = "ex_q [Unlocked, ReadLock] [[FlushedEntry 0], [UserEntry 7]] 1 0 1 0 1"
  let ?qe = "ex_q [Unlocked, Unlocked] [[UserEntry 7], [UserEntry 7, UserEntry 7]] 1 0 1 0 0"
  have a: "io ex_swapping = IO_swap [8]" "tls (logger ex_swapping) 8 = Some ?qa"
    "ReadBufferHasBeenConsumed ?qa"
    "set_tls (logger ex_swapping) 8
       (?qa\<lparr> entry_states := (entry_states ?qa)[unat (i_read ?qa) := Unlocked] \<rparr>)
     = logger ex_unlocked"
    by (simp_all add: ex_swapping_def ex_unlocked_def ex_defs ReadBufferHasBeenConsumed_def)
  have e: "io ex_deferring = IO_swap [8]" "tls (logger ex_deferring) 8 = Some ?qe"
    "\<not> ReadBufferHasBeenConsumed ?qe"
    "(logger ex_deferring)\<lparr> threads_to_swap_deferred :=
        threads_to_swap_deferred (logger ex_deferring) @ [8] \<rparr> = logger ex_deferred"
    "threads_to_swap_deferred (logger ex_deferred) = [8]"
    "tls (logger ex_deferred) 8 = tls (logger ex_deferring) 8"
    by (simp_all add: ex_deferring_def ex_deferred_def ex_defs ReadBufferHasBeenConsumed_def)
  have b: "io ex_unlocked = IO_swap_publish 8 []" "tls (logger ex_unlocked) 8 = Some ?qb"
    "tls (logger ex_published) 8 = Some ?qc" "unread_swaps ?qc \<noteq> unread_swaps ?qb"
    by (simp_all add: ex_unlocked_def ex_published_def ex_sys_def ex_lg_def ex_q_def)
  have d: "io ex_reading = IO_run 0 []" "threads_to_read (logger ex_reading) ! 0 = 8"
    "tls (logger ex_reading) 8 = Some ?qd"
    "tls (logger ex_consumed) 8 = Some (FinishReadingEntries ?qd)"
    "unread_swaps (FinishReadingEntries ?qd) \<noteq> unread_swaps ?qd"
    by (simp_all add: ex_reading_def ex_consumed_def ex_sys_def ex_lg_def ex_q_def
        FinishReadingEntries_def)
  have sw: "io_step (logger s) (io s) =
            (if ReadBufferHasBeenConsumed t
             then Some (Inr (set_tls (logger s) 8
                               (t\<lparr> entry_states := (entry_states t)[unat (i_read t) := Unlocked] \<rparr>),
                             IO_swap_publish 8 ps, []))
             else Some (Inr ((logger s)\<lparr> threads_to_swap_deferred :=
                                            threads_to_swap_deferred (logger s) @ [8] \<rparr>,
                             IO_swap ps, [])))"
    if "reachable 1 s" "tls (logger s) 8 = Some t" "io s = IO_swap (8 # ps)"
    for s :: "nat system" and t ps
    using unread_swaps_zero_or_one [OF that(1,2)] that(3) by blast
  from sw [OF ex_run_16 a(2,1)] a(3,4)
  have sa: "io_step (logger ex_swapping) (io ex_swapping)
       = Some (Inr (logger ex_unlocked, IO_swap_publish 8 [], []))"
    by simp
  from sw [OF ex_run_d30 e(2,1)] e(3,4)
  have se: "io_step (logger ex_deferring) (io ex_deferring)
       = Some (Inr (logger ex_deferred, IO_swap [], []))"
    by simp
  have c: "step s s' \<Longrightarrow> tls (logger s') 8 = Some t' \<Longrightarrow> unread_swaps t' \<noteq> unread_swaps t \<Longrightarrow>
          (\<exists>ps. io s = IO_swap_publish 8 ps \<and> unread_swaps t = 0 \<and> unread_swaps t' = 1)
          \<or> (\<exists>k. io s = IO_run k [] \<and> threads_to_read (logger s) ! k = 8
                \<and> t' = FinishReadingEntries t \<and> unread_swaps t = 1 \<and> unread_swaps t' = 0)"
    if "reachable 1 s" "tls (logger s) 8 = Some t" for s s' :: "nat system" and t t'
    using unread_swaps_zero_or_one [OF that] by blast
  from c [OF ex_run_17 b(2) ex_step_18 b(3,4)] b(1)
  have ub: "unread_swaps ?qb = 0" "unread_swaps ?qc = 1"
    by simp_all
  from c [OF ex_run_27 d(3) ex_step_28 d(4,5)] d(1)
  have ud: "unread_swaps ?qd = 1" "unread_swaps (FinishReadingEntries ?qd) = 0"
    by simp_all
  from ex_run_16 ex_run_17 ex_run_27 ex_run_d30 ex_step_18 ex_step_28 a(1-3) sa e(1-3,5,6) se
    b(1-3) d(1-4) ub ud
  show ?thesis
    by (intro conjI)
qed



subsection \<open>Log returns\<close>

lemma Log_lock_returns:
  "entry_states t ! unat i = Unlocked \<Longrightarrow>
   Log_lock t i 0 = Inr (t\<lparr> entry_states := (entry_states t)[unat i := WriteLock] \<rparr>, i)"
  "entry_states t ! unat i \<noteq> Unlocked \<Longrightarrow> entry_states t ! unat (i XOR 1) = Unlocked \<Longrightarrow>
   Log_lock t i 0 =
     Inr (t\<lparr> log_cas_fail_count := log_cas_fail_count t + 1,
             entry_states := (entry_states t)[unat (i XOR 1) := WriteLock] \<rparr>, i XOR 1)"
  by (simp_all add: Log_lock.simps [of t i 0]
      Log_lock.simps [of "t\<lparr> log_cas_fail_count := log_cas_fail_count t + 1 \<rparr>" "i XOR 1" "Suc 0"]
      compare_exchange_strong_def)

lemma first_room_Suc:
  assumes "first_room lg i (Suc k)"
    and "thread_swap_request_slots lg' = thread_swap_request_slots lg"
  shows "first_room lg' (i + 1) k"
    and "thread_swap_request_slots lg ! unat (i mod slot_count lg)
           \<noteq> SwapRequestSlotIsWritableValue i"
proof -
  have e: "i + 1 + of_nat j = i + of_nat (Suc j)" for j
    by simp
  have s: "slot_count lg' = slot_count lg"
    using assms(2) by (simp add: slot_count_def)
  from assms(1) have a: "thread_swap_request_slots lg ! unat ((i + of_nat (Suc k)) mod slot_count lg)
       = SwapRequestSlotIsWritableValue (i + of_nat (Suc k))"
    and b: "\<And>j. j < Suc k \<Longrightarrow>
          thread_swap_request_slots lg ! unat ((i + of_nat j) mod slot_count lg)
                 \<noteq> SwapRequestSlotIsWritableValue (i + of_nat j)"
    unfolding first_room_def by blast+
  from b [of 0] show "thread_swap_request_slots lg ! unat (i mod slot_count lg)
           \<noteq> SwapRequestSlotIsWritableValue i"
    by simp
  from a b [of "Suc j" for j] show "first_room lg' (i + 1) k"
    unfolding first_room_def e s assms(2) by simp
qed

lemma RequestSwapBuffers_loop_returns:
  assumes "thread_swap_request_slots lg \<noteq> []" and "tls lg p = Some t"
    and "first_room lg i k" and "swap_request_id lg = i + 1"
  shows "\<exists>lg'. RequestSwapBuffers_loop lg p i = Some (Inr lg')
           \<and> thread_swap_request_slots lg'
               = (thread_swap_request_slots lg)[unat ((i + of_nat k) mod slot_count lg) := p]
           \<and> swap_request_id lg' = i + 1 + of_nat k
           \<and> tls lg' = (tls lg)(p \<mapsto> t\<lparr> swap_buffers_slot_retry_count :=
                                           swap_buffers_slot_retry_count t + of_nat k \<rparr>)"
  using assms
proof (induction k arbitrary: lg i t)
  case 0
  then have "thread_swap_request_slots lg ! unat (i mod slot_count lg)
      = SwapRequestSlotIsWritableValue i"
    by (simp add: first_room_def)
  with 0 show ?case
    by (subst RequestSwapBuffers_loop.simps)
       (auto simp: compare_exchange_strong_def)
next
  case (Suc k)
  define lg1 where "lg1 = lg\<lparr> swap_request_id := swap_request_id lg + 1,
      tls := (tls lg)(p \<mapsto> RequestSwapBuffersSlotRetried t) \<rparr>"
  have s: "thread_swap_request_slots lg1 = thread_swap_request_slots lg"
    "slot_count lg1 = slot_count lg"
    by (simp_all add: lg1_def slot_count_def)
  note r = first_room_Suc [OF Suc.prems(3) s(1)]
  from Suc.prems(1) have ne: "thread_swap_request_slots lg1 \<noteq> []"
    by (simp add: s)
  have t1: "tls lg1 p = Some (RequestSwapBuffersSlotRetried t)"
    by (simp add: lg1_def)
  have n1: "swap_request_id lg1 = i + 1 + 1"
    by (simp add: lg1_def Suc.prems(4))
  from Suc.IH [OF ne t1 r(1) n1] obtain lg'
    where a: "RequestSwapBuffers_loop lg1 p (i + 1) = Some (Inr lg')"
      and b: "thread_swap_request_slots lg'
               = (thread_swap_request_slots lg1)[unat ((i + 1 + of_nat k) mod slot_count lg1) := p]"
      and c: "swap_request_id lg' = i + 1 + 1 + of_nat k"
      and d: "tls lg' = (tls lg1)(p \<mapsto> (RequestSwapBuffersSlotRetried t)
                \<lparr> swap_buffers_slot_retry_count :=
                    swap_buffers_slot_retry_count (RequestSwapBuffersSlotRetried t) + of_nat k \<rparr>)"
    by blast
  have "RequestSwapBuffers_loop lg p i = RequestSwapBuffers_loop lg1 p (i + 1)"
    using Suc.prems(1,2,4) r(2)
    by (subst RequestSwapBuffers_loop.simps)
       (simp add: compare_exchange_strong_def lg1_def)
  with a have "RequestSwapBuffers_loop lg p i = Some (Inr lg')"
    by simp
  moreover from b have "thread_swap_request_slots lg'
      = (thread_swap_request_slots lg)[unat ((i + of_nat (Suc k)) mod slot_count lg) := p]"
    unfolding s by (simp add: ac_simps)
  moreover from c have "swap_request_id lg' = i + 1 + of_nat (Suc k)"
    by (simp add: ac_simps)
  moreover from d have "tls lg' = (tls lg)(p \<mapsto> t\<lparr> swap_buffers_slot_retry_count :=
                                           swap_buffers_slot_retry_count t + of_nat (Suc k) \<rparr>)"
    by (simp add: lg1_def RequestSwapBuffersSlotRetried_def ac_simps)
  ultimately show ?case
    by blast
qed

lemma first_room_cong:
  "thread_swap_request_slots lg' = thread_swap_request_slots lg \<Longrightarrow>
   first_room lg' i k = first_room lg i k"
  by (simp add: first_room_def slot_count_def)

lemma TlsLogger_Log_returns:
  assumes t: "tls lg this = Some t" and wf: "tls_wf t"
    and free: "entry_states t ! unat (i_write t) = Unlocked
               \<or> entry_states t ! unat (i_write t XOR 1) = Unlocked"
    and rd: "SwapRequestSlotIsReadable this"
    and ne: "thread_swap_request_slots lg \<noteq> []"
    and room: "first_room lg (swap_request_id lg) k"
  shows "\<exists>lg' t1 t'.
           TlsLogger_Log lg this entry = Some (Inr lg')
         \<and> Log_lock t (i_write t) 0
             = Inr (t1, if entry_states t ! unat (i_write t) = Unlocked then i_write t
                        else i_write t XOR 1)
         \<and> tls lg' this = Some t'
         \<and> entry_states t' = entry_states t
         \<and> (\<forall>q. q \<noteq> this \<longrightarrow> tls lg' q = tls lg q)
         \<and> ((if entry_states t ! unat (i_write t) = Unlocked then i_write t
               else i_write t XOR 1) \<noteq> i_write_prev t \<longrightarrow>
               thread_swap_request_slots lg'
                 = (thread_swap_request_slots lg)
                     [unat ((swap_request_id lg + of_nat k) mod slot_count lg) := this]
               \<and> swap_request_id lg' = swap_request_id lg + 1 + of_nat k
               \<and> swap_buffers_slot_retry_count t'
                   = swap_buffers_slot_retry_count t + of_nat k)"
proof -
  define w where "w = (if entry_states t ! unat (i_write t) = Unlocked then i_write t
                        else i_write t XOR 1)"
  define t1 where "t1 = (if entry_states t ! unat (i_write t) = Unlocked
      then t\<lparr> entry_states := (entry_states t)[unat w := WriteLock] \<rparr>
      else t\<lparr> log_cas_fail_count := log_cas_fail_count t + 1,
              entry_states := (entry_states t)[unat w := WriteLock] \<rparr>)"
  from free have lock: "Log_lock t (i_write t) 0 = Inr (t1, w)"
    by (auto simp: w_def t1_def Log_lock_returns)
  from free have u: "entry_states t ! unat w = Unlocked"
    by (auto simp: w_def)
  from wf have "i_write t < 2" by (simp add: tls_wf_def)
  with xor_one_lt_two [OF this] have "w < 2" by (simp add: w_def)
  then have "unat w < 2" by (simp add: word_less_nat_alt)
  with wf have len: "unat w < length (entry_states t)" by (simp add: tls_wf_def)
  define t3 where "t3 = t1\<lparr> entries := (entries t1)[unat w := entries t1 ! unat w @ [entry]],
                            entry_states := entry_states t \<rparr>"
  define lg3 where "lg3 = lg\<lparr> tls := (tls lg)(this \<mapsto> t3) \<rparr>"
  from u have id: "(entry_states t)[unat w := Unlocked] = entry_states t"
    by (metis list_update_id)
  have eq: "TlsLogger_Log lg this entry =
      (if i_write_prev t \<noteq> w
       then (case RequestSwapBuffers lg3 this of
               None \<Rightarrow> None
             | Some (Inl f) \<Rightarrow> Some (Inl f)
             | Some (Inr lg4) \<Rightarrow>
                 (case tls lg4 this of
                    None \<Rightarrow> Some (Inl (DanglingPointer this))
                  | Some t4 \<Rightarrow>
                      Some (Inr (lg4\<lparr> tls := (tls lg4)(this \<mapsto> t4\<lparr> i_write_prev := w \<rparr>) \<rparr>))))
       else Some (Inr lg3))"
    unfolding lg3_def t3_def
    using t lock len id
    by (auto simp: TlsLogger_Log_def Let_def compare_exchange_strong_def t1_def)
  have t3: "entry_states t3 = entry_states t" "i_write_prev t3 = i_write_prev t"
    "swap_buffers_slot_retry_count t3 = swap_buffers_slot_retry_count t"
    by (auto simp: t3_def t1_def)
  show ?thesis
  proof (cases "w = i_write_prev t")
    case True
    with eq have "TlsLogger_Log lg this entry = Some (Inr lg3)" by simp
    moreover have "tls lg3 this = Some t3" "\<forall>q. q \<noteq> this \<longrightarrow> tls lg3 q = tls lg q"
      by (simp_all add: lg3_def)
    ultimately show ?thesis
      using lock t3 True unfolding w_def [symmetric]
      by (intro exI [of _ lg3] exI [of _ t1] exI [of _ t3]) simp
  next
    case False
    define lg3' where "lg3' = lg3\<lparr> swap_request_id := swap_request_id lg3 + 1 \<rparr>"
    have s3: "thread_swap_request_slots lg3' = thread_swap_request_slots lg"
      "swap_request_id lg3 = swap_request_id lg" "slot_count lg3' = slot_count lg"
      by (simp_all add: lg3'_def lg3_def slot_count_def)
    from ne have ne3: "thread_swap_request_slots lg3' \<noteq> []" by (simp add: s3)
    have t3': "tls lg3' this = Some t3" by (simp add: lg3'_def lg3_def)
    from room have r3: "first_room lg3' (swap_request_id lg) k"
      by (simp add: first_room_cong [OF s3(1)])
    have n3: "swap_request_id lg3' = swap_request_id lg + 1"
      by (simp add: lg3'_def lg3_def)
    from RequestSwapBuffers_loop_returns [OF ne3 t3' r3 n3] obtain lg4
      where a: "RequestSwapBuffers_loop lg3' this (swap_request_id lg) = Some (Inr lg4)"
        and b: "thread_swap_request_slots lg4
               = (thread_swap_request_slots lg)
                   [unat ((swap_request_id lg + of_nat k) mod slot_count lg) := this]"
        and c: "swap_request_id lg4 = swap_request_id lg + 1 + of_nat k"
        and d: "tls lg4 = (tls lg3')(this \<mapsto> t3\<lparr> swap_buffers_slot_retry_count :=
                                           swap_buffers_slot_retry_count t3 + of_nat k \<rparr>)"
      unfolding s3 by blast
    from a rd have req: "RequestSwapBuffers lg3 this = Some (Inr lg4)"
      by (simp add: RequestSwapBuffers_def lg3'_def s3)
    define t' where "t' = t3\<lparr> swap_buffers_slot_retry_count :=
        swap_buffers_slot_retry_count t3 + of_nat k, i_write_prev := w \<rparr>"
    define lg' where "lg' = lg4\<lparr> tls := (tls lg4)(this \<mapsto> t') \<rparr>"
    from eq False req d have "TlsLogger_Log lg this entry = Some (Inr lg')"
      by (simp add: lg'_def t'_def)
    moreover have "tls lg' this = Some t'" by (simp add: lg'_def)
    moreover from d have "\<forall>q. q \<noteq> this \<longrightarrow> tls lg' q = tls lg q"
      by (simp add: lg'_def lg3'_def lg3_def)
    moreover from b c have "thread_swap_request_slots lg'
                 = (thread_swap_request_slots lg)
                     [unat ((swap_request_id lg + of_nat k) mod slot_count lg) := this]"
      "swap_request_id lg' = swap_request_id lg + 1 + of_nat k"
      by (simp_all add: lg'_def)
    moreover have "entry_states t' = entry_states t"
      "swap_buffers_slot_retry_count t' = swap_buffers_slot_retry_count t + of_nat k"
      by (simp_all add: t'_def t3)
    ultimately show ?thesis
      using lock unfolding w_def [symmetric]
      by (intro exI [of _ lg'] exI [of _ t1] exI [of _ t']) simp
  qed
qed


subsection \<open>The invariant of registration\<close>

lemma Log_return_exiting:
  "exiting (Log_return c) \<longleftrightarrow> c = Then_exit"
  "Log_return c \<noteq> Unreg_erase"
  "OrphanEntry a \<notin> set (entering (Log_return c))"
  by (cases c; simp)+

lemma thread_step_life:
  assumes st: "thread_step now lg this pc = Some (Inr (lg', pc'))"
  shows "tls_logger_orphans lg' = tls_logger_orphans lg"
    and "tls_loggers_registerd lg'
           = (if pc = Unreg_erase then tls_loggers_registerd lg |-| {|this|}
              else tls_loggers_registerd lg)"
    and "pc' \<noteq> Unreg_erase"
    and "exiting pc' \<longleftrightarrow> exiting pc \<or> pc = Unreg_erase"
    and "OrphanEntry a \<in> set (entering pc') \<longleftrightarrow> pc = Unreg_erase \<and> a = this"
    and "tls lg' a = None \<longleftrightarrow> tls lg a = None"
proof -
  have "tls_logger_orphans lg' = tls_logger_orphans lg
    \<and> tls_loggers_registerd lg'
           = (if pc = Unreg_erase then tls_loggers_registerd lg |-| {|this|}
              else tls_loggers_registerd lg)
    \<and> pc' \<noteq> Unreg_erase
    \<and> (exiting pc' \<longleftrightarrow> exiting pc \<or> pc = Unreg_erase)
    \<and> (OrphanEntry a \<in> set (entering pc') \<longleftrightarrow> pc = Unreg_erase \<and> a = this)
    \<and> (tls lg' a = None \<longleftrightarrow> tls lg a = None)"
  proof (cases pc)
    case (Log_load e c)
    with st show ?thesis
      by (auto simp: with_tls_def split: option.splits)
  next
    case (Log_cas e i n c)
    with st show ?thesis
      by (auto simp: with_tls_def set_tls_def split: option.splits if_splits)
  next
    case (Log_append e i c)
    with st show ?thesis
      by (auto simp: with_tls_def set_tls_def split: option.splits if_splits)
  next
    case (Log_unlock i c)
    with st show ?thesis
      by (auto simp: with_tls_def set_tls_def compare_exchange_strong_def Log_return_exiting
          split: option.splits if_splits)
  next
    case (Req_fetch i c)
    with st show ?thesis by auto
  next
    case (Req_cas i r c)
    with st show ?thesis
      by (auto simp: with_tls_def set_tls_def compare_exchange_strong_def Log_return_exiting
          split: option.splits if_splits)
  next
    case Unreg_erase
    with st show ?thesis by (auto simp: UnRegister_erase_def)
  next
    case (Wait_logging j)
    with st show ?thesis by (auto split: if_splits)
  next
    case (Wait_tracing j)
    with st show ?thesis by (auto split: if_splits)
  qed (use st in simp_all)
  then show "tls_logger_orphans lg' = tls_logger_orphans lg"
    and "tls_loggers_registerd lg'
           = (if pc = Unreg_erase then tls_loggers_registerd lg |-| {|this|}
              else tls_loggers_registerd lg)"
    and "pc' \<noteq> Unreg_erase"
    and "exiting pc' \<longleftrightarrow> exiting pc \<or> pc = Unreg_erase"
    and "OrphanEntry a \<in> set (entering pc') \<longleftrightarrow> pc = Unreg_erase \<and> a = this"
    and "tls lg' a = None \<longleftrightarrow> tls lg a = None"
    by blast+
qed

lemma CollectAll_registry:
  "CollectAll ps lg = Inr lg1 \<Longrightarrow>
   tls_loggers_registerd lg1 = tls_loggers_registerd lg
   \<and> tls_logger_orphans lg1 = tls_logger_orphans lg
   \<and> orphans_to_destroy lg1 = orphans_to_destroy lg"
proof (induction ps arbitrary: lg)
  case Nil
  then show ?case by simp
next
  case (Cons p ps)
  then obtain la where a: "CollectTlsLoggerStats lg p = Inr la" and b: "CollectAll ps la = Inr lg1"
    by (auto split: sum.splits)
  from a have "tls_loggers_registerd la = tls_loggers_registerd lg
     \<and> tls_logger_orphans la = tls_logger_orphans lg
     \<and> orphans_to_destroy la = orphans_to_destroy lg"
    by (auto simp: CollectTlsLoggerStats_def split: option.splits prod.splits)
  with Cons.IH [OF b] show ?case by simp
qed

lemma run_entry_registry:
  assumes "run_entry e lg = Inr lg1"
  shows "tls_loggers_registerd lg1 = tls_loggers_registerd lg"
    and "tls_logger_orphans lg1 = tls_logger_orphans lg"
    and "tls lg1 a = None \<longleftrightarrow> tls lg a = None"
proof -
  from run_entry_keeps [OF assms]
  show "tls_logger_orphans lg1 = tls_logger_orphans lg" "tls lg1 a = None \<longleftrightarrow> tls lg a = None"
    by (simp_all add: keeps_orphans_def)
  show "tls_loggers_registerd lg1 = tls_loggers_registerd lg"
  proof (cases e)
    case (UserEntry x)
    with assms show ?thesis by auto
  next
    case (OrphanEntry p)
    with assms obtain la where a: "CollectTlsLoggerStats lg p = Inr la"
      and b: "lg1 = la\<lparr> orphans_to_destroy := orphans_to_destroy la @ [p] \<rparr>"
      by (auto split: sum.splits)
    from a have "tls_loggers_registerd la = tls_loggers_registerd lg"
      by (auto simp: CollectTlsLoggerStats_def split: option.splits prod.splits)
    with b show ?thesis by simp
  next
    case ContentionEntry
    with assms obtain la lb
      where a: "CollectAll (sorted_list_of_fset (tls_loggers_registerd lg)) lg = Inr la"
        and b: "CollectAll (tls_logger_orphans la) la = Inr lb"
        and c: "lg1 = log_contention_counters lb"
      by (auto split: sum.splits)
    from CollectAll_registry [OF a] CollectAll_registry [OF b] c show ?thesis
      by (simp add: log_contention_counters_def)
  next
    case (FlushedEntry k)
    with assms show ?thesis by auto
  qed
qed

lemma erase_orphans_registry:
  "tls_loggers_registerd (erase_orphans ps lg) = tls_loggers_registerd lg"
  by (induction ps arbitrary: lg) simp_all

lemma in_fold_remove1:
  "a \<in> set (fold remove1 ps xs) \<Longrightarrow> a \<in> set xs"
  "a \<in> set xs \<Longrightarrow> a \<notin> set ps \<Longrightarrow> a \<in> set (fold remove1 ps xs)"
proof (induction ps arbitrary: xs)
  case Nil
  { case 1 then show ?case by simp }
  { case 2 then show ?case by simp }
next
  case (Cons p ps)
  { case 1
    then have "a \<in> set (fold remove1 ps (remove1 p xs))" by simp
    from Cons.IH(1) [OF this] show ?case by (metis notin_set_remove1) }
  { case 2
    then have "a \<in> set (remove1 p xs)" "a \<notin> set ps" by auto
    from Cons.IH(2) [OF this] show ?case by simp }
qed

lemma io_step_life:
  assumes st: "io_step lg iopc = Some (Inr (lg', iopc', evs))"
  shows "tls_loggers_registerd lg' = tls_loggers_registerd lg"
    and "a \<in> set (tls_logger_orphans lg') \<Longrightarrow> a \<in> set (tls_logger_orphans lg)"
    and "tls lg' a \<noteq> None \<Longrightarrow> tls lg a \<noteq> None"
    and "tls lg' a \<noteq> None \<Longrightarrow> a \<in> set (tls_logger_orphans lg)
           \<Longrightarrow> a \<in> set (tls_logger_orphans lg')"
    and "tls lg a \<noteq> None \<Longrightarrow> tls lg' a = None \<Longrightarrow>
           iopc = IO_retire \<and> iopc' = IO_top \<and> a \<in> set (orphans_to_destroy lg)
           \<and> lg' = IOThread_retire lg"
proof -
  have "tls_loggers_registerd lg' = tls_loggers_registerd lg
    \<and> (a \<in> set (tls_logger_orphans lg') \<longrightarrow> a \<in> set (tls_logger_orphans lg))
    \<and> (tls lg' a \<noteq> None \<longrightarrow> tls lg a \<noteq> None)
    \<and> (tls lg' a \<noteq> None \<longrightarrow> a \<in> set (tls_logger_orphans lg)
           \<longrightarrow> a \<in> set (tls_logger_orphans lg'))
    \<and> (tls lg a \<noteq> None \<longrightarrow> tls lg' a = None \<longrightarrow>
           iopc = IO_retire \<and> iopc' = IO_top \<and> a \<in> set (orphans_to_destroy lg)
           \<and> lg' = IOThread_retire lg)"
  proof (cases iopc)
    case IO_top
    with st show ?thesis by (auto split: if_splits)
  next
    case (IO_gather_retry ts xs)
    with st show ?thesis
      by (cases xs) (auto simp: Let_def retry_got_def split: if_splits)
  next
    case (IO_gather_retry_cas ts sr xs v)
    with st show ?thesis
      by (auto simp: compare_exchange_strong_def retry_got_def split: if_splits)
  next
    case (IO_gather_new_load ts)
    with st show ?thesis by auto
  next
    case (IO_gather_new ts e)
    with st show ?thesis
      by (auto simp: Let_def new_got_def retry_later_def split: if_splits)
  next
    case (IO_gather_new_cas ts e v)
    with st show ?thesis
      by (auto simp: compare_exchange_strong_def Let_def new_got_def retry_later_def
          split: if_splits)
  next
    case (IO_swap ts)
    with st show ?thesis
      by (cases ts) (auto simp: with_tls_def set_tls_def compare_exchange_strong_def
          split: if_splits option.splits)
  next
    case (IO_swap_publish p ps)
    with st show ?thesis
      by (auto simp: with_tls_def set_tls_def split: if_splits option.splits)
  next
    case (IO_process j)
    with st show ?thesis
      by (auto simp: with_tls_def set_tls_def StartReadingEntries_def compare_exchange_strong_def
          split: if_splits option.splits)
  next
    case (IO_run j es)
    show ?thesis
    proof (cases es)
      case Nil
      with st IO_run show ?thesis
        by (auto simp: with_tls_def set_tls_def split: if_splits option.splits)
    next
      case (Cons e es')
      with st IO_run have run: "run_entry e lg = Inr lg'"
        by (auto split: sum.splits)
      from run_entry_registry(1,2) [OF run] run_entry_registry(3) [OF run, of a]
      show ?thesis
        by (cases "tls lg a"; cases "tls lg' a"; simp)
    qed
  next
    case IO_flush
    with st show ?thesis by (auto simp: IOThread_flush_def)
  next
    case IO_retire
    with st have r: "lg' = IOThread_retire lg" "iopc' = IO_top" by auto
    have reg: "tls_loggers_registerd (IOThread_retire lg) = tls_loggers_registerd lg"
      by (simp add: IOThread_retire_def erase_orphans_registry)
    have t: "tls (IOThread_retire lg) a
        = (if a \<in> set (orphans_to_destroy lg) then None else tls lg a)"
      and o: "tls_logger_orphans (IOThread_retire lg)
        = fold remove1 (orphans_to_destroy lg) (tls_logger_orphans lg)"
      by (simp_all add: IOThread_retire_result)
    show ?thesis
      unfolding r IO_retire reg t o
      using in_fold_remove1 [where a = a and ps = "orphans_to_destroy lg"
          and xs = "tls_logger_orphans lg"]
      by (cases "a \<in> set (orphans_to_destroy lg)") simp_all
  qed (use st in simp_all)
  then show "tls_loggers_registerd lg' = tls_loggers_registerd lg"
    and "a \<in> set (tls_logger_orphans lg') \<Longrightarrow> a \<in> set (tls_logger_orphans lg)"
    and "tls lg' a \<noteq> None \<Longrightarrow> tls lg a \<noteq> None"
    and "tls lg' a \<noteq> None \<Longrightarrow> a \<in> set (tls_logger_orphans lg)
           \<Longrightarrow> a \<in> set (tls_logger_orphans lg')"
    and "tls lg a \<noteq> None \<Longrightarrow> tls lg' a = None \<Longrightarrow>
           iopc = IO_retire \<and> iopc' = IO_top \<and> a \<in> set (orphans_to_destroy lg)
           \<and> lg' = IOThread_retire lg"
    by blast+
qed

lemma thread_step_alive:
  assumes "thread_step now lg this pc = Some (Inr (lg', pc'))"
  shows "alive lg' a \<longleftrightarrow> alive lg a"
  using thread_step_life(6) [OF assms, of a] by (simp add: alive_def)

lemma io_step_alive:
  assumes st: "io_step lg iopc = Some (Inr (lg', iopc', evs))"
  shows "alive lg' a \<Longrightarrow> alive lg a"
    and "alive lg' a \<Longrightarrow> a \<in> set (tls_logger_orphans lg)
           \<Longrightarrow> a \<in> set (tls_logger_orphans lg')"
    and "alive lg a \<Longrightarrow> \<not> alive lg' a \<Longrightarrow>
           iopc = IO_retire \<and> iopc' = IO_top \<and> a \<in> set (orphans_to_destroy lg)
           \<and> lg' = IOThread_retire lg"
  using io_step_life(3-5) [OF st, of a] by (simp_all add: alive_def)

lemma life_invI:
  assumes "\<And>a. a \<in> set (tls_logger_orphans (logger s)) \<Longrightarrow>
            threads s a = Unreg_erase \<or> exiting (threads s a)"
    and "\<And>a. OrphanEntry a \<in> set (submitted s a) \<Longrightarrow> exiting (threads s a)"
    and "\<And>a. alive (logger s) a \<Longrightarrow> threads s a = Unreg_erase \<Longrightarrow>
               a |\<in>| tls_loggers_registerd (logger s)
               \<and> a \<in> set (tls_logger_orphans (logger s))"
    and "\<And>a. alive (logger s) a \<Longrightarrow> exiting (threads s a) \<Longrightarrow>
               a |\<notin>| tls_loggers_registerd (logger s)
               \<and> a \<in> set (tls_logger_orphans (logger s))
               \<and> OrphanEntry a \<in> set (submitted s a)"
    and "\<And>a. alive (logger s) a \<Longrightarrow> threads s a \<noteq> Unreg_erase \<Longrightarrow>
               \<not> exiting (threads s a) \<Longrightarrow> a |\<in>| tls_loggers_registerd (logger s)"
  shows "life_inv s"
  unfolding life_inv_def using assms by blast

lemma life_invD:
  assumes "life_inv s"
  shows "a \<in> set (tls_logger_orphans (logger s)) \<Longrightarrow>
            threads s a = Unreg_erase \<or> exiting (threads s a)"
    and "OrphanEntry a \<in> set (submitted s a) \<Longrightarrow> exiting (threads s a)"
    and "alive (logger s) a \<Longrightarrow> threads s a = Unreg_erase \<Longrightarrow>
               a |\<in>| tls_loggers_registerd (logger s)
               \<and> a \<in> set (tls_logger_orphans (logger s))"
    and "alive (logger s) a \<Longrightarrow> exiting (threads s a) \<Longrightarrow>
               a |\<notin>| tls_loggers_registerd (logger s)
               \<and> a \<in> set (tls_logger_orphans (logger s))
               \<and> OrphanEntry a \<in> set (submitted s a)"
    and "alive (logger s) a \<Longrightarrow> threads s a \<noteq> Unreg_erase \<Longrightarrow>
               \<not> exiting (threads s a) \<Longrightarrow> a |\<in>| tls_loggers_registerd (logger s)"
  using assms unfolding life_inv_def by blast+

lemma life_thread:
  assumes inv: "life_inv s"
    and st: "thread_step now (logger s) this (threads s this) = Some (Inr (lg', pc'))"
  shows "life_inv (goto s this lg' pc')"
proof (rule life_invI)
  note f = thread_step_life [OF st]
  note d = life_invD [OF inv]
  fix a
  note al = thread_step_alive [OF st, of a]
  have g: "logger (goto s this lg' pc') = lg'"
    "threads (goto s this lg' pc') a = (if a = this then pc' else threads s a)"
    "submitted (goto s this lg' pc') a
       = (if a = this then submitted s this @ entering pc' else submitted s a)"
    by (simp_all add: goto_def)
  show "threads (goto s this lg' pc') a = Unreg_erase \<or> exiting (threads (goto s this lg' pc') a)"
    if "a \<in> set (tls_logger_orphans (logger (goto s this lg' pc')))"
    using that d(1) [of a] f(1,4) by (auto simp: g)
  show "exiting (threads (goto s this lg' pc') a)"
    if "OrphanEntry a \<in> set (submitted (goto s this lg' pc') a)"
    using that d(2) [of a] f(4) f(5) [of a] by (auto simp: g split: if_splits)
  show "a |\<in>| tls_loggers_registerd (logger (goto s this lg' pc'))
        \<and> a \<in> set (tls_logger_orphans (logger (goto s this lg' pc')))"
    if "alive (logger (goto s this lg' pc')) a"
      "threads (goto s this lg' pc') a = Unreg_erase"
    using that d(3) [of a] f(1,2,3) al by (auto simp: g split: if_splits)
  show "a |\<notin>| tls_loggers_registerd (logger (goto s this lg' pc'))
        \<and> a \<in> set (tls_logger_orphans (logger (goto s this lg' pc')))
        \<and> OrphanEntry a \<in> set (submitted (goto s this lg' pc') a)"
    if "alive (logger (goto s this lg' pc')) a"
      "exiting (threads (goto s this lg' pc') a)"
    using that d(3,4) [of a] f(1,2,4) f(5) [of a] al by (auto simp: g split: if_splits)
  show "a |\<in>| tls_loggers_registerd (logger (goto s this lg' pc'))"
    if "alive (logger (goto s this lg' pc')) a"
      "threads (goto s this lg' pc') a \<noteq> Unreg_erase"
      "\<not> exiting (threads (goto s this lg' pc') a)"
    using that d(3,5) [of a] f(1,2,3,4) al by (auto simp: g split: if_splits)
qed

lemma life_io:
  assumes inv: "life_inv s"
    and st: "io_step (logger s) (io s) = Some (Inr (lg', io', evs))"
  shows "life_inv (s\<lparr> logger := lg', io := io', executed := executed s @ evs \<rparr>)"
proof (rule life_invI)
  note d = life_invD [OF inv]
  fix a
  note f = io_step_life(1) [OF st] io_step_life(2) [OF st, of a] io_step_alive(1,2) [OF st, of a]
  let ?s = "s\<lparr> logger := lg', io := io', executed := executed s @ evs \<rparr>"
  have g: "logger ?s = lg'" "threads ?s = threads s" "submitted ?s = submitted s"
    by simp_all
  show "threads ?s a = Unreg_erase \<or> exiting (threads ?s a)"
    if "a \<in> set (tls_logger_orphans (logger ?s))"
    using that d(1) [of a] f(2) unfolding g by blast
  show "exiting (threads ?s a)" if "OrphanEntry a \<in> set (submitted ?s a)"
    using that d(2) [of a] unfolding g by blast
  show "a |\<in>| tls_loggers_registerd (logger ?s) \<and> a \<in> set (tls_logger_orphans (logger ?s))"
    if "alive (logger ?s) a" "threads ?s a = Unreg_erase"
    using that d(3) [of a] f unfolding g by blast
  show "a |\<notin>| tls_loggers_registerd (logger ?s) \<and> a \<in> set (tls_logger_orphans (logger ?s))
        \<and> OrphanEntry a \<in> set (submitted ?s a)"
    if "alive (logger ?s) a" "exiting (threads ?s a)"
    using that d(4) [of a] f unfolding g by blast
  show "a |\<in>| tls_loggers_registerd (logger ?s)"
    if "alive (logger ?s) a" "threads ?s a \<noteq> Unreg_erase" "\<not> exiting (threads ?s a)"
    using that d(5) [of a] f unfolding g by blast
qed

lemma life_enter:
  assumes inv: "life_inv s" and idle: "threads s this = Idle \<or> threads s this = NotStarted"
    and pc': "pc' \<noteq> Unreg_erase" "\<not> exiting pc'" "OrphanEntry this \<notin> set (entering pc')"
    and f: "tls_logger_orphans lg' = tls_logger_orphans (logger s)"
      "\<And>a. a \<noteq> this \<Longrightarrow>
         (a |\<in>| tls_loggers_registerd lg') = (a |\<in>| tls_loggers_registerd (logger s))"
      "this |\<in>| tls_loggers_registerd (logger s) \<Longrightarrow> this |\<in>| tls_loggers_registerd lg'"
      "\<And>a. a \<noteq> this \<Longrightarrow> alive lg' a = alive (logger s) a"
      "alive lg' this \<Longrightarrow> alive (logger s) this \<or> this |\<in>| tls_loggers_registerd lg'"
  shows "life_inv (goto s this lg' pc')"
proof (rule life_invI)
  note d = life_invD [OF inv]
  fix a
  let ?s = "goto s this lg' pc'"
  from idle have i: "threads s this \<noteq> Unreg_erase" "\<not> exiting (threads s this)"
    by auto
  from d(2) [of this] i have o: "OrphanEntry this \<notin> set (submitted s this)"
    by blast
  from d(1) [of this] i have n: "this \<notin> set (tls_logger_orphans (logger s))"
    by blast
  show "threads ?s a = Unreg_erase \<or> exiting (threads ?s a)"
    if "a \<in> set (tls_logger_orphans (logger ?s))"
  proof (cases "a = this")
    case True
    with that n f(1) show ?thesis by (simp add: goto_def)
  next
    case False
    with that d(1) [of a] f(1) show ?thesis by (simp add: goto_def)
  qed
  show "exiting (threads ?s a)" if "OrphanEntry a \<in> set (submitted ?s a)"
  proof (cases "a = this")
    case True
    with that o pc'(3) show ?thesis by (simp add: goto_def)
  next
    case False
    with that d(2) [of a] show ?thesis by (simp add: goto_def)
  qed
  show "a |\<in>| tls_loggers_registerd (logger ?s) \<and> a \<in> set (tls_logger_orphans (logger ?s))"
    if "alive (logger ?s) a" "threads ?s a = Unreg_erase"
  proof (cases "a = this")
    case True
    with that pc'(1) show ?thesis by (simp add: goto_def)
  next
    case False
    with that d(3) [of a] f(1) f(2,4) [of a] show ?thesis by (simp add: goto_def)
  qed
  show "a |\<notin>| tls_loggers_registerd (logger ?s) \<and> a \<in> set (tls_logger_orphans (logger ?s))
        \<and> OrphanEntry a \<in> set (submitted ?s a)"
    if "alive (logger ?s) a" "exiting (threads ?s a)"
  proof (cases "a = this")
    case True
    with that pc'(2) show ?thesis by (simp add: goto_def)
  next
    case False
    with that d(4) [of a] f(1) f(2,4) [of a] show ?thesis by (simp add: goto_def)
  qed
  show "a |\<in>| tls_loggers_registerd (logger ?s)"
    if "alive (logger ?s) a" "threads ?s a \<noteq> Unreg_erase" "\<not> exiting (threads ?s a)"
  proof (cases "a = this")
    case True
    from that(1) have "alive lg' this" by (simp add: goto_def True)
    from f(5) [OF this] d(5) [of this] i f(3) have "this |\<in>| tls_loggers_registerd lg'"
      by blast
    with True show ?thesis by (simp add: goto_def)
  next
    case False
    with that d(5) [of a] f(2,4) [of a] show ?thesis by (simp add: goto_def)
  qed
qed

lemma life_exit:
  assumes inv: "life_inv s" and idle: "threads s this = Idle"
  shows "life_inv (goto s this (UnRegister_adopt (logger s) this) Unreg_erase)"
proof (rule life_invI)
  note d = life_invD [OF inv]
  fix a
  let ?s = "goto s this (UnRegister_adopt (logger s) this) Unreg_erase"
  have g: "tls_logger_orphans (logger ?s) = this # tls_logger_orphans (logger s)"
    "tls_loggers_registerd (logger ?s) = tls_loggers_registerd (logger s)"
    "alive (logger ?s) = alive (logger s)"
    "submitted ?s a = submitted s a"
    by (simp_all add: goto_def UnRegister_adopt_def alive_def fun_eq_iff)
  from idle have i: "threads s this \<noteq> Unreg_erase" "\<not> exiting (threads s this)"
    by auto
  show "threads ?s a = Unreg_erase \<or> exiting (threads ?s a)"
    if "a \<in> set (tls_logger_orphans (logger ?s))"
  proof (cases "a = this")
    case True
    then show ?thesis by (simp add: goto_def)
  next
    case False
    with that d(1) [of a] show ?thesis by (simp add: goto_def UnRegister_adopt_def)
  qed
  show "exiting (threads ?s a)" if "OrphanEntry a \<in> set (submitted ?s a)"
  proof (cases "a = this")
    case True
    with that d(2) [of this] i show ?thesis by (simp add: goto_def UnRegister_adopt_def alive_def)
  next
    case False
    with that d(2) [of a] show ?thesis by (simp add: goto_def)
  qed
  show "a |\<in>| tls_loggers_registerd (logger ?s) \<and> a \<in> set (tls_logger_orphans (logger ?s))"
    if "alive (logger ?s) a" "threads ?s a = Unreg_erase"
  proof (cases "a = this")
    case True
    with that d(5) [of this] i show ?thesis by (simp add: goto_def UnRegister_adopt_def alive_def)
  next
    case False
    with that(2) have "threads s a = Unreg_erase" by (simp add: goto_def)
    with that(1) d(3) [of a] show ?thesis by (simp add: goto_def UnRegister_adopt_def alive_def)
  qed
  show "a |\<notin>| tls_loggers_registerd (logger ?s) \<and> a \<in> set (tls_logger_orphans (logger ?s))
        \<and> OrphanEntry a \<in> set (submitted ?s a)"
    if "alive (logger ?s) a" "exiting (threads ?s a)"
  proof (cases "a = this")
    case True
    with that show ?thesis by (simp add: goto_def)
  next
    case False
    with that(2) have "exiting (threads s a)" by (simp add: goto_def)
    with that(1) d(4) [of a] show ?thesis by (simp add: goto_def UnRegister_adopt_def alive_def)
  qed
  show "a |\<in>| tls_loggers_registerd (logger ?s)"
    if "alive (logger ?s) a" "threads ?s a \<noteq> Unreg_erase" "\<not> exiting (threads ?s a)"
  proof (cases "a = this")
    case True
    with that show ?thesis by (simp add: goto_def)
  next
    case False
    with that(2,3) have "threads s a \<noteq> Unreg_erase" "\<not> exiting (threads s a)"
      by (simp_all add: goto_def)
    with that(1) d(5) [of a] show ?thesis by (simp add: goto_def UnRegister_adopt_def alive_def)
  qed
qed

lemma life_logger:
  assumes inv: "life_inv s"
    and f: "tls_logger_orphans lg' = tls_logger_orphans (logger s)"
      "tls_loggers_registerd lg' = tls_loggers_registerd (logger s)"
      "tls lg' = tls (logger s)"
  shows "life_inv (s\<lparr> logger := lg', io := io' \<rparr>)"
  using inv unfolding life_inv_def alive_def by (simp add: f)

lemma life_next_promise: "life_inv (s\<lparr> next_promise := n \<rparr>) = life_inv s"
  by (simp add: life_inv_def)

lemma life_init: "life_inv (init m)"
  by (simp add: life_inv_def init_def Logger_new_def alive_def)

lemma life_step:
  assumes "step s s'" and inv: "life_inv s"
  shows "life_inv s'"
  using assms(1)
proof cases
  case (thread now this lg' pc')
  with life_thread [OF inv thread(2)] show ?thesis by simp
next
  case (io_thread lg' io' evs)
  with life_io [OF inv io_thread(2)] show ?thesis by simp
next
  case (first_use this thr)
  from inv have "life_inv (goto s this (TlsLoggerWrapper_new (logger s) thr) Idle)"
    by (rule life_enter)
       (use first_use in \<open>simp_all add: TlsLoggerWrapper_new_def RegisterTlsLogger_def Let_def
          LogErrorSync_def alive_def\<close>)
  with first_use show ?thesis by simp
next
  case (call_Log this x)
  from inv have "life_inv (goto s this (logger s) (Log_load (UserEntry x) Ret))"
    by (rule life_enter) (use call_Log in simp_all)
  with call_Log show ?thesis by simp
next
  case (call_StopLogging this)
  from inv have "life_inv (goto s this (logger s)
      (Log_load ContentionEntry (Then_flush (next_promise s))))"
    by (rule life_enter) (use call_StopLogging in simp_all)
  with call_StopLogging show ?thesis by (simp add: life_next_promise)
next
  case (call_StopTracing this)
  from inv have "life_inv (goto s this (logger s)
      (Log_load (FlushedEntry (next_promise s)) (Then_wait_tracing (next_promise s))))"
    by (rule life_enter) (use call_StopTracing in simp_all)
  with call_StopTracing show ?thesis by (simp add: life_next_promise)
next
  case (call_StartNewTrace this out origin)
  from inv have "life_inv (s\<lparr> logger := StartNewTrace (logger s) out origin, io := io s \<rparr>)"
    by (rule life_logger) (simp_all add: StartNewTrace_def)
  with call_StartNewTrace show ?thesis by simp
next
  case (call_StartLogging this summary detail now)
  from inv have "life_inv (s\<lparr> logger := StartLogging (logger s) summary detail now,
      io := io s \<rparr>)"
    by (rule life_logger) (simp_all add: StartLogging_def)
  with call_StartLogging show ?thesis by simp
next
  case (thread_exit this)
  with life_exit [OF inv thread_exit(2)] show ?thesis by simp
next
  case StartIOThread
  from inv have "life_inv (s\<lparr> logger := (logger s)\<lparr> keep_io_thread_alive := True \<rparr>,
      io := IO_top \<rparr>)"
    by (rule life_logger) simp_all
  with StartIOThread show ?thesis by simp
next
  case StopIOThread
  from inv have "life_inv (s\<lparr> logger := (logger s)\<lparr> keep_io_thread_alive := False \<rparr>,
      io := io s \<rparr>)"
    by (rule life_logger) simp_all
  with StopIOThread show ?thesis by simp
qed

lemma reachable_life: "reachable m s \<Longrightarrow> life_inv s"
  by (induction rule: reachable.induct) (auto intro: life_init life_step)

text \<open>
  C4. Every call of \<open>TlsLogger::Log\<close> that returns has appended the entry to the
  buffer \<open>w\<close> that the lock loop obtained and has set \<open>i_write_prev\<close> to \<open>w\<close>; it
  has announced a swap request on the ring if and only if \<open>w\<close> differs from the
  \<open>i_write_prev\<close> of before the call, and otherwise has left the slots and
  \<open>swap_request_id\<close> as they were. And the call does return when one of the two
  buffers is unlocked and the ring has room at the \<open>k\<close>-th id from
  \<open>swap_request_id\<close> on: then \<open>w\<close> is the write buffer if that is unlocked and the
  other buffer if not; the buffer states are as before; and if \<open>w\<close> differs from
  \<open>i_write_prev\<close>, the request is in the slot of that id, after \<open>k\<close> failed
  attempts that are counted in \<open>swap_buffers_slot_retry_count\<close>, and
  \<open>swap_request_id\<close> has advanced by \<open>k + 1\<close>; if it does not differ, slots,
  \<open>swap_request_id\<close> and the retry count are untouched.
\<close>

theorem TlsLogger_Log_swap_request:
  assumes t: "tls lg this = Some t"
  shows "(\<forall>lg'. TlsLogger_Log lg this entry = Some (Inr lg') \<longrightarrow>
          (\<exists>t1 w t'.
             Log_lock t (i_write t) 0 = Inr (t1, w)
           \<and> tls lg' this = Some t'
           \<and> entries t' = (entries t)[unat w := entries t ! unat w @ [entry]]
           \<and> i_write_prev t' = w
           \<and> (swap_requested lg lg' this \<longleftrightarrow> w \<noteq> i_write_prev t)
           \<and> (w = i_write_prev t \<longrightarrow>
                 thread_swap_request_slots lg' = thread_swap_request_slots lg
                 \<and> swap_request_id lg' = swap_request_id lg)))
    \<and> (\<forall>k. can_log lg this t k \<longrightarrow>
          (\<exists>lg' t'.
             TlsLogger_Log lg this entry = Some (Inr lg')
           \<and> tls lg' this = Some t'
           \<and> entries t' = (entries t)[unat (written_index t)
                                        := entries t ! unat (written_index t) @ [entry]]
           \<and> entry_states t' = entry_states t
           \<and> i_write_prev t' = written_index t
           \<and> (swap_requested lg lg' this \<longleftrightarrow> written_index t \<noteq> i_write_prev t)
           \<and> (written_index t \<noteq> i_write_prev t \<longrightarrow>
                 thread_swap_request_slots lg'
                   = (thread_swap_request_slots lg)
                       [unat ((swap_request_id lg + of_nat k) mod slot_count lg) := this]
                 \<and> swap_request_id lg' = swap_request_id lg + 1 + of_nat k
                 \<and> swap_buffers_slot_retry_count t'
                     = swap_buffers_slot_retry_count t + of_nat k)
           \<and> (written_index t = i_write_prev t \<longrightarrow>
                 thread_swap_request_slots lg' = thread_swap_request_slots lg
                 \<and> swap_request_id lg' = swap_request_id lg
                 \<and> swap_buffers_slot_retry_count t' = swap_buffers_slot_retry_count t)))"
proof (intro conjI allI impI)
  fix lg'
  assume "TlsLogger_Log lg this entry = Some (Inr lg')"
  from TlsLogger_Log_result [OF this t]
  show "\<exists>t1 w t'.
             Log_lock t (i_write t) 0 = Inr (t1, w)
           \<and> tls lg' this = Some t'
           \<and> entries t' = (entries t)[unat w := entries t ! unat w @ [entry]]
           \<and> i_write_prev t' = w
           \<and> (swap_requested lg lg' this \<longleftrightarrow> w \<noteq> i_write_prev t)
           \<and> (w = i_write_prev t \<longrightarrow>
                 thread_swap_request_slots lg' = thread_swap_request_slots lg
                 \<and> swap_request_id lg' = swap_request_id lg)" .
next
  fix k
  assume c: "can_log lg this t k"
  then have wf: "tls_wf t"
    and free: "entry_states t ! unat (i_write t) = Unlocked
         \<or> entry_states t ! unat (i_write t XOR 1) = Unlocked"
    and rd: "SwapRequestSlotIsReadable this"
    and ne: "thread_swap_request_slots lg \<noteq> []"
    and room: "first_room lg (swap_request_id lg) k"
    by (simp_all add: can_log_def)
  from TlsLogger_Log_returns [OF t wf free rd ne room, of entry]
  obtain lg' t1 t' where ret: "TlsLogger_Log lg this entry = Some (Inr lg')"
    and lock: "Log_lock t (i_write t) 0 = Inr (t1, written_index t)"
    and t': "tls lg' this = Some t'"
    and st: "entry_states t' = entry_states t"
    and req: "written_index t \<noteq> i_write_prev t \<longrightarrow>
               thread_swap_request_slots lg'
                 = (thread_swap_request_slots lg)
                     [unat ((swap_request_id lg + of_nat k) mod slot_count lg) := this]
               \<and> swap_request_id lg' = swap_request_id lg + 1 + of_nat k
               \<and> swap_buffers_slot_retry_count t'
                   = swap_buffers_slot_retry_count t + of_nat k"
    unfolding written_index_def by blast
  from TlsLogger_Log_result [OF ret t] lock t'
  have old: "entries t' = (entries t)[unat (written_index t)
                                        := entries t ! unat (written_index t) @ [entry]]"
    "i_write_prev t' = written_index t"
    "swap_requested lg lg' this \<longleftrightarrow> written_index t \<noteq> i_write_prev t"
    "written_index t = i_write_prev t \<longrightarrow>
                 thread_swap_request_slots lg' = thread_swap_request_slots lg
                 \<and> swap_request_id lg' = swap_request_id lg"
    by auto
  have same: "swap_buffers_slot_retry_count t' = swap_buffers_slot_retry_count t"
    if w: "written_index t = i_write_prev t"
  proof -
    from lock have l: "Log_lock t (i_write t) 0 = Inr (t1, i_write_prev t)"
      by (simp add: w)
    from Log_lock_frame [OF l] have u: "entry_states t1 ! unat (i_write_prev t) = WriteLock
        \<or> \<not> unat (i_write_prev t) < length (entry_states t)"
      by (metis nth_list_update_eq)
    from wf have "i_write t < 2" by (simp add: tls_wf_def)
    with xor_one_lt_two [OF this] have "written_index t < 2"
      by (simp add: written_index_def)
    then have "unat (written_index t) < 2" by (simp add: word_less_nat_alt)
    with wf w have len: "unat (i_write_prev t) < length (entry_states t)"
      by (simp add: tls_wf_def)
    from free have "swap_buffers_slot_retry_count t1 = swap_buffers_slot_retry_count t"
      using lock by (auto simp: Log_lock_returns written_index_def split: if_splits)
    with ret t l u len t' Log_lock_frame [OF l] show ?thesis
      by (auto simp: TlsLogger_Log_def Let_def compare_exchange_strong_def)
  qed
  from ret t' st req old same
  show "\<exists>lg' t'.
             TlsLogger_Log lg this entry = Some (Inr lg')
           \<and> tls lg' this = Some t'
           \<and> entries t' = (entries t)[unat (written_index t)
                                        := entries t ! unat (written_index t) @ [entry]]
           \<and> entry_states t' = entry_states t
           \<and> i_write_prev t' = written_index t
           \<and> (swap_requested lg lg' this \<longleftrightarrow> written_index t \<noteq> i_write_prev t)
           \<and> (written_index t \<noteq> i_write_prev t \<longrightarrow>
                 thread_swap_request_slots lg'
                   = (thread_swap_request_slots lg)
                       [unat ((swap_request_id lg + of_nat k) mod slot_count lg) := this]
                 \<and> swap_request_id lg' = swap_request_id lg + 1 + of_nat k
                 \<and> swap_buffers_slot_retry_count t'
                     = swap_buffers_slot_retry_count t + of_nat k)
           \<and> (written_index t = i_write_prev t \<longrightarrow>
                 thread_swap_request_slots lg' = thread_swap_request_slots lg
                 \<and> swap_request_id lg' = swap_request_id lg
                 \<and> swap_buffers_slot_retry_count t' = swap_buffers_slot_retry_count t)"
    by blast
qed

lemma ex_Log_retry:
  "TlsLogger_Log (ex_logger\<lparr> thread_swap_request_slots := [16, 3] \<rparr>) 8 (UserEntry 5) =
     Some (Inr (ex_logger\<lparr> thread_swap_request_slots := [16, 8], swap_request_id := 2,
       tls := [8 \<mapsto> ex_tls\<lparr> entries := [[], [UserEntry 5]], i_write_prev := 1,
                             swap_buffers_slot_retry_count := 1 \<rparr>] \<rparr>))"
  by (simp add: TlsLogger_Log_def ex_logger_def Logger_new_def ex_tls_def TlsLogger_new_def
      Log_lock.simps compare_exchange_strong_def Let_def RequestSwapBuffers_def
      RequestSwapBuffers_loop.simps SwapRequestSlotIsReadable_def
      RequestSwapBuffersSlotRetried_def
      SwapRequestSlotIsWritableValue_def slot_count_def upt_rec)

lemma ex_can_log:
  "can_log ex_logger 8 ex_tls 0"
  "can_log (ex_logger\<lparr> thread_swap_request_slots := [16, 3] \<rparr>) 8 ex_tls 1"
  "written_index ex_tls = 1"
  "i_write_prev ex_tls = 0"
  by (simp_all add: can_log_def first_room_def written_index_def tls_wf_def ex_logger_def
      Logger_new_def ex_tls_def TlsLogger_new_def SwapRequestSlotIsReadable_def
      SwapRequestSlotIsWritableValue_def slot_count_def upt_rec)

text \<open>
  Three calls: one that announces a request in the first slot it tries, one that writes
  to the same buffer again and announces nothing, and one that finds the first slot
  taken and announces its request in the second.
\<close>

theorem TlsLogger_Log_swap_request_witness:
  "can_log ex_logger 8 ex_tls 0
   \<and> TlsLogger_Log ex_logger 8 (UserEntry 5) =
       Some (Inr (ex_logger\<lparr> thread_swap_request_slots := [8, 3], swap_request_id := 1,
         tls := [8 \<mapsto> ex_tls\<lparr> entries := [[], [UserEntry 5]], i_write_prev := 1 \<rparr>] \<rparr>))
   \<and> swap_requested ex_logger
       (ex_logger\<lparr> thread_swap_request_slots := [8, 3], swap_request_id := 1,
          tls := [8 \<mapsto> ex_tls\<lparr> entries := [[], [UserEntry 5]], i_write_prev := 1 \<rparr>] \<rparr>) 8
   \<and> TlsLogger_Log (ex_logger\<lparr> thread_swap_request_slots := [8, 3], swap_request_id := 1,
         tls := [8 \<mapsto> ex_tls\<lparr> entries := [[], [UserEntry 5]], i_write_prev := 1 \<rparr>] \<rparr>)
       8 (UserEntry 6) =
       Some (Inr (ex_logger\<lparr> thread_swap_request_slots := [8, 3], swap_request_id := 1,
         tls := [8 \<mapsto> ex_tls\<lparr> entries := [[], [UserEntry 5, UserEntry 6]],
                               i_write_prev := 1 \<rparr>] \<rparr>))
   \<and> \<not> swap_requested
       (ex_logger\<lparr> thread_swap_request_slots := [8, 3], swap_request_id := 1,
          tls := [8 \<mapsto> ex_tls\<lparr> entries := [[], [UserEntry 5]], i_write_prev := 1 \<rparr>] \<rparr>)
       (ex_logger\<lparr> thread_swap_request_slots := [8, 3], swap_request_id := 1,
          tls := [8 \<mapsto> ex_tls\<lparr> entries := [[], [UserEntry 5, UserEntry 6]],
                                i_write_prev := 1 \<rparr>] \<rparr>) 8
   \<and> can_log (ex_logger\<lparr> thread_swap_request_slots := [16, 3] \<rparr>) 8 ex_tls 1
   \<and> TlsLogger_Log (ex_logger\<lparr> thread_swap_request_slots := [16, 3] \<rparr>) 8 (UserEntry 5) =
       Some (Inr (ex_logger\<lparr> thread_swap_request_slots := [16, 8], swap_request_id := 2,
         tls := [8 \<mapsto> ex_tls\<lparr> entries := [[], [UserEntry 5]], i_write_prev := 1,
                               swap_buffers_slot_retry_count := 1 \<rparr>] \<rparr>))
   \<and> swap_requested (ex_logger\<lparr> thread_swap_request_slots := [16, 3] \<rparr>)
       (ex_logger\<lparr> thread_swap_request_slots := [16, 8], swap_request_id := 2,
         tls := [8 \<mapsto> ex_tls\<lparr> entries := [[], [UserEntry 5]], i_write_prev := 1,
                               swap_buffers_slot_retry_count := 1 \<rparr>] \<rparr>) 8"
proof -
  have t0: "tls ex_logger 8 = Some ex_tls"
    by (simp add: ex_logger_def)
  have w0: "written_index ex_tls \<noteq> i_write_prev ex_tls"
    by (simp add: ex_can_log)
  from TlsLogger_Log_swap_request [OF t0, of "UserEntry 5"] ex_can_log(1) w0
  have "\<exists>lg'. TlsLogger_Log ex_logger 8 (UserEntry 5) = Some (Inr lg')
          \<and> swap_requested ex_logger lg' 8"
    by blast
  then have first: "swap_requested ex_logger
     (ex_logger\<lparr> thread_swap_request_slots := [8, 3], swap_request_id := 1,
        tls := [8 \<mapsto> ex_tls\<lparr> entries := [[], [UserEntry 5]], i_write_prev := 1 \<rparr>] \<rparr>) 8"
    by (simp add: ex_Log_first)
  have t1: "tls (ex_logger\<lparr> thread_swap_request_slots := [8, 3], swap_request_id := 1,
        tls := [8 \<mapsto> ex_tls\<lparr> entries := [[], [UserEntry 5]], i_write_prev := 1 \<rparr>] \<rparr>) 8
      = Some (ex_tls\<lparr> entries := [[], [UserEntry 5]], i_write_prev := 1 \<rparr>)"
    by simp
  have lock1: "Log_lock (ex_tls\<lparr> entries := [[], [UserEntry 5]], i_write_prev := 1 \<rparr>)
      (i_write (ex_tls\<lparr> entries := [[], [UserEntry 5]], i_write_prev := 1 \<rparr>)) 0 =
      Inr (ex_tls\<lparr> entries := [[], [UserEntry 5]], i_write_prev := 1,
             entry_states := [ReadLock, WriteLock] \<rparr>, 1)"
    by (simp add: ex_tls_def TlsLogger_new_def Log_lock.simps compare_exchange_strong_def)
  from TlsLogger_Log_swap_request [OF t1, of "UserEntry 6"] ex_Log_second lock1
  have second: "\<not> swap_requested
     (ex_logger\<lparr> thread_swap_request_slots := [8, 3], swap_request_id := 1,
        tls := [8 \<mapsto> ex_tls\<lparr> entries := [[], [UserEntry 5]], i_write_prev := 1 \<rparr>] \<rparr>)
     (ex_logger\<lparr> thread_swap_request_slots := [8, 3], swap_request_id := 1,
        tls := [8 \<mapsto> ex_tls\<lparr> entries := [[], [UserEntry 5, UserEntry 6]],
                              i_write_prev := 1 \<rparr>] \<rparr>) 8"
    by auto
  have t2: "tls (ex_logger\<lparr> thread_swap_request_slots := [16, 3] \<rparr>) 8 = Some ex_tls"
    by (simp add: ex_logger_def)
  from TlsLogger_Log_swap_request [OF t2, of "UserEntry 5"] ex_can_log(2) w0
  have "\<exists>lg'. TlsLogger_Log (ex_logger\<lparr> thread_swap_request_slots := [16, 3] \<rparr>) 8
                (UserEntry 5) = Some (Inr lg')
          \<and> swap_requested (ex_logger\<lparr> thread_swap_request_slots := [16, 3] \<rparr>) lg' 8"
    by blast
  then have third: "swap_requested (ex_logger\<lparr> thread_swap_request_slots := [16, 3] \<rparr>)
       (ex_logger\<lparr> thread_swap_request_slots := [16, 8], swap_request_id := 2,
         tls := [8 \<mapsto> ex_tls\<lparr> entries := [[], [UserEntry 5]], i_write_prev := 1,
                               swap_buffers_slot_retry_count := 1 \<rparr>] \<rparr>) 8"
    by (simp add: ex_Log_retry)
  from first second third ex_Log_first ex_Log_second ex_Log_retry ex_can_log(1,2)
  show ?thesis
    by (intro conjI)
qed


subsection \<open>The example run, to the end of the thread\<close>

lemma ex_step_43:
  "step ex_returned
     ex_adopted"
proof -
  have "threads ex_returned 8 = Idle" by (simp add: ex_sys_def ex_returned_def ex_adopted_def)
  then have "step ex_returned (goto ex_returned 8 (UnRegister_adopt (logger ex_returned) 8) Unreg_erase)"
    by (rule step.thread_exit)
  also have "goto ex_returned 8 (UnRegister_adopt (logger ex_returned) 8) Unreg_erase = ex_adopted"
    by (simp add: ex_defs ex_lo_def UnRegister_adopt_def ex_returned_def ex_adopted_def)
  finally show ?thesis .
qed

lemma ex_run_43: "reachable 1 ex_adopted"
  by (rule reachable.step [OF ex_run_42 ex_step_43])

lemma ex_step_44:
  "step ex_adopted
     ex_erased"
  by (rule thread_stepI [where this = 8 and now = 0])
     (simp_all add: ex_defs ex_lo_def UnRegister_erase_def ex_adopted_def ex_erased_def)

lemma ex_run_44: "reachable 1 ex_erased"
  by (rule reachable.step [OF ex_run_43 ex_step_44])

lemma ex_step_45:
  "step ex_erased
     (ex_sys (ex_lo (ex_lg [5, 7] 2 2 [8] True
           [SetCurrentTracePidTidString ''pid 1 tid 1'', Invoked 7, Flush,
            SetCurrentTracePidTidString ''pid 1 tid 1'',
            StartNewTrace_call Nullptr 0]
           {0}
        (ex_q [ReadLock, Unlocked] [[FlushedEntry 0], []] 0 1 1 0 1))
        {||} [8] [] 0)
        (Log_cas (OrphanEntry 8) 1 0 Then_exit) (IO_run 0 [])
        [UserEntry 7, FlushedEntry 0, OrphanEntry 8]
        [(8, UserEntry 7), (8, FlushedEntry 0)] 1)"
  by (rule thread_stepI [where this = 8 and now = 0])
     (simp_all add: ex_defs ex_lo_def UnRegister_erase_def ex_erased_def)

lemma ex_run_45: "reachable 1 (ex_sys (ex_lo (ex_lg [5, 7] 2 2 [8] True
           [SetCurrentTracePidTidString ''pid 1 tid 1'', Invoked 7, Flush,
            SetCurrentTracePidTidString ''pid 1 tid 1'',
            StartNewTrace_call Nullptr 0]
           {0}
        (ex_q [ReadLock, Unlocked] [[FlushedEntry 0], []] 0 1 1 0 1))
        {||} [8] [] 0)
        (Log_cas (OrphanEntry 8) 1 0 Then_exit) (IO_run 0 [])
        [UserEntry 7, FlushedEntry 0, OrphanEntry 8]
        [(8, UserEntry 7), (8, FlushedEntry 0)] 1)"
  by (rule reachable.step [OF ex_run_44 ex_step_45])

lemma ex_step_46:
  "step (ex_sys (ex_lo (ex_lg [5, 7] 2 2 [8] True
           [SetCurrentTracePidTidString ''pid 1 tid 1'', Invoked 7, Flush,
            SetCurrentTracePidTidString ''pid 1 tid 1'',
            StartNewTrace_call Nullptr 0]
           {0}
        (ex_q [ReadLock, Unlocked] [[FlushedEntry 0], []] 0 1 1 0 1))
        {||} [8] [] 0)
        (Log_cas (OrphanEntry 8) 1 0 Then_exit) (IO_run 0 [])
        [UserEntry 7, FlushedEntry 0, OrphanEntry 8]
        [(8, UserEntry 7), (8, FlushedEntry 0)] 1)
     (ex_sys (ex_lo (ex_lg [5, 7] 2 2 [8] True
           [SetCurrentTracePidTidString ''pid 1 tid 1'', Invoked 7, Flush,
            SetCurrentTracePidTidString ''pid 1 tid 1'',
            StartNewTrace_call Nullptr 0]
           {0}
        (ex_q [ReadLock, WriteLock] [[FlushedEntry 0], []] 0 1 1 0 1))
        {||} [8] [] 0)
        (Log_append (OrphanEntry 8) 1 Then_exit) (IO_run 0 [])
        [UserEntry 7, FlushedEntry 0, OrphanEntry 8]
        [(8, UserEntry 7), (8, FlushedEntry 0)] 1)"
  by (rule thread_stepI [where this = 8 and now = 0])
     (simp_all add: ex_defs ex_lo_def UnRegister_erase_def)

lemma ex_run_46: "reachable 1 (ex_sys (ex_lo (ex_lg [5, 7] 2 2 [8] True
           [SetCurrentTracePidTidString ''pid 1 tid 1'', Invoked 7, Flush,
            SetCurrentTracePidTidString ''pid 1 tid 1'',
            StartNewTrace_call Nullptr 0]
           {0}
        (ex_q [ReadLock, WriteLock] [[FlushedEntry 0], []] 0 1 1 0 1))
        {||} [8] [] 0)
        (Log_append (OrphanEntry 8) 1 Then_exit) (IO_run 0 [])
        [UserEntry 7, FlushedEntry 0, OrphanEntry 8]
        [(8, UserEntry 7), (8, FlushedEntry 0)] 1)"
  by (rule reachable.step [OF ex_run_45 ex_step_46])

lemma ex_step_47:
  "step (ex_sys (ex_lo (ex_lg [5, 7] 2 2 [8] True
           [SetCurrentTracePidTidString ''pid 1 tid 1'', Invoked 7, Flush,
            SetCurrentTracePidTidString ''pid 1 tid 1'',
            StartNewTrace_call Nullptr 0]
           {0}
        (ex_q [ReadLock, WriteLock] [[FlushedEntry 0], []] 0 1 1 0 1))
        {||} [8] [] 0)
        (Log_append (OrphanEntry 8) 1 Then_exit) (IO_run 0 [])
        [UserEntry 7, FlushedEntry 0, OrphanEntry 8]
        [(8, UserEntry 7), (8, FlushedEntry 0)] 1)
     (ex_sys (ex_lo (ex_lg [5, 7] 2 2 [8] True
           [SetCurrentTracePidTidString ''pid 1 tid 1'', Invoked 7, Flush,
            SetCurrentTracePidTidString ''pid 1 tid 1'',
            StartNewTrace_call Nullptr 0]
           {0}
        (ex_q [ReadLock, WriteLock] [[FlushedEntry 0], [OrphanEntry 8]] 0 1 1 0 1))
        {||} [8] [] 0)
        (Log_unlock 1 Then_exit) (IO_run 0 [])
        [UserEntry 7, FlushedEntry 0, OrphanEntry 8]
        [(8, UserEntry 7), (8, FlushedEntry 0)] 1)"
  by (rule thread_stepI [where this = 8 and now = 0])
     (simp_all add: ex_defs ex_lo_def UnRegister_erase_def)

lemma ex_run_47: "reachable 1 (ex_sys (ex_lo (ex_lg [5, 7] 2 2 [8] True
           [SetCurrentTracePidTidString ''pid 1 tid 1'', Invoked 7, Flush,
            SetCurrentTracePidTidString ''pid 1 tid 1'',
            StartNewTrace_call Nullptr 0]
           {0}
        (ex_q [ReadLock, WriteLock] [[FlushedEntry 0], [OrphanEntry 8]] 0 1 1 0 1))
        {||} [8] [] 0)
        (Log_unlock 1 Then_exit) (IO_run 0 [])
        [UserEntry 7, FlushedEntry 0, OrphanEntry 8]
        [(8, UserEntry 7), (8, FlushedEntry 0)] 1)"
  by (rule reachable.step [OF ex_run_46 ex_step_47])

lemma ex_step_48:
  "step (ex_sys (ex_lo (ex_lg [5, 7] 2 2 [8] True
           [SetCurrentTracePidTidString ''pid 1 tid 1'', Invoked 7, Flush,
            SetCurrentTracePidTidString ''pid 1 tid 1'',
            StartNewTrace_call Nullptr 0]
           {0}
        (ex_q [ReadLock, WriteLock] [[FlushedEntry 0], [OrphanEntry 8]] 0 1 1 0 1))
        {||} [8] [] 0)
        (Log_unlock 1 Then_exit) (IO_run 0 [])
        [UserEntry 7, FlushedEntry 0, OrphanEntry 8]
        [(8, UserEntry 7), (8, FlushedEntry 0)] 1)
     (ex_sys (ex_lo (ex_lg [5, 7] 2 2 [8] True
           [SetCurrentTracePidTidString ''pid 1 tid 1'', Invoked 7, Flush,
            SetCurrentTracePidTidString ''pid 1 tid 1'',
            StartNewTrace_call Nullptr 0]
           {0}
        (ex_q [ReadLock, Unlocked] [[FlushedEntry 0], [OrphanEntry 8]] 0 1 1 0 1))
        {||} [8] [] 0)
        (Req_fetch 1 Then_exit) (IO_run 0 [])
        [UserEntry 7, FlushedEntry 0, OrphanEntry 8]
        [(8, UserEntry 7), (8, FlushedEntry 0)] 1)"
  by (rule thread_stepI [where this = 8 and now = 0])
     (simp_all add: ex_defs ex_lo_def UnRegister_erase_def)

lemma ex_run_48: "reachable 1 (ex_sys (ex_lo (ex_lg [5, 7] 2 2 [8] True
           [SetCurrentTracePidTidString ''pid 1 tid 1'', Invoked 7, Flush,
            SetCurrentTracePidTidString ''pid 1 tid 1'',
            StartNewTrace_call Nullptr 0]
           {0}
        (ex_q [ReadLock, Unlocked] [[FlushedEntry 0], [OrphanEntry 8]] 0 1 1 0 1))
        {||} [8] [] 0)
        (Req_fetch 1 Then_exit) (IO_run 0 [])
        [UserEntry 7, FlushedEntry 0, OrphanEntry 8]
        [(8, UserEntry 7), (8, FlushedEntry 0)] 1)"
  by (rule reachable.step [OF ex_run_47 ex_step_48])

lemma ex_step_49:
  "step (ex_sys (ex_lo (ex_lg [5, 7] 2 2 [8] True
           [SetCurrentTracePidTidString ''pid 1 tid 1'', Invoked 7, Flush,
            SetCurrentTracePidTidString ''pid 1 tid 1'',
            StartNewTrace_call Nullptr 0]
           {0}
        (ex_q [ReadLock, Unlocked] [[FlushedEntry 0], [OrphanEntry 8]] 0 1 1 0 1))
        {||} [8] [] 0)
        (Req_fetch 1 Then_exit) (IO_run 0 [])
        [UserEntry 7, FlushedEntry 0, OrphanEntry 8]
        [(8, UserEntry 7), (8, FlushedEntry 0)] 1)
     (ex_sys (ex_lo (ex_lg [5, 7] 3 2 [8] True
           [SetCurrentTracePidTidString ''pid 1 tid 1'', Invoked 7, Flush,
            SetCurrentTracePidTidString ''pid 1 tid 1'',
            StartNewTrace_call Nullptr 0]
           {0}
        (ex_q [ReadLock, Unlocked] [[FlushedEntry 0], [OrphanEntry 8]] 0 1 1 0 1))
        {||} [8] [] 0)
        (Req_cas 1 2 Then_exit) (IO_run 0 [])
        [UserEntry 7, FlushedEntry 0, OrphanEntry 8]
        [(8, UserEntry 7), (8, FlushedEntry 0)] 1)"
  by (rule thread_stepI [where this = 8 and now = 0])
     (simp_all add: ex_defs ex_lo_def UnRegister_erase_def)

lemma ex_run_49: "reachable 1 (ex_sys (ex_lo (ex_lg [5, 7] 3 2 [8] True
           [SetCurrentTracePidTidString ''pid 1 tid 1'', Invoked 7, Flush,
            SetCurrentTracePidTidString ''pid 1 tid 1'',
            StartNewTrace_call Nullptr 0]
           {0}
        (ex_q [ReadLock, Unlocked] [[FlushedEntry 0], [OrphanEntry 8]] 0 1 1 0 1))
        {||} [8] [] 0)
        (Req_cas 1 2 Then_exit) (IO_run 0 [])
        [UserEntry 7, FlushedEntry 0, OrphanEntry 8]
        [(8, UserEntry 7), (8, FlushedEntry 0)] 1)"
  by (rule reachable.step [OF ex_run_48 ex_step_49])

lemma ex_step_50:
  "step (ex_sys (ex_lo (ex_lg [5, 7] 3 2 [8] True
           [SetCurrentTracePidTidString ''pid 1 tid 1'', Invoked 7, Flush,
            SetCurrentTracePidTidString ''pid 1 tid 1'',
            StartNewTrace_call Nullptr 0]
           {0}
        (ex_q [ReadLock, Unlocked] [[FlushedEntry 0], [OrphanEntry 8]] 0 1 1 0 1))
        {||} [8] [] 0)
        (Req_cas 1 2 Then_exit) (IO_run 0 [])
        [UserEntry 7, FlushedEntry 0, OrphanEntry 8]
        [(8, UserEntry 7), (8, FlushedEntry 0)] 1)
     ex_exited"
  by (rule thread_stepI [where this = 8 and now = 0])
     (simp_all add: ex_defs ex_lo_def UnRegister_erase_def ex_exited_def)

lemma ex_run_50: "reachable 1 ex_exited"
  by (rule reachable.step [OF ex_run_49 ex_step_50])

lemma ex_step_51:
  "step ex_exited
     (ex_sys (ex_lo (ex_lg [8, 7] 3 2 [0] True
           [SetCurrentTracePidTidString ''pid 1 tid 1'', Invoked 7, Flush,
            SetCurrentTracePidTidString ''pid 1 tid 1'',
            StartNewTrace_call Nullptr 0]
           {0}
        (ex_q [ReadLock, Unlocked] [[], [OrphanEntry 8]] 0 1 0 1 1))
        {||} [8] [] 0)
        Exited (IO_process 1)
        [UserEntry 7, FlushedEntry 0, OrphanEntry 8]
        [(8, UserEntry 7), (8, FlushedEntry 0)] 1)"
  by (rule io_stepI [where evs = "[]"])
     (simp_all add: ex_defs ex_lo_def ex_exited_def Let_def new_got_def ReadBufferHasBeenConsumed_def
        StartReadingEntries_def FinishReadingEntries_def RemoveValue_def IOThread_flush_def
        IOThread_retire_def CollectTlsLoggerStats_def ReportLogCasFailCount_def
        ReportSwapBuffersSlotRetryCount_def)

lemma ex_run_51: "reachable 1 (ex_sys (ex_lo (ex_lg [8, 7] 3 2 [0] True
           [SetCurrentTracePidTidString ''pid 1 tid 1'', Invoked 7, Flush,
            SetCurrentTracePidTidString ''pid 1 tid 1'',
            StartNewTrace_call Nullptr 0]
           {0}
        (ex_q [ReadLock, Unlocked] [[], [OrphanEntry 8]] 0 1 0 1 1))
        {||} [8] [] 0)
        Exited (IO_process 1)
        [UserEntry 7, FlushedEntry 0, OrphanEntry 8]
        [(8, UserEntry 7), (8, FlushedEntry 0)] 1)"
  by (rule reachable.step [OF ex_run_50 ex_step_51])

lemma ex_step_52:
  "step (ex_sys (ex_lo (ex_lg [8, 7] 3 2 [0] True
           [SetCurrentTracePidTidString ''pid 1 tid 1'', Invoked 7, Flush,
            SetCurrentTracePidTidString ''pid 1 tid 1'',
            StartNewTrace_call Nullptr 0]
           {0}
        (ex_q [ReadLock, Unlocked] [[], [OrphanEntry 8]] 0 1 0 1 1))
        {||} [8] [] 0)
        Exited (IO_process 1)
        [UserEntry 7, FlushedEntry 0, OrphanEntry 8]
        [(8, UserEntry 7), (8, FlushedEntry 0)] 1)
     (ex_sys (ex_lo (ex_lg [8, 7] 3 2 [] True
           [SetCurrentTracePidTidString ''pid 1 tid 1'', Invoked 7, Flush,
            SetCurrentTracePidTidString ''pid 1 tid 1'',
            StartNewTrace_call Nullptr 0]
           {0}
        (ex_q [ReadLock, Unlocked] [[], [OrphanEntry 8]] 0 1 0 1 1))
        {||} [8] [] 0)
        Exited IO_flush
        [UserEntry 7, FlushedEntry 0, OrphanEntry 8]
        [(8, UserEntry 7), (8, FlushedEntry 0)] 1)"
  by (rule io_stepI [where evs = "[]"])
     (simp_all add: ex_defs ex_lo_def Let_def new_got_def ReadBufferHasBeenConsumed_def
        StartReadingEntries_def FinishReadingEntries_def RemoveValue_def IOThread_flush_def
        IOThread_retire_def CollectTlsLoggerStats_def ReportLogCasFailCount_def
        ReportSwapBuffersSlotRetryCount_def)

lemma ex_run_52: "reachable 1 (ex_sys (ex_lo (ex_lg [8, 7] 3 2 [] True
           [SetCurrentTracePidTidString ''pid 1 tid 1'', Invoked 7, Flush,
            SetCurrentTracePidTidString ''pid 1 tid 1'',
            StartNewTrace_call Nullptr 0]
           {0}
        (ex_q [ReadLock, Unlocked] [[], [OrphanEntry 8]] 0 1 0 1 1))
        {||} [8] [] 0)
        Exited IO_flush
        [UserEntry 7, FlushedEntry 0, OrphanEntry 8]
        [(8, UserEntry 7), (8, FlushedEntry 0)] 1)"
  by (rule reachable.step [OF ex_run_51 ex_step_52])

lemma ex_step_53:
  "step (ex_sys (ex_lo (ex_lg [8, 7] 3 2 [] True
           [SetCurrentTracePidTidString ''pid 1 tid 1'', Invoked 7, Flush,
            SetCurrentTracePidTidString ''pid 1 tid 1'',
            StartNewTrace_call Nullptr 0]
           {0}
        (ex_q [ReadLock, Unlocked] [[], [OrphanEntry 8]] 0 1 0 1 1))
        {||} [8] [] 0)
        Exited IO_flush
        [UserEntry 7, FlushedEntry 0, OrphanEntry 8]
        [(8, UserEntry 7), (8, FlushedEntry 0)] 1)
     (ex_sys (ex_lo (ex_lg [8, 7] 3 2 [] True
           [SetCurrentTracePidTidString ''pid 1 tid 1'', Invoked 7, Flush,
            SetCurrentTracePidTidString ''pid 1 tid 1'',
            StartNewTrace_call Nullptr 0, Flush]
           {0}
        (ex_q [ReadLock, Unlocked] [[], [OrphanEntry 8]] 0 1 0 1 1))
        {||} [8] [] 0)
        Exited IO_retire
        [UserEntry 7, FlushedEntry 0, OrphanEntry 8]
        [(8, UserEntry 7), (8, FlushedEntry 0)] 1)"
  by (rule io_stepI [where evs = "[]"])
     (simp_all add: ex_defs ex_lo_def Let_def new_got_def ReadBufferHasBeenConsumed_def
        StartReadingEntries_def FinishReadingEntries_def RemoveValue_def IOThread_flush_def
        IOThread_retire_def CollectTlsLoggerStats_def ReportLogCasFailCount_def
        ReportSwapBuffersSlotRetryCount_def)

lemma ex_run_53: "reachable 1 (ex_sys (ex_lo (ex_lg [8, 7] 3 2 [] True
           [SetCurrentTracePidTidString ''pid 1 tid 1'', Invoked 7, Flush,
            SetCurrentTracePidTidString ''pid 1 tid 1'',
            StartNewTrace_call Nullptr 0, Flush]
           {0}
        (ex_q [ReadLock, Unlocked] [[], [OrphanEntry 8]] 0 1 0 1 1))
        {||} [8] [] 0)
        Exited IO_retire
        [UserEntry 7, FlushedEntry 0, OrphanEntry 8]
        [(8, UserEntry 7), (8, FlushedEntry 0)] 1)"
  by (rule reachable.step [OF ex_run_52 ex_step_53])

lemma ex_step_54:
  "step (ex_sys (ex_lo (ex_lg [8, 7] 3 2 [] True
           [SetCurrentTracePidTidString ''pid 1 tid 1'', Invoked 7, Flush,
            SetCurrentTracePidTidString ''pid 1 tid 1'',
            StartNewTrace_call Nullptr 0, Flush]
           {0}
        (ex_q [ReadLock, Unlocked] [[], [OrphanEntry 8]] 0 1 0 1 1))
        {||} [8] [] 0)
        Exited IO_retire
        [UserEntry 7, FlushedEntry 0, OrphanEntry 8]
        [(8, UserEntry 7), (8, FlushedEntry 0)] 1)
     (ex_sys (ex_lo (ex_lg [8, 7] 3 2 [] True
           [SetCurrentTracePidTidString ''pid 1 tid 1'', Invoked 7, Flush,
            SetCurrentTracePidTidString ''pid 1 tid 1'',
            StartNewTrace_call Nullptr 0, Flush]
           {0}
        (ex_q [ReadLock, Unlocked] [[], [OrphanEntry 8]] 0 1 0 1 1))
        {||} [8] [] 0)
        Exited IO_top
        [UserEntry 7, FlushedEntry 0, OrphanEntry 8]
        [(8, UserEntry 7), (8, FlushedEntry 0)] 1)"
  by (rule io_stepI [where evs = "[]"])
     (simp_all add: ex_defs ex_lo_def Let_def new_got_def ReadBufferHasBeenConsumed_def
        StartReadingEntries_def FinishReadingEntries_def RemoveValue_def IOThread_flush_def
        IOThread_retire_def CollectTlsLoggerStats_def ReportLogCasFailCount_def
        ReportSwapBuffersSlotRetryCount_def)

lemma ex_run_54: "reachable 1 (ex_sys (ex_lo (ex_lg [8, 7] 3 2 [] True
           [SetCurrentTracePidTidString ''pid 1 tid 1'', Invoked 7, Flush,
            SetCurrentTracePidTidString ''pid 1 tid 1'',
            StartNewTrace_call Nullptr 0, Flush]
           {0}
        (ex_q [ReadLock, Unlocked] [[], [OrphanEntry 8]] 0 1 0 1 1))
        {||} [8] [] 0)
        Exited IO_top
        [UserEntry 7, FlushedEntry 0, OrphanEntry 8]
        [(8, UserEntry 7), (8, FlushedEntry 0)] 1)"
  by (rule reachable.step [OF ex_run_53 ex_step_54])

lemma ex_step_55:
  "step (ex_sys (ex_lo (ex_lg [8, 7] 3 2 [] True
           [SetCurrentTracePidTidString ''pid 1 tid 1'', Invoked 7, Flush,
            SetCurrentTracePidTidString ''pid 1 tid 1'',
            StartNewTrace_call Nullptr 0, Flush]
           {0}
        (ex_q [ReadLock, Unlocked] [[], [OrphanEntry 8]] 0 1 0 1 1))
        {||} [8] [] 0)
        Exited IO_top
        [UserEntry 7, FlushedEntry 0, OrphanEntry 8]
        [(8, UserEntry 7), (8, FlushedEntry 0)] 1)
     (ex_sys (ex_lo (ex_lg [8, 7] 3 2 [] True
           [SetCurrentTracePidTidString ''pid 1 tid 1'', Invoked 7, Flush,
            SetCurrentTracePidTidString ''pid 1 tid 1'',
            StartNewTrace_call Nullptr 0, Flush]
           {0}
        (ex_q [ReadLock, Unlocked] [[], [OrphanEntry 8]] 0 1 0 1 1))
        {||} [8] [] 0)
        Exited (IO_gather_new_load [])
        [UserEntry 7, FlushedEntry 0, OrphanEntry 8]
        [(8, UserEntry 7), (8, FlushedEntry 0)] 1)"
  by (rule io_stepI [where evs = "[]"])
     (simp_all add: ex_defs ex_lo_def Let_def new_got_def ReadBufferHasBeenConsumed_def
        StartReadingEntries_def FinishReadingEntries_def RemoveValue_def IOThread_flush_def
        IOThread_retire_def CollectTlsLoggerStats_def ReportLogCasFailCount_def
        ReportSwapBuffersSlotRetryCount_def)

lemma ex_run_55: "reachable 1 (ex_sys (ex_lo (ex_lg [8, 7] 3 2 [] True
           [SetCurrentTracePidTidString ''pid 1 tid 1'', Invoked 7, Flush,
            SetCurrentTracePidTidString ''pid 1 tid 1'',
            StartNewTrace_call Nullptr 0, Flush]
           {0}
        (ex_q [ReadLock, Unlocked] [[], [OrphanEntry 8]] 0 1 0 1 1))
        {||} [8] [] 0)
        Exited (IO_gather_new_load [])
        [UserEntry 7, FlushedEntry 0, OrphanEntry 8]
        [(8, UserEntry 7), (8, FlushedEntry 0)] 1)"
  by (rule reachable.step [OF ex_run_54 ex_step_55])

lemma ex_step_56:
  "step (ex_sys (ex_lo (ex_lg [8, 7] 3 2 [] True
           [SetCurrentTracePidTidString ''pid 1 tid 1'', Invoked 7, Flush,
            SetCurrentTracePidTidString ''pid 1 tid 1'',
            StartNewTrace_call Nullptr 0, Flush]
           {0}
        (ex_q [ReadLock, Unlocked] [[], [OrphanEntry 8]] 0 1 0 1 1))
        {||} [8] [] 0)
        Exited (IO_gather_new_load [])
        [UserEntry 7, FlushedEntry 0, OrphanEntry 8]
        [(8, UserEntry 7), (8, FlushedEntry 0)] 1)
     (ex_sys (ex_lo (ex_lg [8, 7] 3 2 [] True
           [SetCurrentTracePidTidString ''pid 1 tid 1'', Invoked 7, Flush,
            SetCurrentTracePidTidString ''pid 1 tid 1'',
            StartNewTrace_call Nullptr 0, Flush]
           {0}
        (ex_q [ReadLock, Unlocked] [[], [OrphanEntry 8]] 0 1 0 1 1))
        {||} [8] [] 0)
        Exited (IO_gather_new [] 3)
        [UserEntry 7, FlushedEntry 0, OrphanEntry 8]
        [(8, UserEntry 7), (8, FlushedEntry 0)] 1)"
  by (rule io_stepI [where evs = "[]"])
     (simp_all add: ex_defs ex_lo_def Let_def new_got_def ReadBufferHasBeenConsumed_def
        StartReadingEntries_def FinishReadingEntries_def RemoveValue_def IOThread_flush_def
        IOThread_retire_def CollectTlsLoggerStats_def ReportLogCasFailCount_def
        ReportSwapBuffersSlotRetryCount_def)

lemma ex_run_56: "reachable 1 (ex_sys (ex_lo (ex_lg [8, 7] 3 2 [] True
           [SetCurrentTracePidTidString ''pid 1 tid 1'', Invoked 7, Flush,
            SetCurrentTracePidTidString ''pid 1 tid 1'',
            StartNewTrace_call Nullptr 0, Flush]
           {0}
        (ex_q [ReadLock, Unlocked] [[], [OrphanEntry 8]] 0 1 0 1 1))
        {||} [8] [] 0)
        Exited (IO_gather_new [] 3)
        [UserEntry 7, FlushedEntry 0, OrphanEntry 8]
        [(8, UserEntry 7), (8, FlushedEntry 0)] 1)"
  by (rule reachable.step [OF ex_run_55 ex_step_56])

lemma ex_step_57:
  "step (ex_sys (ex_lo (ex_lg [8, 7] 3 2 [] True
           [SetCurrentTracePidTidString ''pid 1 tid 1'', Invoked 7, Flush,
            SetCurrentTracePidTidString ''pid 1 tid 1'',
            StartNewTrace_call Nullptr 0, Flush]
           {0}
        (ex_q [ReadLock, Unlocked] [[], [OrphanEntry 8]] 0 1 0 1 1))
        {||} [8] [] 0)
        Exited (IO_gather_new [] 3)
        [UserEntry 7, FlushedEntry 0, OrphanEntry 8]
        [(8, UserEntry 7), (8, FlushedEntry 0)] 1)
     (ex_sys (ex_lo (ex_lg [8, 7] 3 2 [] True
           [SetCurrentTracePidTidString ''pid 1 tid 1'', Invoked 7, Flush,
            SetCurrentTracePidTidString ''pid 1 tid 1'',
            StartNewTrace_call Nullptr 0, Flush]
           {0}
        (ex_q [ReadLock, Unlocked] [[], [OrphanEntry 8]] 0 1 0 1 1))
        {||} [8] [] 0)
        Exited (IO_gather_new_cas [] 3 8)
        [UserEntry 7, FlushedEntry 0, OrphanEntry 8]
        [(8, UserEntry 7), (8, FlushedEntry 0)] 1)"
  by (rule io_stepI [where evs = "[]"])
     (simp_all add: ex_defs ex_lo_def Let_def new_got_def ReadBufferHasBeenConsumed_def
        StartReadingEntries_def FinishReadingEntries_def RemoveValue_def IOThread_flush_def
        IOThread_retire_def CollectTlsLoggerStats_def ReportLogCasFailCount_def
        ReportSwapBuffersSlotRetryCount_def)

lemma ex_run_57: "reachable 1 (ex_sys (ex_lo (ex_lg [8, 7] 3 2 [] True
           [SetCurrentTracePidTidString ''pid 1 tid 1'', Invoked 7, Flush,
            SetCurrentTracePidTidString ''pid 1 tid 1'',
            StartNewTrace_call Nullptr 0, Flush]
           {0}
        (ex_q [ReadLock, Unlocked] [[], [OrphanEntry 8]] 0 1 0 1 1))
        {||} [8] [] 0)
        Exited (IO_gather_new_cas [] 3 8)
        [UserEntry 7, FlushedEntry 0, OrphanEntry 8]
        [(8, UserEntry 7), (8, FlushedEntry 0)] 1)"
  by (rule reachable.step [OF ex_run_56 ex_step_57])

lemma ex_step_58:
  "step (ex_sys (ex_lo (ex_lg [8, 7] 3 2 [] True
           [SetCurrentTracePidTidString ''pid 1 tid 1'', Invoked 7, Flush,
            SetCurrentTracePidTidString ''pid 1 tid 1'',
            StartNewTrace_call Nullptr 0, Flush]
           {0}
        (ex_q [ReadLock, Unlocked] [[], [OrphanEntry 8]] 0 1 0 1 1))
        {||} [8] [] 0)
        Exited (IO_gather_new_cas [] 3 8)
        [UserEntry 7, FlushedEntry 0, OrphanEntry 8]
        [(8, UserEntry 7), (8, FlushedEntry 0)] 1)
     (ex_sys (ex_lo (ex_lg [9, 7] 3 3 [] True
           [SetCurrentTracePidTidString ''pid 1 tid 1'', Invoked 7, Flush,
            SetCurrentTracePidTidString ''pid 1 tid 1'',
            StartNewTrace_call Nullptr 0, Flush]
           {0}
        (ex_q [ReadLock, Unlocked] [[], [OrphanEntry 8]] 0 1 0 1 1))
        {||} [8] [] 0)
        Exited (IO_gather_new [8] 3)
        [UserEntry 7, FlushedEntry 0, OrphanEntry 8]
        [(8, UserEntry 7), (8, FlushedEntry 0)] 1)"
  by (rule io_stepI [where evs = "[]"])
     (simp_all add: ex_defs ex_lo_def Let_def new_got_def ReadBufferHasBeenConsumed_def
        StartReadingEntries_def FinishReadingEntries_def RemoveValue_def IOThread_flush_def
        IOThread_retire_def CollectTlsLoggerStats_def ReportLogCasFailCount_def
        ReportSwapBuffersSlotRetryCount_def)

lemma ex_run_58: "reachable 1 (ex_sys (ex_lo (ex_lg [9, 7] 3 3 [] True
           [SetCurrentTracePidTidString ''pid 1 tid 1'', Invoked 7, Flush,
            SetCurrentTracePidTidString ''pid 1 tid 1'',
            StartNewTrace_call Nullptr 0, Flush]
           {0}
        (ex_q [ReadLock, Unlocked] [[], [OrphanEntry 8]] 0 1 0 1 1))
        {||} [8] [] 0)
        Exited (IO_gather_new [8] 3)
        [UserEntry 7, FlushedEntry 0, OrphanEntry 8]
        [(8, UserEntry 7), (8, FlushedEntry 0)] 1)"
  by (rule reachable.step [OF ex_run_57 ex_step_58])

lemma ex_step_59:
  "step (ex_sys (ex_lo (ex_lg [9, 7] 3 3 [] True
           [SetCurrentTracePidTidString ''pid 1 tid 1'', Invoked 7, Flush,
            SetCurrentTracePidTidString ''pid 1 tid 1'',
            StartNewTrace_call Nullptr 0, Flush]
           {0}
        (ex_q [ReadLock, Unlocked] [[], [OrphanEntry 8]] 0 1 0 1 1))
        {||} [8] [] 0)
        Exited (IO_gather_new [8] 3)
        [UserEntry 7, FlushedEntry 0, OrphanEntry 8]
        [(8, UserEntry 7), (8, FlushedEntry 0)] 1)
     (ex_sys (ex_lo (ex_lg [9, 7] 3 3 [] True
           [SetCurrentTracePidTidString ''pid 1 tid 1'', Invoked 7, Flush,
            SetCurrentTracePidTidString ''pid 1 tid 1'',
            StartNewTrace_call Nullptr 0, Flush]
           {0}
        (ex_q [ReadLock, Unlocked] [[], [OrphanEntry 8]] 0 1 0 1 1))
        {||} [8] [] 0)
        Exited (IO_swap [8])
        [UserEntry 7, FlushedEntry 0, OrphanEntry 8]
        [(8, UserEntry 7), (8, FlushedEntry 0)] 1)"
  by (rule io_stepI [where evs = "[]"])
     (simp_all add: ex_defs ex_lo_def Let_def new_got_def ReadBufferHasBeenConsumed_def
        StartReadingEntries_def FinishReadingEntries_def RemoveValue_def IOThread_flush_def
        IOThread_retire_def CollectTlsLoggerStats_def ReportLogCasFailCount_def
        ReportSwapBuffersSlotRetryCount_def)

lemma ex_run_59: "reachable 1 (ex_sys (ex_lo (ex_lg [9, 7] 3 3 [] True
           [SetCurrentTracePidTidString ''pid 1 tid 1'', Invoked 7, Flush,
            SetCurrentTracePidTidString ''pid 1 tid 1'',
            StartNewTrace_call Nullptr 0, Flush]
           {0}
        (ex_q [ReadLock, Unlocked] [[], [OrphanEntry 8]] 0 1 0 1 1))
        {||} [8] [] 0)
        Exited (IO_swap [8])
        [UserEntry 7, FlushedEntry 0, OrphanEntry 8]
        [(8, UserEntry 7), (8, FlushedEntry 0)] 1)"
  by (rule reachable.step [OF ex_run_58 ex_step_59])

lemma ex_step_60:
  "step (ex_sys (ex_lo (ex_lg [9, 7] 3 3 [] True
           [SetCurrentTracePidTidString ''pid 1 tid 1'', Invoked 7, Flush,
            SetCurrentTracePidTidString ''pid 1 tid 1'',
            StartNewTrace_call Nullptr 0, Flush]
           {0}
        (ex_q [ReadLock, Unlocked] [[], [OrphanEntry 8]] 0 1 0 1 1))
        {||} [8] [] 0)
        Exited (IO_swap [8])
        [UserEntry 7, FlushedEntry 0, OrphanEntry 8]
        [(8, UserEntry 7), (8, FlushedEntry 0)] 1)
     (ex_sys (ex_lo (ex_lg [9, 7] 3 3 [] True
           [SetCurrentTracePidTidString ''pid 1 tid 1'', Invoked 7, Flush,
            SetCurrentTracePidTidString ''pid 1 tid 1'',
            StartNewTrace_call Nullptr 0, Flush]
           {0}
        (ex_q [Unlocked, Unlocked] [[], [OrphanEntry 8]] 0 1 0 1 1))
        {||} [8] [] 0)
        Exited (IO_swap_publish 8 [])
        [UserEntry 7, FlushedEntry 0, OrphanEntry 8]
        [(8, UserEntry 7), (8, FlushedEntry 0)] 1)"
  by (rule io_stepI [where evs = "[]"])
     (simp_all add: ex_defs ex_lo_def Let_def new_got_def ReadBufferHasBeenConsumed_def
        StartReadingEntries_def FinishReadingEntries_def RemoveValue_def IOThread_flush_def
        IOThread_retire_def CollectTlsLoggerStats_def ReportLogCasFailCount_def
        ReportSwapBuffersSlotRetryCount_def)

lemma ex_run_60: "reachable 1 (ex_sys (ex_lo (ex_lg [9, 7] 3 3 [] True
           [SetCurrentTracePidTidString ''pid 1 tid 1'', Invoked 7, Flush,
            SetCurrentTracePidTidString ''pid 1 tid 1'',
            StartNewTrace_call Nullptr 0, Flush]
           {0}
        (ex_q [Unlocked, Unlocked] [[], [OrphanEntry 8]] 0 1 0 1 1))
        {||} [8] [] 0)
        Exited (IO_swap_publish 8 [])
        [UserEntry 7, FlushedEntry 0, OrphanEntry 8]
        [(8, UserEntry 7), (8, FlushedEntry 0)] 1)"
  by (rule reachable.step [OF ex_run_59 ex_step_60])

lemma ex_step_61:
  "step (ex_sys (ex_lo (ex_lg [9, 7] 3 3 [] True
           [SetCurrentTracePidTidString ''pid 1 tid 1'', Invoked 7, Flush,
            SetCurrentTracePidTidString ''pid 1 tid 1'',
            StartNewTrace_call Nullptr 0, Flush]
           {0}
        (ex_q [Unlocked, Unlocked] [[], [OrphanEntry 8]] 0 1 0 1 1))
        {||} [8] [] 0)
        Exited (IO_swap_publish 8 [])
        [UserEntry 7, FlushedEntry 0, OrphanEntry 8]
        [(8, UserEntry 7), (8, FlushedEntry 0)] 1)
     (ex_sys (ex_lo (ex_lg [9, 7] 3 3 [8] True
           [SetCurrentTracePidTidString ''pid 1 tid 1'', Invoked 7, Flush,
            SetCurrentTracePidTidString ''pid 1 tid 1'',
            StartNewTrace_call Nullptr 0, Flush]
           {0}
        (ex_q [Unlocked, Unlocked] [[], [OrphanEntry 8]] 1 0 1 1 1))
        {||} [8] [] 0)
        Exited (IO_swap [])
        [UserEntry 7, FlushedEntry 0, OrphanEntry 8]
        [(8, UserEntry 7), (8, FlushedEntry 0)] 1)"
  by (rule io_stepI [where evs = "[]"])
     (simp_all add: ex_defs ex_lo_def Let_def new_got_def ReadBufferHasBeenConsumed_def
        StartReadingEntries_def FinishReadingEntries_def RemoveValue_def IOThread_flush_def
        IOThread_retire_def CollectTlsLoggerStats_def ReportLogCasFailCount_def
        ReportSwapBuffersSlotRetryCount_def)

lemma ex_run_61: "reachable 1 (ex_sys (ex_lo (ex_lg [9, 7] 3 3 [8] True
           [SetCurrentTracePidTidString ''pid 1 tid 1'', Invoked 7, Flush,
            SetCurrentTracePidTidString ''pid 1 tid 1'',
            StartNewTrace_call Nullptr 0, Flush]
           {0}
        (ex_q [Unlocked, Unlocked] [[], [OrphanEntry 8]] 1 0 1 1 1))
        {||} [8] [] 0)
        Exited (IO_swap [])
        [UserEntry 7, FlushedEntry 0, OrphanEntry 8]
        [(8, UserEntry 7), (8, FlushedEntry 0)] 1)"
  by (rule reachable.step [OF ex_run_60 ex_step_61])

lemma ex_step_62:
  "step (ex_sys (ex_lo (ex_lg [9, 7] 3 3 [8] True
           [SetCurrentTracePidTidString ''pid 1 tid 1'', Invoked 7, Flush,
            SetCurrentTracePidTidString ''pid 1 tid 1'',
            StartNewTrace_call Nullptr 0, Flush]
           {0}
        (ex_q [Unlocked, Unlocked] [[], [OrphanEntry 8]] 1 0 1 1 1))
        {||} [8] [] 0)
        Exited (IO_swap [])
        [UserEntry 7, FlushedEntry 0, OrphanEntry 8]
        [(8, UserEntry 7), (8, FlushedEntry 0)] 1)
     (ex_sys (ex_lo (ex_lg [9, 7] 3 3 [8] True
           [SetCurrentTracePidTidString ''pid 1 tid 1'', Invoked 7, Flush,
            SetCurrentTracePidTidString ''pid 1 tid 1'',
            StartNewTrace_call Nullptr 0, Flush]
           {0}
        (ex_q [Unlocked, Unlocked] [[], [OrphanEntry 8]] 1 0 1 1 1))
        {||} [8] [] 0)
        Exited (IO_process 0)
        [UserEntry 7, FlushedEntry 0, OrphanEntry 8]
        [(8, UserEntry 7), (8, FlushedEntry 0)] 1)"
  by (rule io_stepI [where evs = "[]"])
     (simp_all add: ex_defs ex_lo_def Let_def new_got_def ReadBufferHasBeenConsumed_def
        StartReadingEntries_def FinishReadingEntries_def RemoveValue_def IOThread_flush_def
        IOThread_retire_def CollectTlsLoggerStats_def ReportLogCasFailCount_def
        ReportSwapBuffersSlotRetryCount_def)

lemma ex_run_62: "reachable 1 (ex_sys (ex_lo (ex_lg [9, 7] 3 3 [8] True
           [SetCurrentTracePidTidString ''pid 1 tid 1'', Invoked 7, Flush,
            SetCurrentTracePidTidString ''pid 1 tid 1'',
            StartNewTrace_call Nullptr 0, Flush]
           {0}
        (ex_q [Unlocked, Unlocked] [[], [OrphanEntry 8]] 1 0 1 1 1))
        {||} [8] [] 0)
        Exited (IO_process 0)
        [UserEntry 7, FlushedEntry 0, OrphanEntry 8]
        [(8, UserEntry 7), (8, FlushedEntry 0)] 1)"
  by (rule reachable.step [OF ex_run_61 ex_step_62])

lemma ex_step_63:
  "step (ex_sys (ex_lo (ex_lg [9, 7] 3 3 [8] True
           [SetCurrentTracePidTidString ''pid 1 tid 1'', Invoked 7, Flush,
            SetCurrentTracePidTidString ''pid 1 tid 1'',
            StartNewTrace_call Nullptr 0, Flush]
           {0}
        (ex_q [Unlocked, Unlocked] [[], [OrphanEntry 8]] 1 0 1 1 1))
        {||} [8] [] 0)
        Exited (IO_process 0)
        [UserEntry 7, FlushedEntry 0, OrphanEntry 8]
        [(8, UserEntry 7), (8, FlushedEntry 0)] 1)
     ex_collecting"
  by (rule io_stepI [where evs = "[]"])
     (simp_all add: ex_defs ex_lo_def ex_collecting_def Let_def new_got_def ReadBufferHasBeenConsumed_def
        StartReadingEntries_def FinishReadingEntries_def RemoveValue_def IOThread_flush_def
        IOThread_retire_def CollectTlsLoggerStats_def ReportLogCasFailCount_def
        ReportSwapBuffersSlotRetryCount_def)

lemma ex_run_63: "reachable 1 ex_collecting"
  by (rule reachable.step [OF ex_run_62 ex_step_63])

lemma ex_step_64:
  "step ex_collecting
     ex_marked"
  by (rule io_stepI [where evs = "[(8, OrphanEntry 8)]"])
     (simp_all add: ex_defs ex_lo_def ex_collecting_def ex_marked_def Let_def new_got_def ReadBufferHasBeenConsumed_def
        StartReadingEntries_def FinishReadingEntries_def RemoveValue_def IOThread_flush_def
        IOThread_retire_def CollectTlsLoggerStats_def ReportLogCasFailCount_def
        ReportSwapBuffersSlotRetryCount_def)

lemma ex_run_64: "reachable 1 ex_marked"
  by (rule reachable.step [OF ex_run_63 ex_step_64])

lemma ex_step_65:
  "step ex_marked
     (ex_sys (ex_lo (ex_lg [9, 7] 3 3 [0] True
           [SetCurrentTracePidTidString ''pid 1 tid 1'', Invoked 7, Flush,
            SetCurrentTracePidTidString ''pid 1 tid 1'',
            StartNewTrace_call Nullptr 0, Flush,
            SetCurrentTracePidTidString ''pid 1 tid 1'']
           {0}
        (ex_q [Unlocked, ReadLock] [[], []] 1 0 0 1 0))
        {||} [8] [8] 1)
        Exited (IO_process 1)
        [UserEntry 7, FlushedEntry 0, OrphanEntry 8]
        [(8, UserEntry 7), (8, FlushedEntry 0), (8, OrphanEntry 8)] 1)"
  by (rule io_stepI [where evs = "[]"])
     (simp_all add: ex_defs ex_lo_def ex_marked_def Let_def new_got_def ReadBufferHasBeenConsumed_def
        StartReadingEntries_def FinishReadingEntries_def RemoveValue_def IOThread_flush_def
        IOThread_retire_def CollectTlsLoggerStats_def ReportLogCasFailCount_def
        ReportSwapBuffersSlotRetryCount_def)

lemma ex_run_65: "reachable 1 (ex_sys (ex_lo (ex_lg [9, 7] 3 3 [0] True
           [SetCurrentTracePidTidString ''pid 1 tid 1'', Invoked 7, Flush,
            SetCurrentTracePidTidString ''pid 1 tid 1'',
            StartNewTrace_call Nullptr 0, Flush,
            SetCurrentTracePidTidString ''pid 1 tid 1'']
           {0}
        (ex_q [Unlocked, ReadLock] [[], []] 1 0 0 1 0))
        {||} [8] [8] 1)
        Exited (IO_process 1)
        [UserEntry 7, FlushedEntry 0, OrphanEntry 8]
        [(8, UserEntry 7), (8, FlushedEntry 0), (8, OrphanEntry 8)] 1)"
  by (rule reachable.step [OF ex_run_64 ex_step_65])

lemma ex_step_66:
  "step (ex_sys (ex_lo (ex_lg [9, 7] 3 3 [0] True
           [SetCurrentTracePidTidString ''pid 1 tid 1'', Invoked 7, Flush,
            SetCurrentTracePidTidString ''pid 1 tid 1'',
            StartNewTrace_call Nullptr 0, Flush,
            SetCurrentTracePidTidString ''pid 1 tid 1'']
           {0}
        (ex_q [Unlocked, ReadLock] [[], []] 1 0 0 1 0))
        {||} [8] [8] 1)
        Exited (IO_process 1)
        [UserEntry 7, FlushedEntry 0, OrphanEntry 8]
        [(8, UserEntry 7), (8, FlushedEntry 0), (8, OrphanEntry 8)] 1)
     (ex_sys (ex_lo (ex_lg [9, 7] 3 3 [] True
           [SetCurrentTracePidTidString ''pid 1 tid 1'', Invoked 7, Flush,
            SetCurrentTracePidTidString ''pid 1 tid 1'',
            StartNewTrace_call Nullptr 0, Flush,
            SetCurrentTracePidTidString ''pid 1 tid 1'']
           {0}
        (ex_q [Unlocked, ReadLock] [[], []] 1 0 0 1 0))
        {||} [8] [8] 1)
        Exited IO_flush
        [UserEntry 7, FlushedEntry 0, OrphanEntry 8]
        [(8, UserEntry 7), (8, FlushedEntry 0), (8, OrphanEntry 8)] 1)"
  by (rule io_stepI [where evs = "[]"])
     (simp_all add: ex_defs ex_lo_def Let_def new_got_def ReadBufferHasBeenConsumed_def
        StartReadingEntries_def FinishReadingEntries_def RemoveValue_def IOThread_flush_def
        IOThread_retire_def CollectTlsLoggerStats_def ReportLogCasFailCount_def
        ReportSwapBuffersSlotRetryCount_def)

lemma ex_run_66: "reachable 1 (ex_sys (ex_lo (ex_lg [9, 7] 3 3 [] True
           [SetCurrentTracePidTidString ''pid 1 tid 1'', Invoked 7, Flush,
            SetCurrentTracePidTidString ''pid 1 tid 1'',
            StartNewTrace_call Nullptr 0, Flush,
            SetCurrentTracePidTidString ''pid 1 tid 1'']
           {0}
        (ex_q [Unlocked, ReadLock] [[], []] 1 0 0 1 0))
        {||} [8] [8] 1)
        Exited IO_flush
        [UserEntry 7, FlushedEntry 0, OrphanEntry 8]
        [(8, UserEntry 7), (8, FlushedEntry 0), (8, OrphanEntry 8)] 1)"
  by (rule reachable.step [OF ex_run_65 ex_step_66])

lemma ex_step_67:
  "step (ex_sys (ex_lo (ex_lg [9, 7] 3 3 [] True
           [SetCurrentTracePidTidString ''pid 1 tid 1'', Invoked 7, Flush,
            SetCurrentTracePidTidString ''pid 1 tid 1'',
            StartNewTrace_call Nullptr 0, Flush,
            SetCurrentTracePidTidString ''pid 1 tid 1'']
           {0}
        (ex_q [Unlocked, ReadLock] [[], []] 1 0 0 1 0))
        {||} [8] [8] 1)
        Exited IO_flush
        [UserEntry 7, FlushedEntry 0, OrphanEntry 8]
        [(8, UserEntry 7), (8, FlushedEntry 0), (8, OrphanEntry 8)] 1)
     ex_retiring"
  by (rule io_stepI [where evs = "[]"])
     (simp_all add: ex_defs ex_lo_def ex_retiring_def Let_def new_got_def ReadBufferHasBeenConsumed_def
        StartReadingEntries_def FinishReadingEntries_def RemoveValue_def IOThread_flush_def
        IOThread_retire_def CollectTlsLoggerStats_def ReportLogCasFailCount_def
        ReportSwapBuffersSlotRetryCount_def)

lemma ex_run_67: "reachable 1 ex_retiring"
  by (rule reachable.step [OF ex_run_66 ex_step_67])

lemma ex_step_68:
  "step ex_retiring
     ex_destroyed"
  by (rule io_stepI [where evs = "[]"])
     (simp_all add: ex_defs ex_lo_def ex_retiring_def ex_destroyed_def Let_def new_got_def ReadBufferHasBeenConsumed_def
        StartReadingEntries_def FinishReadingEntries_def RemoveValue_def IOThread_flush_def
        IOThread_retire_def CollectTlsLoggerStats_def ReportLogCasFailCount_def
        ReportSwapBuffersSlotRetryCount_def)

lemma ex_run_68: "reachable 1 ex_destroyed"
  by (rule reachable.step [OF ex_run_67 ex_step_68])


subsection \<open>Unregistering, step by step\<close>

lemma io_step_phase:
  assumes st: "io_step lg iopc = Some (Inr (lg', iopc', evs))"
  shows "iopc' = IO_retire \<Longrightarrow> iopc = IO_flush \<and> lg' = IOThread_flush lg"
    and "iopc' = IO_flush \<Longrightarrow>
           \<exists>k. iopc = IO_process k \<and> length (threads_to_read lg) \<le> k"
proof -
  have "(iopc' = IO_retire \<longrightarrow> iopc = IO_flush \<and> lg' = IOThread_flush lg)
    \<and> (iopc' = IO_flush \<longrightarrow> (\<exists>k. iopc = IO_process k \<and> length (threads_to_read lg) \<le> k))"
  proof (cases iopc)
    case (IO_gather_retry ts xs)
    with st show ?thesis
      by (cases xs) (auto simp: Let_def split: if_splits prod.splits)
  next
    case (IO_swap ts)
    with st show ?thesis
      by (cases ts) (auto simp: with_tls_def split: if_splits prod.splits option.splits bool.splits)
  next
    case (IO_run k es)
    with st show ?thesis
      by (cases es) (auto simp: with_tls_def split: option.splits sum.splits)
  qed (use st in \<open>auto simp: with_tls_def Let_def
         split: if_splits prod.splits option.splits bool.splits\<close>)
  then show "iopc' = IO_retire \<Longrightarrow> iopc = IO_flush \<and> lg' = IOThread_flush lg"
    and "iopc' = IO_flush \<Longrightarrow>
           \<exists>k. iopc = IO_process k \<and> length (threads_to_read lg) \<le> k"
    by blast+
qed

lemma step_alive:
  assumes st: "step s s'" and a: "alive (logger s) a" and d: "\<not> alive (logger s') a"
  shows "io s = IO_retire \<and> io s' = IO_top \<and> a \<in> set (orphans_to_destroy (logger s))
         \<and> logger s' = IOThread_retire (logger s)"
  using st a d
proof (cases rule: step.cases)
  case (thread now this lg' pc')
  from thread_step_alive [OF thread(2), of a] a d thread(1) show ?thesis
    by (simp add: goto_def)
next
  case (io_thread lg' io' evs)
  from io_step_alive(3) [OF io_thread(2), of a] a d io_thread(1) show ?thesis
    by simp
next
  case (first_use this thr)
  with a d show ?thesis
    by (simp add: goto_def alive_def TlsLoggerWrapper_new_def RegisterTlsLogger_def Let_def
        LogErrorSync_def split: if_splits)
qed (use a d in \<open>simp_all add: goto_def alive_def UnRegister_adopt_def StartNewTrace_def
       StartLogging_def\<close>)

lemma run_entry_OrphanEntry:
  assumes "tls la p = Some t"
  shows "run_entry (OrphanEntry p) la =
    Inr (la\<lparr> tls_total_log_cas_fail_count :=
                tls_total_log_cas_fail_count la + log_cas_fail_count t,
              tls_total_swap_buffers_slot_retry_count :=
                tls_total_swap_buffers_slot_retry_count la + swap_buffers_slot_retry_count t,
              tls := (tls la)(p \<mapsto> t\<lparr> log_cas_fail_count := 0,
                                       swap_buffers_slot_retry_count := 0 \<rparr>),
              orphans_to_destroy := orphans_to_destroy la @ [p] \<rparr>)"
  using assms
  by (simp add: CollectTlsLoggerStats_def ReportLogCasFailCount_def
      ReportSwapBuffersSlotRetryCount_def Let_def)

lemma can_log_UnRegister:
  "can_log (UnRegister_erase (UnRegister_adopt lg p) p) q t k \<longleftrightarrow> can_log lg q t k"
  by (simp add: can_log_def first_room_def slot_count_def UnRegister_erase_def
      UnRegister_adopt_def)

lemma UnRegisterTlsLogger_returns:
  assumes c: "can_log lg p t k"
  shows "\<exists>lg' t'. UnRegisterTlsLogger lg p = Some (Inr lg')
     \<and> tls_logger_orphans lg' = p # tls_logger_orphans lg
     \<and> tls_loggers_registerd lg' = tls_loggers_registerd lg |-| {|p|}
     \<and> orphans_to_destroy lg' = orphans_to_destroy lg
     \<and> tls lg' p = Some t'
     \<and> entries t' = (entries t)[unat (written_index t)
                                  := entries t ! unat (written_index t) @ [OrphanEntry p]]"
proof -
  let ?lg = "UnRegister_erase (UnRegister_adopt lg p) p"
  from c have c': "can_log ?lg p t k" by (simp add: can_log_UnRegister)
  then have t: "tls ?lg p = Some t" and wf: "tls_wf t"
    and free: "entry_states t ! unat (i_write t) = Unlocked
         \<or> entry_states t ! unat (i_write t XOR 1) = Unlocked"
    and rd: "SwapRequestSlotIsReadable p"
    and ne: "thread_swap_request_slots ?lg \<noteq> []"
    and room: "first_room ?lg (swap_request_id ?lg) k"
    by (simp_all add: can_log_def)
  from TlsLogger_Log_returns [OF t wf free rd ne room, of "OrphanEntry p"]
  obtain lg' t1 t' where ret: "TlsLogger_Log ?lg p (OrphanEntry p) = Some (Inr lg')"
    and lock: "Log_lock t (i_write t) 0 = Inr (t1, written_index t)"
    and t': "tls lg' p = Some t'"
    unfolding written_index_def by blast
  from TlsLogger_Log_result [OF ret t] lock t'
  have e: "entries t' = (entries t)[unat (written_index t)
                                  := entries t ! unat (written_index t) @ [OrphanEntry p]]"
    by auto
  from TlsLogger_Log_registry [OF ret]
  have "tls_logger_orphans lg' = p # tls_logger_orphans lg"
    "tls_loggers_registerd lg' = tls_loggers_registerd lg |-| {|p|}"
    "orphans_to_destroy lg' = orphans_to_destroy lg"
    by (simp_all add: same_registry_def UnRegister_erase_def UnRegister_adopt_def)
  with ret t' e show ?thesis
    unfolding UnRegisterTlsLogger_def by blast
qed

lemma life_cycle:
  assumes r: "reachable m s" and a: "alive (logger s) p"
  shows "p |\<in>| tls_loggers_registerd (logger s) \<or> p \<in> set (tls_logger_orphans (logger s))"
    and "threads s p = Unreg_erase \<Longrightarrow>
           p |\<in>| tls_loggers_registerd (logger s) \<and> p \<in> set (tls_logger_orphans (logger s))
           \<and> OrphanEntry p \<notin> set (submitted s p)"
    and "OrphanEntry p \<in> set (submitted s p) \<Longrightarrow>
           p |\<notin>| tls_loggers_registerd (logger s) \<and> p \<in> set (tls_logger_orphans (logger s))"
    and "p \<in> set (tls_logger_orphans (logger s)) \<Longrightarrow> threads s p \<noteq> Unreg_erase \<Longrightarrow>
           p |\<notin>| tls_loggers_registerd (logger s) \<and> OrphanEntry p \<in> set (submitted s p)"
proof -
  from reachable_life [OF r] have l: "life_inv s" .
  then have o: "p \<in> set (tls_logger_orphans (logger s)) \<longrightarrow>
            threads s p = Unreg_erase \<or> exiting (threads s p)"
    and e: "OrphanEntry p \<in> set (submitted s p) \<longrightarrow> exiting (threads s p)"
    and c1: "threads s p = Unreg_erase \<longrightarrow>
               p |\<in>| tls_loggers_registerd (logger s)
               \<and> p \<in> set (tls_logger_orphans (logger s))"
    and c2: "exiting (threads s p) \<longrightarrow>
               p |\<notin>| tls_loggers_registerd (logger s)
               \<and> p \<in> set (tls_logger_orphans (logger s))
               \<and> OrphanEntry p \<in> set (submitted s p)"
    and c3: "threads s p \<noteq> Unreg_erase \<and> \<not> exiting (threads s p) \<longrightarrow>
               p |\<in>| tls_loggers_registerd (logger s)"
    using a unfolding life_inv_def by blast+
  have x: "\<not> exiting Unreg_erase" by simp
  from c1 c2 c3
  show "p |\<in>| tls_loggers_registerd (logger s) \<or> p \<in> set (tls_logger_orphans (logger s))"
    by blast
  show "p |\<in>| tls_loggers_registerd (logger s) \<and> p \<in> set (tls_logger_orphans (logger s))
           \<and> OrphanEntry p \<notin> set (submitted s p)" if "threads s p = Unreg_erase"
    using that c1 e x by auto
  show "p |\<notin>| tls_loggers_registerd (logger s) \<and> p \<in> set (tls_logger_orphans (logger s))"
    if "OrphanEntry p \<in> set (submitted s p)"
    using that e c2 by blast
  show "p |\<notin>| tls_loggers_registerd (logger s) \<and> OrphanEntry p \<in> set (submitted s p)"
    if "p \<in> set (tls_logger_orphans (logger s))" "threads s p \<noteq> Unreg_erase"
    using that o c2 by blast
qed

lemma orphan_entry_own:
  assumes "reachable m s"
  shows "OrphanEntry p \<in> set (submitted s a) \<Longrightarrow> p = a"
  using assms
proof (induction arbitrary: p a rule: reachable.induct)
  case init
  then show ?case by (simp add: init_def)
next
  case (step s s')
  from step.hyps(2) step.prems step.IH show ?case
  proof (cases rule: step.cases)
    case (thread now this lg' pc')
    show ?thesis
    proof (cases "OrphanEntry p \<in> set (submitted s a)")
      case True
      then show ?thesis by (rule step.IH)
    next
      case False
      with step.prems thread(1) have "a = this" "OrphanEntry p \<in> set (entering pc')"
        by (auto simp: goto_def split: if_splits)
      with thread_step_life(5) [OF thread(2), of p] show ?thesis by simp
    qed
  qed (auto simp: goto_def split: if_splits)
qed

lemma reachable_run_orphan:
  assumes r: "reachable m s" and i: "io s = IO_run k (OrphanEntry p # es)"
  shows "threads_to_read (logger s) ! k = p" and "alive (logger s) p"
proof -
  let ?a = "threads_to_read (logger s) ! k"
  from reachable_barrier [OF r] i have "tls (logger s) ?a \<noteq> None"
    unfolding barrier_inv_def by blast
  then obtain t where t: "tls (logger s) ?a = Some t" by blast
  from reachable_tlq_ok [OF r t] i
  have "ainv (abs_tlq t) (abs_pc t (threads s ?a)) (Reading (OrphanEntry p # es))
      (pend (logger s) (io s) ?a) (count_list (threads_to_read (logger s)) ?a)
      (delivered_to (executed s) ?a) (submitted s ?a)"
    by (simp add: tlq_ok_def)
  from ainv_fifo [OF this] have "OrphanEntry p \<in> set (submitted s ?a)"
    by (metis append_Cons in_set_conv_decomp unread_part.simps(1))
  from orphan_entry_own [OF r this] show "?a = p" by simp
  with t show "alive (logger s) p" by (simp add: alive_def)
qed

lemma io_step_orphans:
  assumes st: "io_step lg iopc = Some (Inr (lg', iopc', evs))" and n: "iopc \<noteq> IO_retire"
  shows "tls_logger_orphans lg' = tls_logger_orphans lg"
proof (cases iopc)
  case IO_top
  with st show ?thesis by (auto split: if_splits)
next
  case (IO_gather_retry ts xs)
  with st show ?thesis
    by (cases xs) (auto simp: Let_def retry_got_def split: if_splits)
next
  case (IO_gather_retry_cas ts sr xs v)
  with st show ?thesis
    by (auto simp: compare_exchange_strong_def retry_got_def split: if_splits)
next
  case (IO_gather_new_load ts)
  with st show ?thesis by auto
next
  case (IO_gather_new ts e)
  with st show ?thesis
    by (auto simp: Let_def new_got_def retry_later_def split: if_splits)
next
  case (IO_gather_new_cas ts e v)
  with st show ?thesis
    by (auto simp: compare_exchange_strong_def Let_def new_got_def retry_later_def
        split: if_splits)
next
  case (IO_swap ts)
  with st show ?thesis
    by (cases ts) (auto simp: with_tls_def set_tls_def compare_exchange_strong_def
        split: if_splits option.splits)
next
  case (IO_swap_publish p ps)
  with st show ?thesis
    by (auto simp: with_tls_def set_tls_def split: if_splits option.splits)
next
  case (IO_process j)
  with st show ?thesis
    by (auto simp: with_tls_def set_tls_def StartReadingEntries_def compare_exchange_strong_def
        split: if_splits option.splits)
next
  case (IO_run j es)
  show ?thesis
  proof (cases es)
    case Nil
    with st IO_run show ?thesis
      by (auto simp: with_tls_def set_tls_def split: if_splits option.splits)
  next
    case (Cons e es')
    with st IO_run have run: "run_entry e lg = Inr lg'"
      by (auto split: sum.splits)
    from run_entry_registry(2) [OF run] show ?thesis .
  qed
next
  case IO_flush
  with st show ?thesis by (auto simp: IOThread_flush_def)
qed (use st n in simp_all)

lemma step_orphan_erased:
  assumes st: "step s s'" and a: "a \<in> set (tls_logger_orphans (logger s))"
    and d: "a \<notin> set (tls_logger_orphans (logger s'))"
  shows "io s = IO_retire \<and> io s' = IO_top \<and> a \<in> set (orphans_to_destroy (logger s))
         \<and> logger s' = IOThread_retire (logger s)"
  using st a d
proof (cases rule: step.cases)
  case (thread now this lg' pc')
  from thread_step_life(1) [OF thread(2)] a d thread(1) show ?thesis
    by (simp add: goto_def)
next
  case (io_thread lg' io' evs)
  show ?thesis
  proof (cases "io s = IO_retire")
    case True
    with io_thread(2) have r: "lg' = IOThread_retire (logger s)" "io' = IO_top" by auto
    from d have "a \<notin> set (fold remove1 (orphans_to_destroy (logger s))
        (tls_logger_orphans (logger s)))"
      by (simp add: io_thread(1) r IOThread_retire_result)
    with in_fold_remove1(2) [OF a, of "orphans_to_destroy (logger s)"]
    have "a \<in> set (orphans_to_destroy (logger s))" by blast
    with True r show ?thesis by (simp add: io_thread(1))
  next
    case False
    from io_step_orphans [OF io_thread(2) False] a d show ?thesis
      by (simp add: io_thread(1))
  qed
next
  case (first_use this thr)
  with a d show ?thesis
    by (simp add: goto_def TlsLoggerWrapper_new_def RegisterTlsLogger_def Let_def
        LogErrorSync_def split: if_splits)
qed (use a d in \<open>simp_all add: goto_def UnRegister_adopt_def StartNewTrace_def
       StartLogging_def\<close>)

lemma IOThread_iteration_phases:
  assumes "IOThread_iteration la = Inr lb"
  shows "\<exists>l1 l2. IOThread_gather la = Inr l1 \<and> IOThread_process l1 = Inr l2
            \<and> keeps_orphans la l1 \<and> keeps_orphans la l2 \<and> keeps_orphans la (IOThread_flush l2)
            \<and> lb = IOThread_retire (IOThread_flush l2)
            \<and> tls_logger_orphans lb
                = fold remove1 (orphans_to_destroy l2) (tls_logger_orphans la)
            \<and> (\<forall>q. tls lb q = (if q \<in> set (orphans_to_destroy l2) then None else tls l2 q))
            \<and> orphans_to_destroy lb = []"
proof -
  from assms obtain l1 l2 where g: "IOThread_gather la = Inr l1"
    and pr: "IOThread_process l1 = Inr l2"
    and lb: "lb = IOThread_retire (IOThread_flush l2)"
    by (auto simp: IOThread_iteration_def split: sum.splits)
  from pr obtain l2' where pl: "process_loop 0 l1 = Inr l2'"
    and l2: "l2 = l2'\<lparr> threads_to_read := RemoveValue (threads_to_read l2') 0 \<rparr>"
    by (auto simp: IOThread_process_def split: sum.splits)
  have k1: "keeps_orphans la l1" using g by (rule IOThread_gather_keeps)
  from process_loop_keeps [OF pl] have "keeps_orphans l1 l2"
    by (simp add: l2 keeps_orphans_def)
  with k1 have k2: "keeps_orphans la l2" by (rule keeps_orphans_trans)
  then have k3: "keeps_orphans la (IOThread_flush l2)"
    by (simp add: keeps_orphans_def IOThread_flush_def)
  have "tls_logger_orphans lb = fold remove1 (orphans_to_destroy l2) (tls_logger_orphans la)"
    using k3 by (simp add: lb IOThread_retire_result keeps_orphans_def IOThread_flush_def)
  moreover have "\<forall>q. tls lb q = (if q \<in> set (orphans_to_destroy l2) then None else tls l2 q)"
    by (simp add: lb IOThread_retire_result IOThread_flush_def)
  moreover have "orphans_to_destroy lb = []"
    by (simp add: lb IOThread_retire_result)
  ultimately show ?thesis
    using g pr k1 k2 k3 lb by blast
qed

text \<open>
  C7. In every reachable state of the program, a TlsLogger that exists is registered or
  in the orphanage. While its thread stands between the first two blocks of
  \<open>UnRegisterTlsLogger\<close> it is both, and the \<open>OrphanEntry\<close> has not been submitted;
  once the \<open>OrphanEntry\<close> has been submitted through it, it is in the orphanage and
  no longer registered. The thread that ends takes these two steps: into the orphanage
  first, then out of the registered set, entering \<open>TlsLogger::Log\<close> with the
  \<open>OrphanEntry\<close>. A step after which a TlsLogger no longer exists, or is no longer
  in the orphanage, is the last step of an iteration of the I/O thread (lines 413-421),
  taken with the TlsLogger in \<open>orphans_to_destroy\<close>; the I/O thread comes to that
  step from the flush (line 410) only, and to the flush only when it has gone through
  all of \<open>threads_to_read\<close>. Run on the I/O thread, the \<open>OrphanEntry\<close> adds the
  two contention counters of its TlsLogger to the totals, resets them, and appends the
  handle to \<open>orphans_to_destroy\<close>; it changes nothing else. In a reachable state in
  which the I/O thread is about to run an \<open>OrphanEntry\<close>, it is reading the
  TlsLogger that the entry names, that TlsLogger exists, and the step is the one just
  described. Called with nothing in between, \<open>UnRegisterTlsLogger\<close> returns under
  the conditions under which \<open>TlsLogger::Log\<close> does, with the TlsLogger at the front
  of the orphanage, erased from the registered set, and the entry appended. In one pass of
  the I/O thread's loop run with nothing in between, the orphanage and the set of
  TlsLoggers that exist are the same after the gather phase, after the process phase and
  after the flush as at the start; the last step erases from the orphanage the handles
  in \<open>orphans_to_destroy\<close>, destroys their TlsLoggers, and clears the list.
\<close>

theorem UnRegisterTlsLogger_order:
  fixes s u u' v :: "'a system" and lg la lx lx' :: "'a Logger"
  shows
   "(reachable m s \<and> alive (logger s) p \<longrightarrow>
       (p |\<in>| tls_loggers_registerd (logger s) \<or> p \<in> set (tls_logger_orphans (logger s)))
     \<and> (threads s p = Unreg_erase \<longrightarrow>
          p |\<in>| tls_loggers_registerd (logger s) \<and> p \<in> set (tls_logger_orphans (logger s))
          \<and> OrphanEntry p \<notin> set (submitted s p))
     \<and> (OrphanEntry p \<in> set (submitted s p) \<longrightarrow>
          p |\<notin>| tls_loggers_registerd (logger s) \<and> p \<in> set (tls_logger_orphans (logger s)))
     \<and> (p \<in> set (tls_logger_orphans (logger s)) \<and> threads s p \<noteq> Unreg_erase \<longrightarrow>
          p |\<notin>| tls_loggers_registerd (logger s) \<and> OrphanEntry p \<in> set (submitted s p)))
   \<and> (threads s p = Idle \<longrightarrow>
         step s (goto s p (UnRegister_adopt (logger s) p) Unreg_erase))
   \<and> (threads s p = Unreg_erase \<longrightarrow>
         step s (goto s p (UnRegister_erase (logger s) p) (Log_load (OrphanEntry p) Then_exit)))
   \<and> (step u u' \<and> alive (logger u) p \<and> \<not> alive (logger u') p \<longrightarrow>
         io u = IO_retire \<and> io u' = IO_top \<and> p \<in> set (orphans_to_destroy (logger u))
         \<and> logger u' = IOThread_retire (logger u))
   \<and> (step u u' \<and> p \<in> set (tls_logger_orphans (logger u))
         \<and> p \<notin> set (tls_logger_orphans (logger u')) \<longrightarrow>
         io u = IO_retire \<and> io u' = IO_top \<and> p \<in> set (orphans_to_destroy (logger u))
         \<and> logger u' = IOThread_retire (logger u))
   \<and> (io_step lx iopc = Some (Inr (lx', IO_retire, evs)) \<longrightarrow>
         iopc = IO_flush \<and> lx' = IOThread_flush lx)
   \<and> (io_step lx iopc = Some (Inr (lx', IO_flush, evs)) \<longrightarrow>
         (\<exists>k. iopc = IO_process k \<and> length (threads_to_read lx) \<le> k))
   \<and> (tls la p = Some t \<longrightarrow>
         run_entry (OrphanEntry p) la =
           Inr (la\<lparr> tls_total_log_cas_fail_count :=
                       tls_total_log_cas_fail_count la + log_cas_fail_count t,
                     tls_total_swap_buffers_slot_retry_count :=
                       tls_total_swap_buffers_slot_retry_count la
                         + swap_buffers_slot_retry_count t,
                     tls := (tls la)(p \<mapsto> t\<lparr> log_cas_fail_count := 0,
                                              swap_buffers_slot_retry_count := 0 \<rparr>),
                     orphans_to_destroy := orphans_to_destroy la @ [p] \<rparr>))
   \<and> (reachable n v \<and> io v = IO_run j (OrphanEntry p # es) \<longrightarrow>
         threads_to_read (logger v) ! j = p
         \<and> (\<exists>tv. tls (logger v) p = Some tv
               \<and> io_step (logger v) (io v) =
                   Some (Inr ((logger v)
                     \<lparr> tls_total_log_cas_fail_count :=
                         tls_total_log_cas_fail_count (logger v) + log_cas_fail_count tv,
                       tls_total_swap_buffers_slot_retry_count :=
                         tls_total_swap_buffers_slot_retry_count (logger v)
                           + swap_buffers_slot_retry_count tv,
                       tls := (tls (logger v))(p \<mapsto> tv\<lparr> log_cas_fail_count := 0,
                                                        swap_buffers_slot_retry_count := 0 \<rparr>),
                       orphans_to_destroy := orphans_to_destroy (logger v) @ [p] \<rparr>,
                     IO_run j es, [(p, OrphanEntry p)]))))
   \<and> (can_log lg p tq k \<longrightarrow>
         (\<exists>lg' t'. UnRegisterTlsLogger lg p = Some (Inr lg')
            \<and> tls_logger_orphans lg' = p # tls_logger_orphans lg
            \<and> tls_loggers_registerd lg' = tls_loggers_registerd lg |-| {|p|}
            \<and> orphans_to_destroy lg' = orphans_to_destroy lg
            \<and> tls lg' p = Some t'
            \<and> entries t' = (entries tq)[unat (written_index tq)
                 := entries tq ! unat (written_index tq) @ [OrphanEntry p]]))
   \<and> (\<forall>lg'. UnRegisterTlsLogger lg p = Some (Inr lg') \<longrightarrow>
         tls_logger_orphans lg' = p # tls_logger_orphans lg
         \<and> tls_loggers_registerd lg' = tls_loggers_registerd lg |-| {|p|}
         \<and> orphans_to_destroy lg' = orphans_to_destroy lg)
   \<and> (\<forall>lb. IOThread_iteration la = Inr lb \<longrightarrow>
         (\<exists>l1 l2. IOThread_gather la = Inr l1 \<and> IOThread_process l1 = Inr l2
            \<and> keeps_orphans la l1 \<and> keeps_orphans la l2 \<and> keeps_orphans la (IOThread_flush l2)
            \<and> lb = IOThread_retire (IOThread_flush l2)
            \<and> tls_logger_orphans lb
                = fold remove1 (orphans_to_destroy l2) (tls_logger_orphans la)
            \<and> (\<forall>q. tls lb q = (if q \<in> set (orphans_to_destroy l2) then None else tls l2 q))
            \<and> orphans_to_destroy lb = []))"
proof -
  have S1: "reachable m s \<and> alive (logger s) p \<longrightarrow>
       (p |\<in>| tls_loggers_registerd (logger s) \<or> p \<in> set (tls_logger_orphans (logger s)))
     \<and> (threads s p = Unreg_erase \<longrightarrow>
          p |\<in>| tls_loggers_registerd (logger s) \<and> p \<in> set (tls_logger_orphans (logger s))
          \<and> OrphanEntry p \<notin> set (submitted s p))
     \<and> (OrphanEntry p \<in> set (submitted s p) \<longrightarrow>
          p |\<notin>| tls_loggers_registerd (logger s) \<and> p \<in> set (tls_logger_orphans (logger s)))
     \<and> (p \<in> set (tls_logger_orphans (logger s)) \<and> threads s p \<noteq> Unreg_erase \<longrightarrow>
          p |\<notin>| tls_loggers_registerd (logger s) \<and> OrphanEntry p \<in> set (submitted s p))"
  proof
    assume "reachable m s \<and> alive (logger s) p"
    then have r: "reachable m s" and a: "alive (logger s) p" by simp_all
    from life_cycle(1) [OF r a] life_cycle(2) [OF r a] life_cycle(3) [OF r a]
      life_cycle(4) [OF r a]
    show "(p |\<in>| tls_loggers_registerd (logger s) \<or> p \<in> set (tls_logger_orphans (logger s)))
     \<and> (threads s p = Unreg_erase \<longrightarrow>
          p |\<in>| tls_loggers_registerd (logger s) \<and> p \<in> set (tls_logger_orphans (logger s))
          \<and> OrphanEntry p \<notin> set (submitted s p))
     \<and> (OrphanEntry p \<in> set (submitted s p) \<longrightarrow>
          p |\<notin>| tls_loggers_registerd (logger s) \<and> p \<in> set (tls_logger_orphans (logger s)))
     \<and> (p \<in> set (tls_logger_orphans (logger s)) \<and> threads s p \<noteq> Unreg_erase \<longrightarrow>
          p |\<notin>| tls_loggers_registerd (logger s) \<and> OrphanEntry p \<in> set (submitted s p))"
      by blast
  qed
  have S2: "threads s p = Idle \<longrightarrow>
         step s (goto s p (UnRegister_adopt (logger s) p) Unreg_erase)"
    by (simp add: step.thread_exit)
  have S3: "threads s p = Unreg_erase \<longrightarrow>
         step s (goto s p (UnRegister_erase (logger s) p) (Log_load (OrphanEntry p) Then_exit))"
  proof
    assume "threads s p = Unreg_erase"
    then have "thread_step 0 (logger s) p (threads s p)
      = Some (Inr (UnRegister_erase (logger s) p, Log_load (OrphanEntry p) Then_exit))"
      by simp
    then show "step s (goto s p (UnRegister_erase (logger s) p)
        (Log_load (OrphanEntry p) Then_exit))"
      by (rule step.thread)
  qed
  have S4: "step u u' \<and> alive (logger u) p \<and> \<not> alive (logger u') p \<longrightarrow>
         io u = IO_retire \<and> io u' = IO_top \<and> p \<in> set (orphans_to_destroy (logger u))
         \<and> logger u' = IOThread_retire (logger u)"
    using step_alive [of u u' p] by blast
  have S5: "step u u' \<and> p \<in> set (tls_logger_orphans (logger u))
         \<and> p \<notin> set (tls_logger_orphans (logger u')) \<longrightarrow>
         io u = IO_retire \<and> io u' = IO_top \<and> p \<in> set (orphans_to_destroy (logger u))
         \<and> logger u' = IOThread_retire (logger u)"
    using step_orphan_erased [of u u' p] by blast
  have S6: "io_step lx iopc = Some (Inr (lx', IO_retire, evs)) \<longrightarrow>
         iopc = IO_flush \<and> lx' = IOThread_flush lx"
    using io_step_phase(1) [of lx iopc lx' IO_retire evs] by blast
  have S7: "io_step lx iopc = Some (Inr (lx', IO_flush, evs)) \<longrightarrow>
         (\<exists>k. iopc = IO_process k \<and> length (threads_to_read lx) \<le> k)"
    using io_step_phase(2) [of lx iopc lx' IO_flush evs] by blast
  have S8: "tls la p = Some t \<longrightarrow>
         run_entry (OrphanEntry p) la =
           Inr (la\<lparr> tls_total_log_cas_fail_count :=
                       tls_total_log_cas_fail_count la + log_cas_fail_count t,
                     tls_total_swap_buffers_slot_retry_count :=
                       tls_total_swap_buffers_slot_retry_count la
                         + swap_buffers_slot_retry_count t,
                     tls := (tls la)(p \<mapsto> t\<lparr> log_cas_fail_count := 0,
                                              swap_buffers_slot_retry_count := 0 \<rparr>),
                     orphans_to_destroy := orphans_to_destroy la @ [p] \<rparr>)"
    using run_entry_OrphanEntry [of la p t] by blast
  have S8': "reachable n v \<and> io v = IO_run j (OrphanEntry p # es) \<longrightarrow>
         threads_to_read (logger v) ! j = p
         \<and> (\<exists>tv. tls (logger v) p = Some tv
               \<and> io_step (logger v) (io v) =
                   Some (Inr ((logger v)
                     \<lparr> tls_total_log_cas_fail_count :=
                         tls_total_log_cas_fail_count (logger v) + log_cas_fail_count tv,
                       tls_total_swap_buffers_slot_retry_count :=
                         tls_total_swap_buffers_slot_retry_count (logger v)
                           + swap_buffers_slot_retry_count tv,
                       tls := (tls (logger v))(p \<mapsto> tv\<lparr> log_cas_fail_count := 0,
                                                        swap_buffers_slot_retry_count := 0 \<rparr>),
                       orphans_to_destroy := orphans_to_destroy (logger v) @ [p] \<rparr>,
                     IO_run j es, [(p, OrphanEntry p)])))"
  proof
    assume "reachable n v \<and> io v = IO_run j (OrphanEntry p # es)"
    then have r: "reachable n v" and i: "io v = IO_run j (OrphanEntry p # es)" by simp_all
    from reachable_run_orphan [OF r i]
    obtain tv where k: "threads_to_read (logger v) ! j = p" and tv: "tls (logger v) p = Some tv"
      by (auto simp: alive_def)
    from run_entry_OrphanEntry [OF tv] i k
    have "io_step (logger v) (io v) =
                   Some (Inr ((logger v)
                     \<lparr> tls_total_log_cas_fail_count :=
                         tls_total_log_cas_fail_count (logger v) + log_cas_fail_count tv,
                       tls_total_swap_buffers_slot_retry_count :=
                         tls_total_swap_buffers_slot_retry_count (logger v)
                           + swap_buffers_slot_retry_count tv,
                       tls := (tls (logger v))(p \<mapsto> tv\<lparr> log_cas_fail_count := 0,
                                                        swap_buffers_slot_retry_count := 0 \<rparr>),
                       orphans_to_destroy := orphans_to_destroy (logger v) @ [p] \<rparr>,
                     IO_run j es, [(p, OrphanEntry p)]))"
      by simp
    with k tv show "threads_to_read (logger v) ! j = p
         \<and> (\<exists>tv. tls (logger v) p = Some tv
               \<and> io_step (logger v) (io v) =
                   Some (Inr ((logger v)
                     \<lparr> tls_total_log_cas_fail_count :=
                         tls_total_log_cas_fail_count (logger v) + log_cas_fail_count tv,
                       tls_total_swap_buffers_slot_retry_count :=
                         tls_total_swap_buffers_slot_retry_count (logger v)
                           + swap_buffers_slot_retry_count tv,
                       tls := (tls (logger v))(p \<mapsto> tv\<lparr> log_cas_fail_count := 0,
                                                        swap_buffers_slot_retry_count := 0 \<rparr>),
                       orphans_to_destroy := orphans_to_destroy (logger v) @ [p] \<rparr>,
                     IO_run j es, [(p, OrphanEntry p)])))"
      by blast
  qed
  have S9: "can_log lg p tq k \<longrightarrow>
         (\<exists>lg' t'. UnRegisterTlsLogger lg p = Some (Inr lg')
            \<and> tls_logger_orphans lg' = p # tls_logger_orphans lg
            \<and> tls_loggers_registerd lg' = tls_loggers_registerd lg |-| {|p|}
            \<and> orphans_to_destroy lg' = orphans_to_destroy lg
            \<and> tls lg' p = Some t'
            \<and> entries t' = (entries tq)[unat (written_index tq)
                 := entries tq ! unat (written_index tq) @ [OrphanEntry p]])"
    using UnRegisterTlsLogger_returns [of lg p tq k] by blast
  have S10: "\<forall>lg'. UnRegisterTlsLogger lg p = Some (Inr lg') \<longrightarrow>
         tls_logger_orphans lg' = p # tls_logger_orphans lg
         \<and> tls_loggers_registerd lg' = tls_loggers_registerd lg |-| {|p|}
         \<and> orphans_to_destroy lg' = orphans_to_destroy lg"
  proof (intro allI impI)
    fix lg'
    assume "UnRegisterTlsLogger lg p = Some (Inr lg')"
    then have "same_registry (UnRegister_erase (UnRegister_adopt lg p) p) lg'"
      unfolding UnRegisterTlsLogger_def by (rule TlsLogger_Log_registry)
    then show "tls_logger_orphans lg' = p # tls_logger_orphans lg
         \<and> tls_loggers_registerd lg' = tls_loggers_registerd lg |-| {|p|}
         \<and> orphans_to_destroy lg' = orphans_to_destroy lg"
      by (simp add: same_registry_def UnRegister_erase_def UnRegister_adopt_def)
  qed
  have S11: "\<forall>lb. IOThread_iteration la = Inr lb \<longrightarrow>
         (\<exists>l1 l2. IOThread_gather la = Inr l1 \<and> IOThread_process l1 = Inr l2
            \<and> keeps_orphans la l1 \<and> keeps_orphans la l2 \<and> keeps_orphans la (IOThread_flush l2)
            \<and> lb = IOThread_retire (IOThread_flush l2)
            \<and> tls_logger_orphans lb
                = fold remove1 (orphans_to_destroy l2) (tls_logger_orphans la)
            \<and> (\<forall>q. tls lb q = (if q \<in> set (orphans_to_destroy l2) then None else tls l2 q))
            \<and> orphans_to_destroy lb = [])"
    using IOThread_iteration_phases [of la] by blast
  show ?thesis
    by (intro conjI S1 S2 S3 S4 S5 S6 S7 S8 S8' S9 S10 S11)
qed

lemma ex_unregister_retry:
  "UnRegisterTlsLogger
       (ex_logger\<lparr> thread_swap_request_slots := [16, 3], tls_loggers_registerd := {|8|} \<rparr>) 8 =
     Some (Inr (ex_logger\<lparr> thread_swap_request_slots := [16, 8], swap_request_id := 2,
       tls_logger_orphans := [8],
       tls := [8 \<mapsto> ex_tls\<lparr> entries := [[], [OrphanEntry 8]], i_write_prev := 1,
                             swap_buffers_slot_retry_count := 1 \<rparr>] \<rparr>))"
  by (simp add: UnRegisterTlsLogger_def UnRegister_adopt_def UnRegister_erase_def
      TlsLogger_Log_def ex_logger_def Logger_new_def ex_tls_def TlsLogger_new_def
      Log_lock.simps compare_exchange_strong_def Let_def RequestSwapBuffers_def
      RequestSwapBuffers_loop.simps SwapRequestSlotIsReadable_def
      RequestSwapBuffersSlotRetried_def
      SwapRequestSlotIsWritableValue_def slot_count_def upt_rec)

lemma ex_can_unregister:
  "can_log (ex_logger\<lparr> tls_loggers_registerd := {|8|} \<rparr>) 8 ex_tls 0"
  "can_log (ex_logger\<lparr> thread_swap_request_slots := [16, 3],
                        tls_loggers_registerd := {|8|} \<rparr>) 8 ex_tls 1"
  by (simp_all add: can_log_def first_room_def tls_wf_def ex_logger_def
      Logger_new_def ex_tls_def TlsLogger_new_def SwapRequestSlotIsReadable_def
      SwapRequestSlotIsWritableValue_def slot_count_def upt_rec)

lemma ex_exit_facts:
  "alive (logger ex_adopted) 8"
  "threads ex_adopted 8 = Unreg_erase"
  "threads ex_returned 8 = Idle"
  "alive (logger ex_erased) 8"
  "OrphanEntry 8 \<in> set (submitted ex_erased 8)"
  "threads ex_erased 8 \<noteq> Unreg_erase"
  "alive (logger ex_retiring) 8"
  "\<not> alive (logger ex_destroyed) 8"
  "8 \<in> set (tls_logger_orphans (logger ex_retiring))"
  "8 \<notin> set (tls_logger_orphans (logger ex_destroyed))"
  "goto ex_returned 8 (UnRegister_adopt (logger ex_returned) 8) Unreg_erase = ex_adopted"
  "goto ex_adopted 8 (UnRegister_erase (logger ex_adopted) 8)
     (Log_load (OrphanEntry 8) Then_exit) = ex_erased"
  by (simp_all add: ex_adopted_def ex_returned_def ex_erased_def ex_retiring_def
      ex_destroyed_def ex_defs ex_lo_def alive_def UnRegister_adopt_def UnRegister_erase_def)

lemma ex_io_facts:
  "io_step (logger ex_marked) IO_flush
     = Some (Inr (IOThread_flush (logger ex_marked), IO_retire, []))"
  "io_step (logger ex_marked) (IO_process 1)
     = Some (Inr ((logger ex_marked)\<lparr> threads_to_read := [8] \<rparr>, IO_flush, []))"
  "threads_to_read (logger ex_marked) = [8]"
  "tls (logger ex_collecting) 8
     = Some (ex_q [Unlocked, ReadLock] [[], [OrphanEntry 8]] 1 0 1 1 1)"
  "log_cas_fail_count (ex_q [Unlocked, ReadLock] [[], [OrphanEntry 8]] 1 0 1 1 1) = 1"
  "tls_total_log_cas_fail_count (logger ex_collecting) = 0"
  by (simp_all add: ex_marked_def ex_collecting_def ex_defs ex_lo_def RemoveValue_def)

text \<open>
  In the example run: the state between the two blocks and the state after them, the
  I/O thread running the \<open>OrphanEntry\<close> with one CAS failure to collect, and the step
  that destroys the TlsLogger. And with nothing in between: the entry run on counters
  2 and 3, \<open>UnRegisterTlsLogger\<close> with room in the first slot and with the first slot
  taken, and a pass of the I/O thread's loop after it.
\<close>

theorem UnRegisterTlsLogger_order_witness:
  "reachable 1 ex_adopted \<and> alive (logger ex_adopted) 8
   \<and> threads ex_adopted 8 = Unreg_erase
   \<and> 8 |\<in>| tls_loggers_registerd (logger ex_adopted)
   \<and> 8 \<in> set (tls_logger_orphans (logger ex_adopted))
   \<and> OrphanEntry 8 \<notin> set (submitted ex_adopted 8)
   \<and> threads ex_returned 8 = Idle
   \<and> step ex_returned ex_adopted
   \<and> step ex_adopted ex_erased
   \<and> reachable 1 ex_erased \<and> alive (logger ex_erased) 8
   \<and> OrphanEntry 8 \<in> set (submitted ex_erased 8)
   \<and> 8 |\<notin>| tls_loggers_registerd (logger ex_erased)
   \<and> 8 \<in> set (tls_logger_orphans (logger ex_erased))
   \<and> step ex_retiring ex_destroyed
   \<and> alive (logger ex_retiring) 8 \<and> \<not> alive (logger ex_destroyed) 8
   \<and> 8 \<in> set (tls_logger_orphans (logger ex_retiring))
   \<and> 8 \<notin> set (tls_logger_orphans (logger ex_destroyed))
   \<and> io ex_retiring = IO_retire \<and> io ex_destroyed = IO_top
   \<and> 8 \<in> set (orphans_to_destroy (logger ex_retiring))
   \<and> logger ex_destroyed = IOThread_retire (logger ex_retiring)
   \<and> io_step (logger ex_marked) IO_flush
       = Some (Inr (IOThread_flush (logger ex_marked), IO_retire, []))
   \<and> io_step (logger ex_marked) (IO_process 1)
       = Some (Inr ((logger ex_marked)\<lparr> threads_to_read := [8] \<rparr>, IO_flush, []))
   \<and> length (threads_to_read (logger ex_marked)) \<le> 1
   \<and> reachable 1 ex_collecting \<and> io ex_collecting = IO_run 0 [OrphanEntry 8]
   \<and> threads_to_read (logger ex_collecting) ! 0 = 8
   \<and> io_step (logger ex_collecting) (io ex_collecting)
       = Some (Inr (logger ex_marked, IO_run 0 [], [(8, OrphanEntry 8)]))
   \<and> tls_total_log_cas_fail_count (logger ex_collecting) = 0
   \<and> run_entry (OrphanEntry 8) (logger ex_collecting) = Inr (logger ex_marked)
   \<and> tls_total_log_cas_fail_count (logger ex_marked) = 1
   \<and> orphans_to_destroy (logger ex_marked) = [8]
   \<and> run_entry (OrphanEntry 8)
        (ex_logger\<lparr> tls_total_log_cas_fail_count := 10,
                     tls_total_swap_buffers_slot_retry_count := 20,
                     tls := [8 \<mapsto> ex_tls\<lparr> log_cas_fail_count := 2,
                                           swap_buffers_slot_retry_count := 3 \<rparr>] \<rparr>)
       = Inr (ex_logger\<lparr> tls_total_log_cas_fail_count := 12,
                          tls_total_swap_buffers_slot_retry_count := 23,
                          orphans_to_destroy := [8] \<rparr>)
   \<and> can_log (ex_logger\<lparr> tls_loggers_registerd := {|8|} \<rparr>) 8 ex_tls 0
   \<and> UnRegisterTlsLogger (ex_logger\<lparr> tls_loggers_registerd := {|8|} \<rparr>) 8 =
       Some (Inr (ex_logger\<lparr> thread_swap_request_slots := [8, 3], swap_request_id := 1,
         tls_logger_orphans := [8],
         tls := [8 \<mapsto> ex_tls\<lparr> entries := [[], [OrphanEntry 8]], i_write_prev := 1 \<rparr>] \<rparr>))
   \<and> can_log (ex_logger\<lparr> thread_swap_request_slots := [16, 3],
                          tls_loggers_registerd := {|8|} \<rparr>) 8 ex_tls 1
   \<and> UnRegisterTlsLogger
         (ex_logger\<lparr> thread_swap_request_slots := [16, 3], tls_loggers_registerd := {|8|} \<rparr>) 8 =
       Some (Inr (ex_logger\<lparr> thread_swap_request_slots := [16, 8], swap_request_id := 2,
         tls_logger_orphans := [8],
         tls := [8 \<mapsto> ex_tls\<lparr> entries := [[], [OrphanEntry 8]], i_write_prev := 1,
                               swap_buffers_slot_retry_count := 1 \<rparr>] \<rparr>))
   \<and> (case IOThread_iteration
              (ex_logger\<lparr> thread_swap_request_slots := [8, 3], swap_request_id := 1,
                 tls_logger_orphans := [8],
                 tls := [8 \<mapsto> ex_tls\<lparr> entries := [[], [OrphanEntry 8]], i_write_prev := 1 \<rparr>] \<rparr>) of
         Inl f \<Rightarrow> False
       | Inr lb \<Rightarrow>
           tls lb 8 = None \<and> tls_logger_orphans lb = [] \<and> orphans_to_destroy lb = []
           \<and> async_logger lb = [SetCurrentTracePidTidString ''pid 1 tid 1'', Flush])"
proof -
  note f = ex_exit_facts and g = ex_io_facts
  note T1 = UnRegisterTlsLogger_order [where m = 1 and s = ex_adopted and p = 8
      and u = ex_retiring and u' = ex_destroyed
      and lx = "logger ex_marked" and iopc = IO_flush
      and lx' = "IOThread_flush (logger ex_marked)" and evs = "[]"
      and la = "logger ex_collecting"
      and t = "ex_q [Unlocked, ReadLock] [[], [OrphanEntry 8]] 1 0 1 1 1"
      and lg = "ex_logger\<lparr> tls_loggers_registerd := {|8|} \<rparr>" and tq = ex_tls and k = 0
      and n = 1 and v = ex_collecting and j = 0 and es = "[]"]
  note T2 = UnRegisterTlsLogger_order [where m = 1 and s = ex_erased and p = 8
      and u = ex_retiring and u' = ex_destroyed
      and lx = "logger ex_marked" and iopc = "IO_process 1"
      and lx' = "(logger ex_marked)\<lparr> threads_to_read := [8] \<rparr>" and evs = "[]"
      and la = "ex_logger\<lparr> tls_total_log_cas_fail_count := 10,
                     tls_total_swap_buffers_slot_retry_count := 20,
                     tls := [8 \<mapsto> ex_tls\<lparr> log_cas_fail_count := 2,
                                           swap_buffers_slot_retry_count := 3 \<rparr>] \<rparr>"
      and t = "ex_tls\<lparr> log_cas_fail_count := 2, swap_buffers_slot_retry_count := 3 \<rparr>"
      and lg = "ex_logger\<lparr> thread_swap_request_slots := [16, 3],
                            tls_loggers_registerd := {|8|} \<rparr>" and tq = ex_tls and k = 1]
  note T3 = UnRegisterTlsLogger_order [where s = ex_returned and p = 8]
  from T1 ex_run_43 f(1,2)
  have a: "8 |\<in>| tls_loggers_registerd (logger ex_adopted)
      \<and> 8 \<in> set (tls_logger_orphans (logger ex_adopted))
      \<and> OrphanEntry 8 \<notin> set (submitted ex_adopted 8)"
    by blast
  from T3 f(3) have "step ex_returned
      (goto ex_returned 8 (UnRegister_adopt (logger ex_returned) 8) Unreg_erase)"
    by blast
  then have b: "step ex_returned ex_adopted"
    by (simp only: f(11))
  from T1 f(2) have "step ex_adopted
      (goto ex_adopted 8 (UnRegister_erase (logger ex_adopted) 8)
         (Log_load (OrphanEntry 8) Then_exit))"
    by blast
  then have c: "step ex_adopted ex_erased"
    by (simp only: f(12))
  from T2 ex_run_44 f(4,5)
  have d: "8 |\<notin>| tls_loggers_registerd (logger ex_erased)
      \<and> 8 \<in> set (tls_logger_orphans (logger ex_erased))"
    by blast
  from T1 ex_step_68 f(7,8)
  have e: "io ex_retiring = IO_retire \<and> io ex_destroyed = IO_top
      \<and> 8 \<in> set (orphans_to_destroy (logger ex_retiring))
      \<and> logger ex_destroyed = IOThread_retire (logger ex_retiring)"
    by blast
  have io: "io ex_collecting = IO_run 0 [OrphanEntry 8]"
    by (simp add: ex_collecting_def ex_sys_def)
  from T1 ex_run_63 io
  have "threads_to_read (logger ex_collecting) ! 0 = 8
      \<and> (\<exists>tv. tls (logger ex_collecting) 8 = Some tv
            \<and> io_step (logger ex_collecting) (io ex_collecting) =
                Some (Inr ((logger ex_collecting)
                  \<lparr> tls_total_log_cas_fail_count :=
                      tls_total_log_cas_fail_count (logger ex_collecting)
                        + log_cas_fail_count tv,
                    tls_total_swap_buffers_slot_retry_count :=
                      tls_total_swap_buffers_slot_retry_count (logger ex_collecting)
                        + swap_buffers_slot_retry_count tv,
                    tls := (tls (logger ex_collecting))(8 \<mapsto> tv\<lparr> log_cas_fail_count := 0,
                                                     swap_buffers_slot_retry_count := 0 \<rparr>),
                    orphans_to_destroy := orphans_to_destroy (logger ex_collecting) @ [8] \<rparr>,
                  IO_run 0 [], [(8, OrphanEntry 8)])))"
    by blast
  then have rn: "threads_to_read (logger ex_collecting) ! 0 = 8"
    "io_step (logger ex_collecting) (io ex_collecting)
       = Some (Inr (logger ex_marked, IO_run 0 [], [(8, OrphanEntry 8)]))"
    by (auto simp: g(4) ex_collecting_def ex_marked_def ex_defs ex_lo_def)
  have h: "length (threads_to_read (logger ex_marked)) \<le> 1"
    by (simp add: g(3))
  from T1 g(4) have "run_entry (OrphanEntry 8) (logger ex_collecting) =
      Inr ((logger ex_collecting)\<lparr> tls_total_log_cas_fail_count :=
                tls_total_log_cas_fail_count (logger ex_collecting)
                  + log_cas_fail_count (ex_q [Unlocked, ReadLock] [[], [OrphanEntry 8]] 1 0 1 1 1),
              tls_total_swap_buffers_slot_retry_count :=
                tls_total_swap_buffers_slot_retry_count (logger ex_collecting)
                  + swap_buffers_slot_retry_count
                      (ex_q [Unlocked, ReadLock] [[], [OrphanEntry 8]] 1 0 1 1 1),
              tls := (tls (logger ex_collecting))(8 \<mapsto>
                 (ex_q [Unlocked, ReadLock] [[], [OrphanEntry 8]] 1 0 1 1 1)
                   \<lparr> log_cas_fail_count := 0, swap_buffers_slot_retry_count := 0 \<rparr>),
              orphans_to_destroy := orphans_to_destroy (logger ex_collecting) @ [8] \<rparr>)"
    by blast
  also have "\<dots> = Inr (logger ex_marked)"
    by (simp add: ex_collecting_def ex_marked_def ex_defs ex_lo_def)
  finally have i: "run_entry (OrphanEntry 8) (logger ex_collecting) = Inr (logger ex_marked)" .
  have j: "tls_total_log_cas_fail_count (logger ex_marked) = 1"
    "orphans_to_destroy (logger ex_marked) = [8]"
    by (simp_all add: ex_marked_def ex_defs ex_lo_def)
  have "tls (ex_logger\<lparr> tls_total_log_cas_fail_count := 10,
                     tls_total_swap_buffers_slot_retry_count := 20,
                     tls := [8 \<mapsto> ex_tls\<lparr> log_cas_fail_count := 2,
                                           swap_buffers_slot_retry_count := 3 \<rparr>] \<rparr>) 8
      = Some (ex_tls\<lparr> log_cas_fail_count := 2, swap_buffers_slot_retry_count := 3 \<rparr>)"
    by simp
  with T2 have "run_entry (OrphanEntry 8)
        (ex_logger\<lparr> tls_total_log_cas_fail_count := 10,
                     tls_total_swap_buffers_slot_retry_count := 20,
                     tls := [8 \<mapsto> ex_tls\<lparr> log_cas_fail_count := 2,
                                           swap_buffers_slot_retry_count := 3 \<rparr>] \<rparr>)
       = Inr ((ex_logger\<lparr> tls_total_log_cas_fail_count := 10,
                     tls_total_swap_buffers_slot_retry_count := 20,
                     tls := [8 \<mapsto> ex_tls\<lparr> log_cas_fail_count := 2,
                                           swap_buffers_slot_retry_count := 3 \<rparr>] \<rparr>)
            \<lparr> tls_total_log_cas_fail_count :=
                tls_total_log_cas_fail_count (ex_logger\<lparr> tls_total_log_cas_fail_count := 10,
                     tls_total_swap_buffers_slot_retry_count := 20,
                     tls := [8 \<mapsto> ex_tls\<lparr> log_cas_fail_count := 2,
                                           swap_buffers_slot_retry_count := 3 \<rparr>] \<rparr>)
                  + log_cas_fail_count
                      (ex_tls\<lparr> log_cas_fail_count := 2, swap_buffers_slot_retry_count := 3 \<rparr>),
              tls_total_swap_buffers_slot_retry_count :=
                tls_total_swap_buffers_slot_retry_count
                    (ex_logger\<lparr> tls_total_log_cas_fail_count := 10,
                     tls_total_swap_buffers_slot_retry_count := 20,
                     tls := [8 \<mapsto> ex_tls\<lparr> log_cas_fail_count := 2,
                                           swap_buffers_slot_retry_count := 3 \<rparr>] \<rparr>)
                  + swap_buffers_slot_retry_count
                      (ex_tls\<lparr> log_cas_fail_count := 2, swap_buffers_slot_retry_count := 3 \<rparr>),
              tls := (tls (ex_logger\<lparr> tls_total_log_cas_fail_count := 10,
                     tls_total_swap_buffers_slot_retry_count := 20,
                     tls := [8 \<mapsto> ex_tls\<lparr> log_cas_fail_count := 2,
                                           swap_buffers_slot_retry_count := 3 \<rparr>] \<rparr>))(8 \<mapsto>
                 (ex_tls\<lparr> log_cas_fail_count := 2, swap_buffers_slot_retry_count := 3 \<rparr>)
                   \<lparr> log_cas_fail_count := 0, swap_buffers_slot_retry_count := 0 \<rparr>),
              orphans_to_destroy := orphans_to_destroy
                  (ex_logger\<lparr> tls_total_log_cas_fail_count := 10,
                     tls_total_swap_buffers_slot_retry_count := 20,
                     tls := [8 \<mapsto> ex_tls\<lparr> log_cas_fail_count := 2,
                                           swap_buffers_slot_retry_count := 3 \<rparr>] \<rparr>) @ [8] \<rparr>)"
    by blast
  also have "\<dots> = Inr (ex_logger\<lparr> tls_total_log_cas_fail_count := 12,
                          tls_total_swap_buffers_slot_retry_count := 23,
                          orphans_to_destroy := [8] \<rparr>)"
    by (simp add: ex_logger_def Logger_new_def ex_tls_def TlsLogger_new_def)
  finally have k: "run_entry (OrphanEntry 8)
        (ex_logger\<lparr> tls_total_log_cas_fail_count := 10,
                     tls_total_swap_buffers_slot_retry_count := 20,
                     tls := [8 \<mapsto> ex_tls\<lparr> log_cas_fail_count := 2,
                                           swap_buffers_slot_retry_count := 3 \<rparr>] \<rparr>)
       = Inr (ex_logger\<lparr> tls_total_log_cas_fail_count := 12,
                          tls_total_swap_buffers_slot_retry_count := 23,
                          orphans_to_destroy := [8] \<rparr>)" .
  have l: "(case IOThread_iteration
              (ex_logger\<lparr> thread_swap_request_slots := [8, 3], swap_request_id := 1,
                 tls_logger_orphans := [8],
                 tls := [8 \<mapsto> ex_tls\<lparr> entries := [[], [OrphanEntry 8]], i_write_prev := 1 \<rparr>] \<rparr>) of
         Inl f \<Rightarrow> False
       | Inr lb \<Rightarrow>
           tls lb 8 = None \<and> tls_logger_orphans lb = [] \<and> orphans_to_destroy lb = []
           \<and> async_logger lb = [SetCurrentTracePidTidString ''pid 1 tid 1'', Flush])"
    by (simp add: IOThread_iteration_def ex_gather ex_process
        IOThread_flush_def IOThread_retire_def)
  from a b c d e h i j k l f(1-10) g(1,2,6) ex_run_43 ex_run_44 ex_step_68 ex_run_63 io rn
    ex_can_unregister ex_unregister ex_unregister_retry
  show ?thesis
    by (intro conjI) (simp_all only: simp_thms)
qed

end
